(* ===== verification/Prelude.thy ===== *)
theory Prelude
  imports Main "HOL-Library.Sublist"
begin

text \<open>
  Shared vocabulary of the development: the names of the model's basic types, the collections of
  facts that the component proofs pass to the simplifier, and generic lemmas on lists, options and
  sums that several components use.

  A Go \<open>string\<close> and a Go \<open>[]byte\<close> are both sequences of bytes. HOL's \<open>string\<close> is a list of 8-bit
  characters, so one type serves both. A Go result pair \<open>(value, error)\<close> is a sum: \<open>Inl\<close> the error
  or \<open>Inr\<close> the value.
\<close>

type_synonym bytes = string
type_synonym ('e, 'a) result = "'e + 'a"

named_theorems go_simps \<open>unfolding equations of the modelled standard-library calls\<close>
named_theorems path_simps \<open>facts on slash-separated paths\<close>
named_theorems triple_rules \<open>syntax-directed rules for triples over the effect monad\<close>

section \<open>Results\<close>

definition bindR :: "('e, 'a) result \<Rightarrow> ('a \<Rightarrow> ('e, 'b) result) \<Rightarrow> ('e, 'b) result" where
  "bindR r f = (case r of Inl e \<Rightarrow> Inl e | Inr v \<Rightarrow> f v)"

lemma bindR_simps [simp]:
  "bindR (Inl e) f = Inl e"
  "bindR (Inr v) f = f v"
  by (simp_all add: bindR_def)

lemma bindR_Inr_iff: "bindR r f = Inr y \<longleftrightarrow> (\<exists>x. r = Inr x \<and> f x = Inr y)"
  by (cases r) auto

lemma isl_cases: "(\<exists>e. r = Inl e) \<or> (\<exists>v. r = Inr v)"
  by (cases r) auto

section \<open>Lists\<close>

lemma take_length_prefix: "prefix p s \<Longrightarrow> take (length p) s = p"
  by (auto simp: prefix_def)

lemma prefix_drop_append: "prefix p s \<Longrightarrow> p @ drop (length p) s = s"
  by (auto simp: prefix_def)

lemma drop_take_append: "i \<le> j \<Longrightarrow> j \<le> length xs \<Longrightarrow> take i xs @ drop i (take j xs) = take j xs"
  by (metis append_take_drop_id min.absorb1 take_take)

lemma last_index_cases: "xs \<noteq> [] \<Longrightarrow> xs = butlast xs @ [last xs]"
  by simp

lemma list_split_at:
  assumes "i < length xs"
  shows "xs = take i xs @ xs ! i # drop (Suc i) xs"
  using assms by (simp add: id_take_nth_drop)

lemma takeWhile_dropWhile_set:
  "x \<in> set (takeWhile P xs) \<Longrightarrow> P x"
  by (rule conjunct2 [OF set_takeWhileD])

lemma filter_drop_take:
  "i \<le> j \<Longrightarrow> filter P (take i xs) @ filter P (drop i (take j xs)) = filter P (take j xs)"
  by (metis append_take_drop_id filter_append min.absorb1 take_take)

lemma count_list_append_split:
  "i \<le> j \<Longrightarrow> count_list (take i xs) x + count_list (drop i (take j xs)) x = count_list (take j xs) x"
  by (metis append_take_drop_id count_list_append min.absorb1 take_take)

lemma sorted_wrt_less_Cons_le: "sorted (x # xs) \<Longrightarrow> y \<in> set xs \<Longrightarrow> x \<le> y"
  by simp

end
