(* ===== verification/GoBytes.thy ===== *)
theory GoBytes
  imports Prelude
begin

text \<open>
  What the program uses of Go's \<open>bytes\<close>, \<open>strings\<close> and \<open>strconv\<close> packages, on byte lists:
  prefix tests, \<open>Index\<close>, \<open>Split\<close>, \<open>Join\<close>, \<open>Replace\<close>, \<open>Count\<close> of one byte, and decimal and
  hexadecimal rendering of integers. \<open>Index\<close> returns \<open>None\<close> where Go returns -1.
\<close>

section \<open>Prefixes and searching\<close>

fun hasPrefix :: "bytes \<Rightarrow> bytes \<Rightarrow> bool" where
  "hasPrefix s [] = True"
| "hasPrefix [] (p # ps) = False"
| "hasPrefix (x # s) (p # ps) = (x = p \<and> hasPrefix s ps)"

lemma hasPrefix_iff [simp]: "hasPrefix s p \<longleftrightarrow> prefix p s"
  by (induction s p rule: hasPrefix.induct) auto

definition hasSuffix :: "bytes \<Rightarrow> bytes \<Rightarrow> bool" where
  "hasSuffix s p = (length p \<le> length s \<and> drop (length s - length p) s = p)"

lemma hasSuffix_iff: "hasSuffix s p \<longleftrightarrow> suffix p s"
  unfolding hasSuffix_def suffix_def
  by (metis append_eq_conv_conj append_take_drop_id diff_diff_cancel length_append length_drop
      le_add2 add_diff_cancel_right')

definition trimPrefix :: "bytes \<Rightarrow> bytes \<Rightarrow> bytes" where
  "trimPrefix s p = (if hasPrefix s p then drop (length p) s else s)"

definition trimSuffix :: "bytes \<Rightarrow> bytes \<Rightarrow> bytes" where
  "trimSuffix s p = (if hasSuffix s p then take (length s - length p) s else s)"

fun index :: "bytes \<Rightarrow> bytes \<Rightarrow> nat option" where
  "index [] sep = (if sep = [] then Some 0 else None)"
| "index (x # s) sep = (if hasPrefix (x # s) sep then Some 0 else map_option Suc (index s sep))"

definition contains :: "bytes \<Rightarrow> bytes \<Rightarrow> bool" where
  "contains s sub = (index s sub \<noteq> None)"

text \<open>\<open>occurs_at sep s i\<close>: \<open>sep\<close> stands in \<open>s\<close> at byte offset \<open>i\<close>. This is the specification of
  \<open>index\<close>: the least such offset, or none.\<close>

definition occurs_at :: "bytes \<Rightarrow> bytes \<Rightarrow> nat \<Rightarrow> bool" where
  "occurs_at sep s i \<longleftrightarrow> i \<le> length s \<and> prefix sep (drop i s)"

lemma occurs_at_0 [simp]: "occurs_at sep s 0 \<longleftrightarrow> prefix sep s"
  by (simp add: occurs_at_def)

lemma occurs_at_Cons_Suc [simp]: "occurs_at sep (x # s) (Suc i) \<longleftrightarrow> occurs_at sep s i"
  by (simp add: occurs_at_def)

lemma occurs_at_Nil [simp]: "occurs_at sep [] i \<longleftrightarrow> i = 0 \<and> sep = []"
  by (auto simp: occurs_at_def)

lemma occurs_at_bound: "occurs_at sep s i \<Longrightarrow> i + length sep \<le> length s"
  by (auto simp: occurs_at_def dest: prefix_length_le)

lemma occurs_at_drop: "occurs_at sep (drop k s) i \<Longrightarrow> k \<le> length s \<Longrightarrow> occurs_at sep s (k + i)"
  by (auto simp: occurs_at_def add.commute)

lemma occurs_at_dropD: "occurs_at sep s (k + i) \<Longrightarrow> occurs_at sep (drop k s) i"
  by (auto simp: occurs_at_def add.commute)

lemma index_Some_occurs: "index s sep = Some i \<Longrightarrow> occurs_at sep s i"
  by (induction s sep arbitrary: i rule: index.induct) (auto split: if_splits)

lemma index_None_iff: "index s sep = None \<longleftrightarrow> (\<forall>i. \<not> occurs_at sep s i)"
proof (induction s sep rule: index.induct)
  case (2 x s sep)
  show ?case
  proof
    assume none: "index (x # s) sep = None"
    show "\<forall>i. \<not> occurs_at sep (x # s) i"
    proof
      fix i
      from none "2.IH" show "\<not> occurs_at sep (x # s) i"
        by (cases i) (auto split: if_splits)
    qed
  next
    assume none: "\<forall>i. \<not> occurs_at sep (x # s) i"
    then have "\<not> prefix sep (x # s)" and "\<forall>i. \<not> occurs_at sep s i"
      by (metis occurs_at_0, metis occurs_at_Cons_Suc)
    with "2.IH" show "index (x # s) sep = None" by simp
  qed
qed simp

lemma index_least: "index s sep = Some i \<Longrightarrow> occurs_at sep s j \<Longrightarrow> i \<le> j"
proof (induction s sep arbitrary: i j rule: index.induct)
  case (2 x s sep)
  then show ?case by (cases j) (auto split: if_splits)
qed simp

lemma index_SomeI: "occurs_at sep s j \<Longrightarrow> \<exists>i. index s sep = Some i \<and> i \<le> j"
  by (meson index_None_iff index_least not_None_eq)

lemma index_bound: "index s sep = Some i \<Longrightarrow> i + length sep \<le> length s"
  by (rule occurs_at_bound [OF index_Some_occurs])

lemma index_decomp:
  assumes "index s sep = Some i"
  shows "s = take i s @ sep @ drop (i + length sep) s"
proof -
  from index_Some_occurs [OF assms] have p: "prefix sep (drop i s)"
    by (simp add: occurs_at_def)
  have "drop i s = sep @ drop (length sep) (drop i s)"
    using prefix_drop_append [OF p] by simp
  then show ?thesis by (metis append_take_drop_id drop_drop add.commute)
qed

lemma contains_iff: "contains s sub \<longleftrightarrow> (\<exists>i. occurs_at sub s i)"
  by (auto simp: contains_def index_None_iff)

lemma contains_single_iff: "contains s [c] \<longleftrightarrow> c \<in> set s"
proof
  assume "contains s [c]"
  then obtain i where "occurs_at [c] s i" by (auto simp: contains_iff)
  then show "c \<in> set s" by (auto simp: occurs_at_def prefix_def dest!: in_set_dropD [of c i s, rotated])
      (metis in_set_dropD list.set_intros(1))
next
  assume "c \<in> set s"
  then obtain xs ys where "s = xs @ c # ys" by (meson split_list)
  then have "occurs_at [c] s (length xs)" by (simp add: occurs_at_def)
  then show "contains s [c]" by (auto simp: contains_iff)
qed

section \<open>Split, Join, Replace, Count\<close>

text \<open>\<open>strings.Split\<close> with a non-empty separator (the only use the program makes of it): cut at
  each leftmost, non-overlapping occurrence. For an empty separator, which no call site passes,
  the model returns the whole string.\<close>

function split :: "bytes \<Rightarrow> bytes \<Rightarrow> bytes list" where
  "split s sep =
     (case (if sep = [] then None else index s sep) of
        None \<Rightarrow> [s]
      | Some i \<Rightarrow> take i s # split (drop (i + length sep) s) sep)"
  by pat_completeness auto
termination
  by (relation "measure (\<lambda>(s, sep). length s)")
    (auto dest!: index_bound split: if_splits, (metis le_add1 le_trans length_0_conv list.size(3)
      add_leE diff_less length_greater_0_conv less_le_trans add_gr_0 neq0_conv)+)

declare split.simps [simp del]

fun join :: "bytes list \<Rightarrow> bytes \<Rightarrow> bytes" where
  "join [] sep = []"
| "join [x] sep = x"
| "join (x # y # zs) sep = x @ sep @ join (y # zs) sep"

lemma join_Cons: "xs \<noteq> [] \<Longrightarrow> join (x # xs) sep = x @ sep @ join xs sep"
  by (cases xs) auto

text \<open>\<open>bytes.Replace\<close> with a non-empty \<open>old\<close>: at most \<open>n\<close> leftmost, non-overlapping occurrences
  (\<open>None\<close> is Go's -1, no bound); \<open>bytes.ReplaceAll\<close> is the unbounded form. The program never calls
  either with an empty \<open>old\<close>; there the model returns the input.\<close>

function replace :: "bytes \<Rightarrow> bytes \<Rightarrow> bytes \<Rightarrow> nat option \<Rightarrow> bytes" where
  "replace s old new n =
     (if n = Some 0 then s
      else case (if old = [] then None else index s old) of
        None \<Rightarrow> s
      | Some i \<Rightarrow> take i s @ new @
          replace (drop (i + length old) s) old new (map_option (\<lambda>k. k - 1) n))"
  by pat_completeness auto
termination
  by (relation "measure (\<lambda>(s, old, new, n). length s)")
    (auto dest!: index_bound split: if_splits, (metis le_add1 le_trans length_0_conv list.size(3)
      add_leE diff_less length_greater_0_conv less_le_trans add_gr_0 neq0_conv)+)

declare replace.simps [simp del]

definition replaceAll :: "bytes \<Rightarrow> bytes \<Rightarrow> bytes \<Rightarrow> bytes" where
  "replaceAll s old new = replace s old new None"

definition countByte :: "bytes \<Rightarrow> char \<Rightarrow> nat" where
  "countByte s c = count_list s c"

lemma split_nonempty [simp]: "split s sep \<noteq> []"
  by (subst split.simps) (auto split: option.splits)

lemma split_None: "index s sep = None \<Longrightarrow> split s sep = [s]"
  by (subst split.simps) auto

lemma split_Some:
  "sep \<noteq> [] \<Longrightarrow> index s sep = Some i \<Longrightarrow>
    split s sep = take i s # split (drop (i + length sep) s) sep"
  by (subst split.simps) auto

lemma replace_0 [simp]: "replace s old new (Some 0) = s"
  by (subst replace.simps) auto

lemma replace_None_occ: "index s old = None \<Longrightarrow> replace s old new n = s"
  by (subst replace.simps) auto

lemma replace_Some_occ:
  "old \<noteq> [] \<Longrightarrow> index s old = Some i \<Longrightarrow> n \<noteq> Some 0 \<Longrightarrow>
    replace s old new n =
      take i s @ new @ replace (drop (i + length old) s) old new (map_option (\<lambda>k. k - 1) n)"
  by (subst replace.simps) auto

lemma join_split: "join (split s sep) sep = s"
proof (induction s sep rule: split.induct)
  case (1 s sep)
  show ?case
  proof (cases "sep = [] \<or> index s sep = None")
    case True
    then show ?thesis by (subst split.simps) auto
  next
    case False
    then obtain i where i: "sep \<noteq> []" "index s sep = Some i" by auto
    with "1.IH" have ih: "join (split (drop (i + length sep) s) sep) sep = drop (i + length sep) s"
      by auto
    show ?thesis
      using i ih index_decomp [OF i(2)] by (simp add: split_Some join_Cons)
  qed
qed

lemma replaceAll_join_split: "old \<noteq> [] \<Longrightarrow> replaceAll s old new = join (split s old) new"
proof (induction s old rule: split.induct)
  case (1 s old)
  show ?case
  proof (cases "index s old")
    case None
    then show ?thesis by (simp add: replaceAll_def replace_None_occ split_None)
  next
    case (Some i)
    with "1" show ?thesis
      by (simp add: replaceAll_def replace_Some_occ split_Some join_Cons)
  qed
qed

lemma replace_once:
  "old \<noteq> [] \<Longrightarrow> index s old = Some i \<Longrightarrow>
    replace s old new (Some (Suc 0)) = take i s @ new @ drop (i + length old) s"
  by (simp add: replace_Some_occ)

lemma split_no_sep:
  assumes "sep \<noteq> []" and "p \<in> set (split s sep)"
  shows "index p sep = None"
  using assms
proof (induction s sep rule: split.induct)
  case (1 s sep)
  show ?case
  proof (cases "index s sep")
    case None
    with "1.prems" show ?thesis by (simp add: split_None)
  next
    case (Some i)
    have "index (take i s) sep = None"
    proof (rule ccontr)
      assume "index (take i s) sep \<noteq> None"
      then obtain j where j: "index (take i s) sep = Some j" by auto
      have b: "i + length sep \<le> length s" using index_bound [OF Some] .
      from index_bound [OF j] b have jb: "j + length sep \<le> i" by simp
      from index_Some_occurs [OF j] have "prefix sep (drop j (take i s))"
        by (simp add: occurs_at_def)
      then have "prefix sep (drop j s)"
        by (metis drop_take prefix_order.trans take_is_prefix)
      with jb b have "occurs_at sep s j" by (simp add: occurs_at_def)
      from index_least [OF Some this] jb "1.prems"(1) show False by (cases sep) auto
    qed
    with Some "1" show ?thesis by (auto simp: split_Some)
  qed
qed

lemma index_single_None: "index s [c] = None \<longleftrightarrow> c \<notin> set s"
  by (metis contains_def contains_single_iff)

lemma split_char_no_sep: "p \<in> set (split s [c]) \<Longrightarrow> c \<notin> set p"
  using split_no_sep [of "[c]"] by (auto simp: index_single_None)

lemma join_append:
  "xs \<noteq> [] \<Longrightarrow> ys \<noteq> [] \<Longrightarrow> join (xs @ ys) sep = join xs sep @ sep @ join ys sep"
  by (induction xs rule: induct_list012) (auto simp: join_Cons)

lemma split_char_Cons:
  "split (x # s) [c] =
    (if x = c then [] # split s [c] else (x # hd (split s [c])) # tl (split s [c]))"
proof (cases "x = c")
  case True
  then show ?thesis by (subst split.simps) simp
next
  case False
  show ?thesis
  proof (cases "index s [c]")
    case None
    with False show ?thesis by (subst (1 2 3) split.simps) simp
  next
    case (Some i)
    with False show ?thesis by (subst (1 2 3) split.simps) simp
  qed
qed

lemma split_char_Nil [simp]: "split [] [c] = [[]]"
  by (subst split.simps) simp

lemma split_char_append: "split (a @ c # b) [c] = split a [c] @ split b [c]"
  by (induction a) (auto simp: split_char_Cons hd_append tl_append split: list.splits)

lemma split_char_id: "c \<notin> set s \<Longrightarrow> split s [c] = [s]"
  by (simp add: split_None index_single_None)

lemma split_join_char:
  "xs \<noteq> [] \<Longrightarrow> list_all (\<lambda>x. c \<notin> set x) xs \<Longrightarrow> split (join xs [c]) [c] = xs"
  by (induction xs rule: induct_list012) (auto simp: split_char_id split_char_append)

lemma length_split_char: "length (split s [c]) = Suc (count_list s c)"
proof (induction s "[c]" rule: split.induct)
  case (1 s)
  show ?case
  proof (cases "index s [c]")
    case None
    then show ?thesis by (simp add: split_None index_single_None count_list_0_iff)
  next
    case (Some i)
    from index_decomp [OF Some] have d: "s = take i s @ c # drop (Suc i) s" by simp
    have "c \<notin> set (take i s)"
      using split_no_sep [of "[c]" "take i s" s] Some by (simp add: split_Some index_single_None)
    then have "count_list s c = Suc (count_list (drop (Suc i) s) c)"
      by (subst d) (simp add: count_list_0_iff)
    with Some "1" show ?thesis by (simp add: split_Some)
  qed
qed

section \<open>Rendering integers\<close>

definition digit :: "nat \<Rightarrow> char" where
  "digit d = ''0123456789'' ! d"

fun showNat :: "nat \<Rightarrow> bytes" where
  "showNat n = (if n < 10 then [digit n] else showNat (n div 10) @ [digit (n mod 10)])"

declare showNat.simps [simp del]

text \<open>\<open>strconv.Itoa\<close>.\<close>

definition itoa :: "int \<Rightarrow> bytes" where
  "itoa i = (if i < 0 then ''-'' @ showNat (nat (- i)) else showNat (nat i))"

definition digitVal :: "char \<Rightarrow> nat option" where
  "digitVal c =
     (if 48 \<le> (of_char c :: nat) \<and> (of_char c :: nat) \<le> 57 then Some (of_char c - 48) else None)"

fun parseDigits :: "nat \<Rightarrow> bytes \<Rightarrow> nat option" where
  "parseDigits acc [] = Some acc"
| "parseDigits acc (c # cs) =
     (case digitVal c of None \<Rightarrow> None | Some d \<Rightarrow> parseDigits (10 * acc + d) cs)"

text \<open>\<open>strconv.Atoi\<close>: an optional sign, then at least one decimal digit; \<open>None\<close> is its error.
  A value outside the 64-bit range is an error too.\<close>

definition atoi :: "bytes \<Rightarrow> int option" where
  "atoi s =
     (let neg = hasPrefix s ''-''; body = (if neg \<or> hasPrefix s ''+'' then drop 1 s else s)
      in if body = [] then None
         else case parseDigits 0 body of
           None \<Rightarrow> None
         | Some n \<Rightarrow>
             (let v = (if neg then - int n else int n)
              in if - (2 ^ 63) \<le> v \<and> v < 2 ^ 63 then Some v else None))"

lemma digit_lt_10_cases:
  "d < 10 \<Longrightarrow> d = 0 \<or> d = 1 \<or> d = 2 \<or> d = 3 \<or> d = 4 \<or> d = 5 \<or> d = 6 \<or> d = 7 \<or> d = 8 \<or> d = (9::nat)"
  by arith

lemma of_char_digit: "d < 10 \<Longrightarrow> (of_char (digit d) :: nat) = 48 + d"
  by (drule digit_lt_10_cases) (elim disjE; simp add: digit_def)

lemma digitVal_digit [simp]: "d < 10 \<Longrightarrow> digitVal (digit d) = Some d"
  by (simp add: digitVal_def of_char_digit)

lemma digit_range: "d < 10 \<Longrightarrow> digit d \<in> set ''0123456789''"
  by (drule digit_lt_10_cases) (elim disjE; simp add: digit_def)

lemma set_showNat: "set (showNat n) \<subseteq> set ''0123456789''"
proof (induction n rule: showNat.induct)
  case (1 n)
  then show ?case
    using digit_range [of n] digit_range [of "n mod 10"]
    by (subst showNat.simps) auto
qed

lemma showNat_nonempty [simp]: "showNat n \<noteq> []"
  by (subst showNat.simps) simp

lemma parseDigits_append:
  "parseDigits acc (xs @ [c]) =
     (case parseDigits acc xs of None \<Rightarrow> None | Some n \<Rightarrow> map_option (\<lambda>d. 10 * n + d) (digitVal c))"
  by (induction acc xs rule: parseDigits.induct) (auto split: option.splits)

lemma parseDigits_showNat: "parseDigits 0 (showNat n) = Some n"
proof (induction n rule: showNat.induct)
  case (1 n)
  then show ?case by (subst showNat.simps) (auto simp: parseDigits_append)
qed

lemma atoi_itoa: "0 \<le> i \<Longrightarrow> i < 2 ^ 63 \<Longrightarrow> atoi (itoa i) = Some i"
proof -
  assume i: "0 \<le> i" "i < 2 ^ 63"
  have hd: "hd (showNat (nat i)) \<in> set ''0123456789''"
    using set_showNat [of "nat i"] by (meson hd_in_set showNat_nonempty subsetD)
  have "\<not> prefix ''-'' (showNat (nat i))" and "\<not> prefix ''+'' (showNat (nat i))"
    using hd by (auto simp: prefix_def)
  with i show ?thesis by (simp add: atoi_def itoa_def parseDigits_showNat)
qed

lemma showNat_inject: "showNat m = showNat n \<longleftrightarrow> m = n"
  using parseDigits_showNat by (metis option.inject)

text \<open>\<open>fmt\<close>'s \<open>%04X\<close> on a code point: upper-case hexadecimal, zero-padded to four places.\<close>

definition hexDigit :: "nat \<Rightarrow> char" where
  "hexDigit d = ''0123456789ABCDEF'' ! d"

fun showHex :: "nat \<Rightarrow> bytes" where
  "showHex n = (if n < 16 then [hexDigit n] else showHex (n div 16) @ [hexDigit (n mod 16)])"

declare showHex.simps [simp del]

definition hex04 :: "nat \<Rightarrow> bytes" where
  "hex04 n = (let h = showHex n in replicate (4 - length h) (CHR ''0'') @ h)"

section \<open>Lengths\<close>

lemma length_join:
  "xs \<noteq> [] \<Longrightarrow> length (join xs sep) = sum_list (map length xs) + (length xs - 1) * length sep"
  by (induction xs sep rule: join.induct) auto

end
