(* ===== verification/GoPath.thy ===== *)
theory GoPath
  imports GoBytes
begin

text \<open>
  What the program uses of Go's \<open>path/filepath\<close> on Unix: \<open>Clean\<close>, \<open>Join\<close>, \<open>Dir\<close>, \<open>Base\<close>, \<open>Ext\<close>,
  \<open>IsAbs\<close> and \<open>Abs\<close>. \<open>Clean\<close> follows its documented rules on the list of path components. The
  second half relates cleaned absolute paths to their component lists, which is how the file-system
  model names files.
\<close>

definition slash :: char where
  "slash = CHR 0x2F"

definition dot :: bytes where
  "dot = [CHR 0x2E]"

definition dotdot :: bytes where
  "dotdot = [CHR 0x2E, CHR 0x2E]"

text \<open>The rules of \<open>filepath.Clean\<close> on the components of a path; \<open>st\<close> is the cleaned prefix in
  reverse.\<close>

fun cleanStack :: "bool \<Rightarrow> bytes list \<Rightarrow> bytes list \<Rightarrow> bytes list" where
  "cleanStack rooted st [] = rev st"
| "cleanStack rooted st (c # cs) =
     (if c = [] \<or> c = dot then cleanStack rooted st cs
      else if c = dotdot then
        (case st of
           [] \<Rightarrow> cleanStack rooted (if rooted then [] else [dotdot]) cs
         | x # st' \<Rightarrow> if x = dotdot then cleanStack rooted (dotdot # st) cs else cleanStack rooted st' cs)
      else cleanStack rooted (c # st) cs)"

definition isAbs :: "bytes \<Rightarrow> bool" where
  "isAbs p = hasPrefix p [slash]"

definition Clean :: "bytes \<Rightarrow> bytes" where
  "Clean p =
     (if p = [] then dot
      else
        (let out = cleanStack (isAbs p) [] (split p [slash])
         in if isAbs p then slash # join out [slash]
            else if out = [] then dot else join out [slash]))"

fun Join :: "bytes list \<Rightarrow> bytes" where
  "Join [] = []"
| "Join (e # es) = (if e \<noteq> [] then Clean (join (e # es) [slash]) else Join es)"

text \<open>\<open>filepath.Abs\<close> in the working directory \<open>cwd\<close>.\<close>

definition Abs :: "bytes \<Rightarrow> bytes \<Rightarrow> bytes" where
  "Abs cwd p = (if isAbs p then Clean p else Join [cwd, p])"

text \<open>The text after the last slash (the whole string without one), and what precedes it.\<close>

definition afterLastSlash :: "bytes \<Rightarrow> bytes" where
  "afterLastSlash p = rev (takeWhile (\<lambda>c. c \<noteq> slash) (rev p))"

definition uptoLastSlash :: "bytes \<Rightarrow> bytes" where
  "uptoLastSlash p = rev (dropWhile (\<lambda>c. c \<noteq> slash) (rev p))"

definition Dir :: "bytes \<Rightarrow> bytes" where
  "Dir p = Clean (uptoLastSlash p)"

definition Base :: "bytes \<Rightarrow> bytes" where
  "Base p =
     (if p = [] then dot
      else (let q = afterLastSlash (rev (dropWhile (\<lambda>c. c = slash) (rev p)))
            in if q = [] then [slash] else q))"

text \<open>\<open>filepath.Ext\<close>: from the last dot of the last element, or empty.\<close>

definition Ext :: "bytes \<Rightarrow> bytes" where
  "Ext p =
     (let e = afterLastSlash p
      in if CHR 0x2E \<in> set e then CHR 0x2E # rev (takeWhile (\<lambda>c. c \<noteq> CHR 0x2E) (rev e)) else [])"

section \<open>Component lists\<close>

definition okComp :: "bytes \<Rightarrow> bool" where
  "okComp c \<longleftrightarrow> c \<noteq> [] \<and> slash \<notin> set c \<and> c \<noteq> dot \<and> c \<noteq> dotdot"

definition absPath :: "bytes list \<Rightarrow> bytes" where
  "absPath cs = slash # join cs [slash]"

definition pathComps :: "bytes \<Rightarrow> bytes list" where
  "pathComps p = filter (\<lambda>c. c \<noteq> []) (split p [slash])"

text \<open>A cleaned absolute path.\<close>

definition canonPath :: "bytes \<Rightarrow> bool" where
  "canonPath p \<longleftrightarrow> p = absPath (pathComps p) \<and> list_all okComp (pathComps p)"

lemma isAbs_iff [simp]: "isAbs p \<longleftrightarrow> (\<exists>q. p = slash # q)"
  by (cases p) (auto simp: isAbs_def)

lemma pathComps_slash: "pathComps (slash # s) = pathComps s"
  by (simp add: pathComps_def split_char_Cons)

lemma pathComps_append: "pathComps (a @ slash # b) = pathComps a @ pathComps b"
  by (simp add: pathComps_def split_char_append)

lemma okComp_no_slash: "list_all okComp cs \<Longrightarrow> list_all (\<lambda>c. slash \<notin> set c) cs"
  by (auto simp: list_all_iff okComp_def)

lemma filter_okComp: "list_all okComp cs \<Longrightarrow> filter (\<lambda>c. c \<noteq> []) cs = cs"
  by (auto simp: list_all_iff okComp_def filter_id_conv)

lemma pathComps_join [simp]:
  "list_all okComp cs \<Longrightarrow> pathComps (join cs [slash]) = cs"
  by (cases "cs = []") (simp_all add: pathComps_def split_join_char okComp_no_slash filter_okComp)

lemma pathComps_absPath [simp]: "list_all okComp cs \<Longrightarrow> pathComps (absPath cs) = cs"
  by (simp add: absPath_def pathComps_slash)

lemma absPath_inject: "list_all okComp cs \<Longrightarrow> list_all okComp ds \<Longrightarrow> absPath cs = absPath ds \<longleftrightarrow> cs = ds"
  by (metis pathComps_absPath)

lemma canonPath_absPath [simp, intro]: "list_all okComp cs \<Longrightarrow> canonPath (absPath cs)"
  by (simp add: canonPath_def)

lemma canonPathE:
  assumes "canonPath p" obtains cs where "list_all okComp cs" "p = absPath cs" "pathComps p = cs"
  using assms by (auto simp: canonPath_def)

lemma absPath_append:
  "cs \<noteq> [] \<Longrightarrow> ds \<noteq> [] \<Longrightarrow> absPath (cs @ ds) = absPath cs @ slash # join ds [slash]"
  by (simp add: absPath_def join_append)

lemma cleanStack_ok:
  assumes "list_all okComp st" and "list_all (\<lambda>c. slash \<notin> set c) cs"
  shows "list_all okComp (cleanStack True st cs)"
  using assms
proof (induction True st cs rule: cleanStack.induct)
  case (2 st c cs)
  then show ?case by (auto simp: okComp_def split: list.splits)
qed simp

lemma cleanStack_id:
  "list_all okComp cs \<Longrightarrow> cleanStack rooted st cs = rev st @ cs"
  by (induction cs arbitrary: st) (auto simp: okComp_def)

lemma split_no_slash: "list_all (\<lambda>c. slash \<notin> set c) (split p [slash])"
  by (auto simp: list_all_iff dest: split_char_no_sep)

lemma Clean_abs: "Clean (slash # p) = absPath (cleanStack True [] (split p [slash]))"
  by (simp add: Clean_def absPath_def split_char_Cons)

lemma canonPath_Clean: "isAbs p \<Longrightarrow> canonPath (Clean p)"
  using cleanStack_ok [OF _ split_no_slash, of "[]"] by (auto simp: Clean_abs)

lemma Clean_canon: "canonPath p \<Longrightarrow> Clean p = p"
proof -
  assume "canonPath p"
  then obtain cs where cs: "list_all okComp cs" "p = absPath cs" by (rule canonPathE)
  show ?thesis
  proof (cases "cs = []")
    case False
    then have "split (join cs [slash]) [slash] = cs"
      using cs(1) by (simp add: split_join_char okComp_no_slash)
    then show ?thesis
      using cs by (simp add: absPath_def Clean_abs cleanStack_id)
  qed (use cs in \<open>simp add: absPath_def Clean_abs\<close>)
qed

section \<open>The prefix comparison of cleaned paths\<close>

text \<open>The byte comparison that the guard and the root pool make on cleaned absolute paths is the
  prefix order of their components; \<open>dir = "/"\<close> is the special case.\<close>

lemma absPath_prefix_iff:
  assumes "list_all okComp ds" and "list_all okComp ps" and "ds \<noteq> []"
  shows "absPath ps = absPath ds \<or> prefix (absPath ds @ [slash]) (absPath ps) \<longleftrightarrow> prefix ds ps"
proof
  assume "absPath ps = absPath ds \<or> prefix (absPath ds @ [slash]) (absPath ps)"
  then show "prefix ds ps"
  proof
    assume "prefix (absPath ds @ [slash]) (absPath ps)"
    then obtain t where "absPath ps = absPath ds @ slash # t" by (auto simp: prefix_def)
    then have "pathComps (absPath ps) = pathComps (absPath ds) @ pathComps t"
      by (simp add: pathComps_append)
    with assms show ?thesis by simp
  qed (use assms in \<open>simp add: absPath_inject\<close>)
next
  assume "prefix ds ps"
  then obtain zs where "ps = ds @ zs" by (auto simp: prefix_def)
  with assms show "absPath ps = absPath ds \<or> prefix (absPath ds @ [slash]) (absPath ps)"
    by (cases "zs = []") (auto simp: absPath_append)
qed

lemma absPath_Nil [simp]: "absPath [] = [slash]"
  by (simp add: absPath_def)

lemma absPath_eq_slash: "list_all okComp cs \<Longrightarrow> absPath cs = [slash] \<longleftrightarrow> cs = []"
  using absPath_inject [of cs "[]"] by simp

section \<open>Taking paths apart\<close>

lemma cleanStack_filter: "cleanStack rooted st cs = cleanStack rooted st (filter (\<lambda>c. c \<noteq> []) cs)"
  by (induction rooted st cs rule: cleanStack.induct) (auto split: list.splits)

lemma Clean_abs_comps: "Clean (slash # p) = absPath (cleanStack True [] (pathComps p))"
  by (simp add: Clean_abs pathComps_def flip: cleanStack_filter)

lemma Clean_okComps: "list_all okComp (pathComps p) \<Longrightarrow> Clean (slash # p) = absPath (pathComps p)"
  by (simp add: Clean_abs_comps cleanStack_id)

lemma afterLastSlash_append [simp]: "slash \<notin> set c \<Longrightarrow> afterLastSlash (pre @ slash # c) = c"
  by (simp add: afterLastSlash_def takeWhile_append)

lemma uptoLastSlash_append [simp]: "slash \<notin> set c \<Longrightarrow> uptoLastSlash (pre @ slash # c) = pre @ [slash]"
  by (simp add: uptoLastSlash_def dropWhile_append)

lemma absPath_snoc: "absPath (cs @ [c]) = (if cs = [] then [] else absPath cs) @ slash # c"
  by (simp add: absPath_append) (simp add: absPath_def)

lemma Dir_absPath: "list_all okComp (cs @ [c]) \<Longrightarrow> Dir (absPath (cs @ [c])) = absPath cs"
proof -
  assume ok: "list_all okComp (cs @ [c])"
  then have "uptoLastSlash (absPath (cs @ [c])) = (if cs = [] then [] else absPath cs) @ [slash]"
    by (simp add: absPath_snoc okComp_def)
  also have "\<dots> = slash # (if cs = [] then [] else join cs [slash] @ [slash])"
    by (simp add: absPath_def)
  finally have u: "uptoLastSlash (absPath (cs @ [c])) = slash # (if cs = [] then [] else join cs [slash] @ [slash])" .
  have "pathComps (if cs = [] then [] else join cs [slash] @ [slash]) = cs"
    using ok by (simp add: pathComps_append) (simp add: pathComps_def)
  with ok show ?thesis by (simp add: Dir_def u Clean_okComps)
qed

lemma Base_absPath: "list_all okComp (cs @ [c]) \<Longrightarrow> Base (absPath (cs @ [c])) = c"
proof -
  assume "list_all okComp (cs @ [c])"
  then have c: "c \<noteq> []" "slash \<notin> set c" by (auto simp: okComp_def)
  then have "dropWhile (\<lambda>x. x = slash) (rev (absPath (cs @ [c]))) = rev (absPath (cs @ [c]))"
    by (cases c rule: rev_cases) (auto simp: absPath_snoc)
  then show ?thesis
    using c by (simp add: Base_def Let_def) (simp add: absPath_snoc)
qed

lemma Join_absPath:
  assumes "list_all okComp (cs @ [c])"
  shows "Join [absPath cs, c] = absPath (cs @ [c])"
proof -
  have "pathComps (join cs [slash] @ slash # c) = cs @ [c]"
    using assms by (simp add: pathComps_append) (simp add: pathComps_def split_char_id okComp_def)
  with assms show ?thesis by (simp add: absPath_def Clean_okComps)
qed

end
