(* ===== verification/GoError.thy ===== *)
theory GoError
  imports GoBytes
begin

text \<open>
  The error values that flow through the program, and Go's \<open>errors.Is\<close> / \<open>errors.As\<close> on them.
  \<open>Catalog\<close> is \<open>errmsg.Error\<close>; \<open>SysErr\<close> is an operating-system error (a \<open>*fs.PathError\<close> or
  \<open>*os.LinkError\<close> around a \<open>syscall.Errno\<close>, with its rendered text); \<open>CtxErr\<close> is \<open>ctx.Err()\<close>;
  \<open>ImgErr\<close> is \<open>imagedownload.Error\<close>; \<open>PlainErr\<close> is an error without structure (\<open>errors.New\<close>,
  \<open>fmt.Errorf\<close> without \<open>%w\<close>, and \<open>os.Root\<close>'s escape error); \<open>WrapErr\<close> is \<open>fmt.Errorf\<close> with
  \<open>%w\<close>; \<open>JoinErr\<close> is \<open>errors.Join\<close>; \<open>RacedErr\<close> is the sentinel \<open>errPublishRaced\<close>; \<open>NetErr\<close> is an
  error of Go's network stack: one that has timed out, a \<open>*tls.CertificateVerificationError\<close>, or another.
\<close>

datatype sentinel =
    ErrNulByte | ErrWindowsPath | ErrRelative | ErrOutside | ErrParentMissing | ErrNotExist
  | ErrIsDir | ErrNoMatch | ErrAmbiguous | ErrNoop | ErrEmptyOld | ErrStaleRead | ErrBackend
  | ErrEditIndex | ErrNotDir | ErrInvalidBatch | ErrBusy | ErrInvalidURL | ErrSSRFBlocked
  | ErrRedirectLimit | ErrHTTPStatus | ErrDownload | ErrTimeout | ErrTooLarge | ErrImageType
  | ErrDuplicateTarget | ErrExistsConflict | ErrTargetChanged

datatype errno =
    ENOENT | ENOTDIR | EISDIR | ENAMETOOLONG | EIO | ETIMEDOUT | EHOSTDOWN | ENOTCONN | ESTALE
  | ECONNRESET | EAGAIN | EEXIST | ENOTEMPTY | EACCES | EPERM | ENOSYS | EOPNOTSUPP | EMLINK
  | EXDEV | ELOOP | ENOSPC | EINVAL | EOther nat

datatype ctxErr = Canceled | DeadlineExceeded

datatype imgKind =
    ImgBadURL | ImgBlocked | ImgRedirects | ImgStatus | ImgNet | ImgTimeout | ImgTooLarge | ImgType

datatype netKind = NetPlain | NetTimeout | NetCert

datatype goerr =
    Catalog sentinel bytes "goerr option"
  | SysErr errno bytes
  | CtxErr ctxErr
  | ImgErr imgKind bytes int
  | PlainErr bytes
  | WrapErr bytes goerr
  | JoinErr "goerr list"
  | RacedErr
  | NetErr netKind bytes

text \<open>\<open>imagedownload.Error.Error\<close>.\<close>

fun imgKindText :: "imgKind \<Rightarrow> bytes" where
  "imgKindText ImgBadURL = ''bad-url''"
| "imgKindText ImgBlocked = ''blocked''"
| "imgKindText ImgRedirects = ''redirect-limit''"
| "imgKindText ImgStatus = ''http-status''"
| "imgKindText ImgNet = ''network''"
| "imgKindText ImgTimeout = ''timeout''"
| "imgKindText ImgTooLarge = ''too-large''"
| "imgKindText ImgType = ''image-type''"

definition imgErrText :: "imgKind \<Rightarrow> bytes \<Rightarrow> int \<Rightarrow> bytes" where
  "imgErrText k detail status =
     (if status \<noteq> 0 then imgKindText k @ '': HTTP '' @ itoa status
      else if detail \<noteq> [] then imgKindText k @ '': '' @ detail
      else imgKindText k)"

text \<open>\<open>err.Error()\<close>.\<close>

fun errText :: "goerr \<Rightarrow> bytes" where
  "errText (Catalog s m c) = m"
| "errText (SysErr e m) = m"
| "errText (CtxErr Canceled) = ''context canceled''"
| "errText (CtxErr DeadlineExceeded) = ''context deadline exceeded''"
| "errText (ImgErr k d s) = imgErrText k d s"
| "errText (PlainErr m) = m"
| "errText (WrapErr m e) = m"
| "errText (JoinErr es) = join (map errText es) [CHR 0x0A]"
| "errText RacedErr = ''target appeared concurrently''"
| "errText (NetErr k m) = m"

text \<open>The errors \<open>errors.Is\<close> and \<open>errors.As\<close> visit, in their order: the error itself, then what it
  wraps.\<close>

fun chain :: "goerr \<Rightarrow> goerr list" where
  "chain (Catalog s m (Some c)) = Catalog s m (Some c) # chain c"
| "chain (WrapErr m e) = WrapErr m e # chain e"
| "chain (JoinErr es) = JoinErr es # concat (map chain es)"
| "chain e = [e]"

fun hasSentinel :: "sentinel \<Rightarrow> goerr \<Rightarrow> bool" where
  "hasSentinel s (Catalog s' m c) = (s' = s)"
| "hasSentinel s e = False"

definition isSentinel :: "goerr \<Rightarrow> sentinel \<Rightarrow> bool" where
  "isSentinel e s = list_ex (hasSentinel s) (chain e)"

fun sysErrno :: "goerr \<Rightarrow> errno option" where
  "sysErrno (SysErr n m) = Some n"
| "sysErrno e = None"

text \<open>\<open>errors.Is(err, syscall.EXXX)\<close>, and \<open>errors.As\<close> into a \<open>syscall.Errno\<close>.\<close>

definition isErrno :: "goerr \<Rightarrow> errno \<Rightarrow> bool" where
  "isErrno e n = list_ex (\<lambda>x. sysErrno x = Some n) (chain e)"

definition asErrno :: "goerr \<Rightarrow> errno option" where
  "asErrno e = (case List.map_filter sysErrno (chain e) of [] \<Rightarrow> None | n # _ \<Rightarrow> Some n)"

text \<open>\<open>errors.Is(err, fs.ErrNotExist)\<close> and \<open>errors.Is(err, fs.ErrExist)\<close>, through
  \<open>syscall.Errno.Is\<close>.\<close>

definition isNotExist :: "goerr \<Rightarrow> bool" where
  "isNotExist e = isErrno e ENOENT"

definition isExist :: "goerr \<Rightarrow> bool" where
  "isExist e = (isErrno e EEXIST \<or> isErrno e ENOTEMPTY)"

definition isCtxErr :: "goerr \<Rightarrow> ctxErr \<Rightarrow> bool" where
  "isCtxErr e c = list_ex (\<lambda>x. x = CtxErr c) (chain e)"

definition isRaced :: "goerr \<Rightarrow> bool" where
  "isRaced e = list_ex (\<lambda>x. x = RacedErr) (chain e)"

fun catalogCode :: "goerr \<Rightarrow> sentinel option" where
  "catalogCode (Catalog s m c) = Some s"
| "catalogCode e = None"

definition asCatalog :: "goerr \<Rightarrow> sentinel option" where
  "asCatalog e = (case List.map_filter catalogCode (chain e) of [] \<Rightarrow> None | n # _ \<Rightarrow> Some n)"

fun imgErr :: "goerr \<Rightarrow> (imgKind \<times> bytes \<times> int) option" where
  "imgErr (ImgErr k d s) = Some (k, d, s)"
| "imgErr e = None"

definition asImgErr :: "goerr \<Rightarrow> (imgKind \<times> bytes \<times> int) option" where
  "asImgErr e = (case List.map_filter imgErr (chain e) of [] \<Rightarrow> None | n # _ \<Rightarrow> Some n)"

text \<open>\<open>errors.As\<close> into an error with \<open>Timeout() bool\<close>, and what it answers.\<close>

fun timeoutFlag :: "goerr \<Rightarrow> bool option" where
  "timeoutFlag (NetErr k m) = Some (k = NetTimeout)"
| "timeoutFlag (SysErr n m) = Some (n = EAGAIN \<or> n = ETIMEDOUT)"
| "timeoutFlag (CtxErr c) = (if c = DeadlineExceeded then Some True else None)"
| "timeoutFlag e = None"

definition isTimeout :: "goerr \<Rightarrow> bool" where
  "isTimeout e = (case List.map_filter timeoutFlag (chain e) of [] \<Rightarrow> False | b # _ \<Rightarrow> b)"

definition isCertErr :: "goerr \<Rightarrow> bool" where
  "isCertErr e = list_ex (\<lambda>x. case x of NetErr k m \<Rightarrow> k = NetCert | _ \<Rightarrow> False) (chain e)"

lemma chain_nonempty [simp]: "chain e \<noteq> []"
  by (cases e rule: chain.cases) auto

lemma asErrno_simps [simp]:
  "asErrno (SysErr n m) = Some n"
  "asErrno (Catalog s m None) = None"
  "asErrno (Catalog s m (Some c)) = asErrno c"
  "asErrno (PlainErr m) = None"
  "asErrno (CtxErr x) = None"
  "asErrno (ImgErr k d st) = None"
  "asErrno (WrapErr m e) = asErrno e"
  "asErrno RacedErr = None"
  "asErrno (NetErr nk nt) = None"
  by (simp_all add: asErrno_def List.map_filter_def)

lemma isErrno_simps [simp]:
  "isErrno (SysErr n m) k \<longleftrightarrow> n = k"
  "\<not> isErrno (Catalog s m None) k"
  "isErrno (Catalog s m (Some c)) k \<longleftrightarrow> isErrno c k"
  "\<not> isErrno (PlainErr m) k"
  "\<not> isErrno (CtxErr x) k"
  "\<not> isErrno (ImgErr i d st) k"
  "isErrno (WrapErr m e) k \<longleftrightarrow> isErrno e k"
  "\<not> isErrno RacedErr k"
  "\<not> isErrno (NetErr nk nt) k"
  by (simp_all add: isErrno_def)

lemma isSentinel_simps [simp]:
  "\<not> isSentinel (SysErr n m) k"
  "isSentinel (Catalog s m None) k \<longleftrightarrow> s = k"
  "isSentinel (Catalog s m (Some c)) k \<longleftrightarrow> s = k \<or> isSentinel c k"
  "\<not> isSentinel (PlainErr m) k"
  "\<not> isSentinel (CtxErr x) k"
  "isSentinel (WrapErr m e) k \<longleftrightarrow> isSentinel e k"
  "\<not> isSentinel RacedErr k"
  "\<not> isSentinel (NetErr nk nt) k"
  by (auto simp: isSentinel_def)

lemma isCtxErr_simps [simp]:
  "\<not> isCtxErr (SysErr n m) k"
  "\<not> isCtxErr (Catalog s m None) k"
  "isCtxErr (Catalog s m (Some c)) k \<longleftrightarrow> isCtxErr c k"
  "isCtxErr (CtxErr x) k \<longleftrightarrow> x = k"
  "\<not> isCtxErr (PlainErr m) k"
  "isCtxErr (WrapErr m e) k \<longleftrightarrow> isCtxErr e k"
  "\<not> isCtxErr RacedErr k"
  "\<not> isCtxErr (NetErr nk nt) k"
  by (auto simp: isCtxErr_def)

lemma asCatalog_simps [simp]:
  "asCatalog (Catalog s m c) = Some s"
  "asCatalog (SysErr n t) = None"
  "asCatalog (PlainErr t) = None"
  "asCatalog (CtxErr x) = None"
  "asCatalog (ImgErr k d st) = None"
  "asCatalog (WrapErr t e) = asCatalog e"
  "asCatalog RacedErr = None"
  "asCatalog (NetErr nk nt) = None"
  by (cases c; simp add: asCatalog_def List.map_filter_def)
    (simp_all add: asCatalog_def List.map_filter_def)

lemma asErrno_isErrno: "asErrno e = Some n \<Longrightarrow> isErrno e n"
  by (induction "chain e" arbitrary: e)
    (auto simp: asErrno_def isErrno_def List.map_filter_def list_ex_iff filter_eq_Cons_iff split: list.splits)

end
