(* ===== verification/HostFs.thy ===== *)
theory HostFs
  imports GoPath GoError "HOL-Library.AList"
begin

text \<open>
  The file system the program runs on. Names are lists of path components below \<open>/\<close>; a name is bound
  to a directory, a symbolic link or a file, and files and directories have an inode with mode and
  modification time. Three ways of resolving a name are modelled: the kernel's (\<open>kwalk\<close>, which
  follows every link), that of Go's \<open>os.Root\<close> (\<open>rootWalk\<close>, which follows links only while they stay
  below the root) and none (the last component of operations on the name itself). Each operation is a
  function from the state to an error or a result and the new state; partial effects and faults are
  added by the scheduler in \<open>HostIO\<close>.
\<close>

datatype node = NDir nat | NLink bytes | NFile nat

record inode =
  i_data :: bytes
  i_mode :: nat
  i_mtime :: int

record fsys =
  fs_names :: "(bytes list \<times> node) list"
  fs_inodes :: "nat \<Rightarrow> inode"
  fs_next :: nat
  fs_clock :: int

text \<open>The inode 0 is that of the root directory, which is always there.\<close>

definition nodeAt :: "fsys \<Rightarrow> bytes list \<Rightarrow> node option" where
  "nodeAt fs p = (if p = [] then Some (NDir 0) else map_of (fs_names fs) p)"

definition setNode :: "bytes list \<Rightarrow> node \<Rightarrow> fsys \<Rightarrow> fsys" where
  "setNode p n fs = fs\<lparr>fs_names := AList.update p n (fs_names fs)\<rparr>"

definition delNode :: "bytes list \<Rightarrow> fsys \<Rightarrow> fsys" where
  "delNode p fs = fs\<lparr>fs_names := AList.delete p (fs_names fs)\<rparr>"

definition hasChildren :: "fsys \<Rightarrow> bytes list \<Rightarrow> bool" where
  "hasChildren fs p = list_ex (\<lambda>(q, n). length p < length q \<and> take (length p) q = p) (fs_names fs)"

lemma nodeAt_Nil [simp]: "nodeAt fs [] = Some (NDir 0)"
  by (simp add: nodeAt_def)

lemma nodeAt_setNode [simp]:
  "p \<noteq> [] \<Longrightarrow> nodeAt (setNode p n fs) q = (if q = p then Some n else nodeAt fs q)"
  by (auto simp: nodeAt_def setNode_def update_conv)

lemma nodeAt_delNode [simp]:
  "p \<noteq> [] \<Longrightarrow> nodeAt (delNode p fs) q = (if q = p then None else nodeAt fs q)"
  by (auto simp: nodeAt_def delNode_def delete_conv)

lemma nodeAt_update [simp]:
  "nodeAt (fs\<lparr>fs_inodes := f\<rparr>) p = nodeAt fs p"
  "nodeAt (fs\<lparr>fs_next := k\<rparr>) p = nodeAt fs p"
  "nodeAt (fs\<lparr>fs_clock := c\<rparr>) p = nodeAt fs p"
  by (simp_all add: nodeAt_def)

lemma setNode_simps [simp]:
  "fs_inodes (setNode p n fs) = fs_inodes fs" "fs_next (setNode p n fs) = fs_next fs"
  "fs_clock (setNode p n fs) = fs_clock fs"
  "fs_inodes (delNode p fs) = fs_inodes fs" "fs_next (delNode p fs) = fs_next fs"
  "fs_clock (delNode p fs) = fs_clock fs"
  by (simp_all add: setNode_def delNode_def)

section \<open>Path resolution\<close>

text \<open>The kernel's walk from \<open>/\<close>: \<open>links\<close> is the number of links that may still be followed. A missing
  last component is returned as a path; operations decide what that means.\<close>

function kwalk :: "fsys \<Rightarrow> bool \<Rightarrow> nat \<Rightarrow> bytes list \<Rightarrow> bytes list \<Rightarrow> (errno, bytes list) result" where
  "kwalk fs follow links at [] = Inr at"
| "kwalk fs follow links at (c # cs) =
     (if c = [] \<or> c = dot then kwalk fs follow links at cs
      else if c = dotdot then kwalk fs follow links (butlast at) cs
      else
        (case nodeAt fs (at @ [c]) of
           None \<Rightarrow> if cs = [] then Inr (at @ [c]) else Inl ENOENT
         | Some (NDir i) \<Rightarrow> kwalk fs follow links (at @ [c]) cs
         | Some (NFile i) \<Rightarrow> if cs = [] then Inr (at @ [c]) else Inl ENOTDIR
         | Some (NLink t) \<Rightarrow>
             if cs = [] \<and> \<not> follow then Inr (at @ [c])
             else if links = 0 then Inl ELOOP
             else kwalk fs follow (links - 1) (if isAbs t then [] else at) (split t [slash] @ cs)))"
  by pat_completeness auto
termination
  by (relation "measures [\<lambda>(fs, follow, links, at, cs). links, \<lambda>(fs, follow, links, at, cs). length cs]") auto

definition kernelMaxLinks :: nat where
  "kernelMaxLinks = 40"

definition kernelPath :: "fsys \<Rightarrow> bool \<Rightarrow> bytes \<Rightarrow> (errno, bytes list) result" where
  "kernelPath fs follow p = kwalk fs follow kernelMaxLinks [] (split p [slash])"

text \<open>The walk of \<open>os.Root\<close> below its directory: \<open>at\<close> are the components already opened. A \<open>..\<close> that
  would leave the root and an absolute link are escapes; more than eight links are \<open>ELOOP\<close>.\<close>

datatype walkErr = WErrno errno | WEscapes

definition rootMaxSymlinks :: nat where
  "rootMaxSymlinks = 8"

function rootWalk ::
  "fsys \<Rightarrow> bytes list \<Rightarrow> bool \<Rightarrow> nat \<Rightarrow> bytes list \<Rightarrow> bytes list \<Rightarrow> (walkErr, bytes list) result" where
  "rootWalk fs base follow links at [] = Inr at"
| "rootWalk fs base follow links at (c # cs) =
     (if c = [] \<or> c = dot then rootWalk fs base follow links at cs
      else if c = dotdot then
        (if at = [] then Inl WEscapes else rootWalk fs base follow links (butlast at) cs)
      else
        (case nodeAt fs (base @ at @ [c]) of
           None \<Rightarrow> if cs = [] then Inr (at @ [c]) else Inl (WErrno ENOENT)
         | Some (NDir i) \<Rightarrow> rootWalk fs base follow links (at @ [c]) cs
         | Some (NFile i) \<Rightarrow> if cs = [] then Inr (at @ [c]) else Inl (WErrno ENOTDIR)
         | Some (NLink t) \<Rightarrow>
             if cs = [] \<and> \<not> follow then Inr (at @ [c])
             else if links = 0 then Inl (WErrno ELOOP)
             else if isAbs t then Inl WEscapes
             else rootWalk fs base follow (links - 1) at (split t [slash] @ cs)))"
  by pat_completeness auto
termination
  by (relation "measures [\<lambda>(fs, base, follow, links, at, cs). links,
      \<lambda>(fs, base, follow, links, at, cs). length cs]") auto

definition rootPath :: "fsys \<Rightarrow> bytes list \<Rightarrow> bool \<Rightarrow> bytes \<Rightarrow> (walkErr, bytes list) result" where
  "rootPath fs base follow rel =
     (case rootWalk fs base follow rootMaxSymlinks [] (split rel [slash]) of
        Inl e \<Rightarrow> Inl e
      | Inr at \<Rightarrow> Inr (base @ at))"

lemma rootPath_below: "rootPath fs base follow rel = Inr p \<Longrightarrow> prefix base p"
  by (auto simp: rootPath_def split: sum.splits)

text \<open>Names that contain no link and no dots are resolved to themselves.\<close>

lemma rootWalk_plain:
  assumes "list_all okComp cs"
    and "\<And>k. k < length cs \<Longrightarrow> \<exists>i. nodeAt fs (base @ at @ take k cs) = Some (NDir i)"
    and "\<And>t. nodeAt fs (base @ at @ cs) = Some (NLink t) \<Longrightarrow> \<not> follow"
  shows "rootWalk fs base follow links at cs = Inr (at @ cs)"
  using assms
proof (induction cs arbitrary: at)
  case (Cons c cs)
  have c: "c \<noteq> []" "c \<noteq> dot" "c \<noteq> dotdot" using Cons.prems(1) by (auto simp: okComp_def)
  show ?case
  proof (cases "cs = []")
    case True
    with c Cons.prems(3) show ?thesis by (auto split: option.splits node.splits)
  next
    case False
    obtain i where i: "nodeAt fs (base @ at @ [c]) = Some (NDir i)"
      using Cons.prems(2) [of 1] False by auto
    have "rootWalk fs base follow links (at @ [c]) cs = Inr ((at @ [c]) @ cs)"
    proof (rule Cons.IH)
      show "\<exists>i. nodeAt fs (base @ (at @ [c]) @ take k cs) = Some (NDir i)" if "k < length cs" for k
        using Cons.prems(2) [of "Suc k"] that by simp
    qed (use Cons.prems in auto)
    with c i False show ?thesis by simp
  qed
qed simp

lemma kwalk_plain:
  assumes "list_all okComp cs"
    and "\<And>k. k < length cs \<Longrightarrow> \<exists>i. nodeAt fs (at @ take k cs) = Some (NDir i)"
    and "\<And>t. nodeAt fs (at @ cs) = Some (NLink t) \<Longrightarrow> \<not> follow"
  shows "kwalk fs follow links at cs = Inr (at @ cs)"
  using assms
proof (induction cs arbitrary: at)
  case (Cons c cs)
  have c: "c \<noteq> []" "c \<noteq> dot" "c \<noteq> dotdot" using Cons.prems(1) by (auto simp: okComp_def)
  show ?case
  proof (cases "cs = []")
    case True
    with c Cons.prems(3) show ?thesis by (auto split: option.splits node.splits)
  next
    case False
    obtain i where i: "nodeAt fs (at @ [c]) = Some (NDir i)"
      using Cons.prems(2) [of 1] False by auto
    have "kwalk fs follow links (at @ [c]) cs = Inr ((at @ [c]) @ cs)"
    proof (rule Cons.IH)
      show "\<exists>i. nodeAt fs ((at @ [c]) @ take k cs) = Some (NDir i)" if "k < length cs" for k
        using Cons.prems(2) [of "Suc k"] that by simp
    qed (use Cons.prems in auto)
    with c i False show ?thesis by simp
  qed
qed simp

text \<open>A path whose proper prefixes are directories; a path that also exists and is no link.\<close>

definition dirsAbove :: "fsys \<Rightarrow> bytes list \<Rightarrow> bool" where
  "dirsAbove fs cs \<longleftrightarrow> list_all okComp cs \<and> (\<forall>k < length cs. \<exists>i. nodeAt fs (take k cs) = Some (NDir i))"

definition realPath :: "fsys \<Rightarrow> bytes list \<Rightarrow> bool" where
  "realPath fs cs \<longleftrightarrow> dirsAbove fs cs \<and> (\<exists>n. nodeAt fs cs = Some n \<and> (\<forall>t. n \<noteq> NLink t))"

definition realDir :: "fsys \<Rightarrow> bytes list \<Rightarrow> bool" where
  "realDir fs cs \<longleftrightarrow> dirsAbove fs cs \<and> (\<exists>i. nodeAt fs cs = Some (NDir i))"

lemma realDir_realPath: "realDir fs cs \<Longrightarrow> realPath fs cs"
  by (auto simp: realDir_def realPath_def)

lemma realDir_Nil [simp]: "realDir fs []"
  by (simp add: realDir_def dirsAbove_def)

lemma dirsAbove_snoc: "dirsAbove fs (cs @ [c]) \<longleftrightarrow> realDir fs cs \<and> okComp c"
  by (auto simp: dirsAbove_def realDir_def nth_append less_Suc_eq)

lemma realDir_butlast: "realDir fs cs \<Longrightarrow> realDir fs (butlast cs)"
  by (cases cs rule: rev_cases) (auto simp: realDir_def [of fs "_ @ _"] dirsAbove_snoc)

lemma kernelPath_plain:
  assumes "dirsAbove fs cs" and "\<And>t. nodeAt fs cs = Some (NLink t) \<Longrightarrow> \<not> follow"
  shows "kernelPath fs follow (absPath cs) = Inr cs"
proof (cases "cs = []")
  case True
  then show ?thesis by (simp add: kernelPath_def absPath_def split_char_Cons)
next
  case False
  with assms(1) have "split (absPath cs) [slash] = [] # cs"
    by (simp add: absPath_def split_char_Cons split_join_char okComp_no_slash dirsAbove_def)
  moreover have "kwalk fs follow kernelMaxLinks [] cs = Inr ([] @ cs)"
    by (rule kwalk_plain) (use assms in \<open>auto simp: dirsAbove_def\<close>)
  ultimately show ?thesis by (simp add: kernelPath_def)
qed

section \<open>File information\<close>

datatype fkind = KDir | KFile | KLink

record finfo =
  fi_kind :: fkind
  fi_size :: int
  fi_mtime :: int
  fi_mode :: nat

definition infoOf :: "fsys \<Rightarrow> node \<Rightarrow> finfo" where
  "infoOf fs n =
     (case n of
        NDir i \<Rightarrow> \<lparr>fi_kind = KDir, fi_size = int (length (i_data (fs_inodes fs i))),
                   fi_mtime = i_mtime (fs_inodes fs i), fi_mode = i_mode (fs_inodes fs i)\<rparr>
      | NFile i \<Rightarrow> \<lparr>fi_kind = KFile, fi_size = int (length (i_data (fs_inodes fs i))),
                    fi_mtime = i_mtime (fs_inodes fs i), fi_mode = i_mode (fs_inodes fs i)\<rparr>
      | NLink t \<Rightarrow> \<lparr>fi_kind = KLink, fi_size = int (length t), fi_mtime = 0, fi_mode = 511\<rparr>)"

definition IsDir :: "finfo \<Rightarrow> bool" where
  "IsDir i = (fi_kind i = KDir)"

definition IsRegular :: "finfo \<Rightarrow> bool" where
  "IsRegular i = (fi_kind i = KFile)"

section \<open>Operations\<close>

text \<open>What an operation did to the name space and to file contents. \<open>FxRename\<close> and \<open>FxLink\<close> carry the
  bytes that the file had when its new name appeared; \<open>FxWrite\<close> carries the name its handle was opened
  by.\<close>

datatype effect =
    FxCreate "bytes list"
  | FxMkdir "bytes list"
  | FxRemove "bytes list"
  | FxRename "bytes list" "bytes list" bytes
  | FxLink "bytes list" "bytes list" bytes
  | FxWrite "bytes list" bytes
  | FxChmod "bytes list"

fun fxPaths :: "effect \<Rightarrow> bytes list list" where
  "fxPaths (FxCreate p) = [p]"
| "fxPaths (FxMkdir p) = [p]"
| "fxPaths (FxRemove p) = [p]"
| "fxPaths (FxRename p q d) = [p, q]"
| "fxPaths (FxLink p q d) = [p, q]"
| "fxPaths (FxWrite p d) = [p]"
| "fxPaths (FxChmod p) = [p]"

record handle =
  hd_ino :: nat
  hd_path :: "bytes list"
  hd_pos :: nat

type_synonym 'a op = "fsys \<Rightarrow> (walkErr, 'a) result \<times> fsys \<times> effect list"

definition failOp :: "errno \<Rightarrow> 'a op" where
  "failOp e fs = (Inl (WErrno e), fs, [])"

definition okOp :: "'a \<Rightarrow> 'a op" where
  "okOp v fs = (Inr v, fs, [])"

text \<open>Resolve a root-relative name and continue with the path.\<close>

definition atRoot :: "bytes list \<Rightarrow> bool \<Rightarrow> bytes \<Rightarrow> (bytes list \<Rightarrow> 'a op) \<Rightarrow> 'a op" where
  "atRoot base follow rel k fs =
     (case rootPath fs base follow rel of Inl e \<Rightarrow> (Inl e, fs, []) | Inr p \<Rightarrow> k p fs)"

text \<open>Resolve an absolute path the way the kernel does.\<close>

definition atKernel :: "bool \<Rightarrow> bytes \<Rightarrow> (bytes list \<Rightarrow> 'a op) \<Rightarrow> 'a op" where
  "atKernel follow path k fs =
     (case kernelPath fs follow path of Inl e \<Rightarrow> failOp e fs | Inr p \<Rightarrow> k p fs)"

definition opStat :: "bytes list \<Rightarrow> finfo op" where
  "opStat p fs = (case nodeAt fs p of None \<Rightarrow> failOp ENOENT fs | Some n \<Rightarrow> okOp (infoOf fs n) fs)"

definition opReadlink :: "bytes list \<Rightarrow> bytes op" where
  "opReadlink p fs =
     (case nodeAt fs p of
        None \<Rightarrow> failOp ENOENT fs
      | Some (NLink t) \<Rightarrow> okOp t fs
      | Some _ \<Rightarrow> failOp EINVAL fs)"

definition opReadFile :: "bytes list \<Rightarrow> bytes op" where
  "opReadFile p fs =
     (case nodeAt fs p of
        None \<Rightarrow> failOp ENOENT fs
      | Some (NDir i) \<Rightarrow> failOp EISDIR fs
      | Some (NLink t) \<Rightarrow> failOp ELOOP fs
      | Some (NFile i) \<Rightarrow> okOp (i_data (fs_inodes fs i)) fs)"

definition opOpenDir :: "bytes list \<Rightarrow> bytes list op" where
  "opOpenDir p fs =
     (case nodeAt fs p of
        None \<Rightarrow> failOp ENOENT fs
      | Some (NDir i) \<Rightarrow> okOp p fs
      | Some _ \<Rightarrow> failOp ENOTDIR fs)"

definition opOpen :: "bytes list \<Rightarrow> handle op" where
  "opOpen p fs =
     (case nodeAt fs p of
        None \<Rightarrow> failOp ENOENT fs
      | Some (NDir i) \<Rightarrow> okOp \<lparr>hd_ino = i, hd_path = p, hd_pos = 0\<rparr> fs
      | Some (NFile i) \<Rightarrow> okOp \<lparr>hd_ino = i, hd_path = p, hd_pos = 0\<rparr> fs
      | Some (NLink t) \<Rightarrow> failOp ELOOP fs)"

text \<open>\<open>OpenFile(O_WRONLY)\<close> of an existing file.\<close>

definition opOpenWrite :: "bytes list \<Rightarrow> handle op" where
  "opOpenWrite p fs =
     (case nodeAt fs p of
        None \<Rightarrow> failOp ENOENT fs
      | Some (NDir i) \<Rightarrow> failOp EISDIR fs
      | Some (NFile i) \<Rightarrow> okOp \<lparr>hd_ino = i, hd_path = p, hd_pos = 0\<rparr> fs
      | Some (NLink t) \<Rightarrow> failOp ELOOP fs)"

definition newInode :: "nat \<Rightarrow> fsys \<Rightarrow> fsys" where
  "newInode mode fs = fs\<lparr>fs_inodes := (fs_inodes fs)(fs_next fs :=
       \<lparr>i_data = [], i_mode = mode, i_mtime = fs_clock fs\<rparr>), fs_next := Suc (fs_next fs)\<rparr>"

text \<open>\<open>OpenFile(O_WRONLY|O_CREATE|O_EXCL)\<close>.\<close>

definition opCreateExcl :: "nat \<Rightarrow> bytes list \<Rightarrow> handle op" where
  "opCreateExcl mode p fs =
     (case nodeAt fs p of
        Some n \<Rightarrow> failOp EEXIST fs
      | None \<Rightarrow>
          (Inr \<lparr>hd_ino = fs_next fs, hd_path = p, hd_pos = 0\<rparr>,
           setNode p (NFile (fs_next fs)) (newInode mode fs), [FxCreate p]))"

definition opMkdir :: "nat \<Rightarrow> bytes list \<Rightarrow> unit op" where
  "opMkdir mode p fs =
     (case nodeAt fs p of
        Some n \<Rightarrow> failOp EEXIST fs
      | None \<Rightarrow> (Inr (), setNode p (NDir (fs_next fs)) (newInode mode fs), [FxMkdir p]))"

text \<open>A write at the handle's position; under a fault after the effect only \<open>lim\<close> bytes arrive.\<close>

definition opWrite :: "handle \<Rightarrow> bytes \<Rightarrow> nat option \<Rightarrow> handle op" where
  "opWrite h data lim fs =
     (let d = (case lim of None \<Rightarrow> data | Some n \<Rightarrow> take n data);
          ino = fs_inodes fs (hd_ino h);
          old = i_data ino @ replicate (hd_pos h - length (i_data ino)) (CHR 0x00);
          new = take (hd_pos h) old @ d @ drop (hd_pos h + length d) old
      in (Inr (h\<lparr>hd_pos := hd_pos h + length d\<rparr>),
          fs\<lparr>fs_inodes := (fs_inodes fs)(hd_ino h := ino\<lparr>i_data := new, i_mtime := fs_clock fs\<rparr>)\<rparr>,
          [FxWrite (hd_path h) d]))"

text \<open>Reading what is left after the handle's position.\<close>

definition opReadRest :: "handle \<Rightarrow> bytes op" where
  "opReadRest h fs = okOp (drop (hd_pos h) (i_data (fs_inodes fs (hd_ino h)))) fs"

definition opChmod :: "nat \<Rightarrow> bytes list \<Rightarrow> unit op" where
  "opChmod mode p fs =
     (case nodeAt fs p of
        None \<Rightarrow> failOp ENOENT fs
      | Some (NLink t) \<Rightarrow> failOp ELOOP fs
      | Some (NDir i) \<Rightarrow> (Inr (), fs\<lparr>fs_inodes := (fs_inodes fs)(i := (fs_inodes fs i)\<lparr>i_mode := mode\<rparr>)\<rparr>, [FxChmod p])
      | Some (NFile i) \<Rightarrow> (Inr (), fs\<lparr>fs_inodes := (fs_inodes fs)(i := (fs_inodes fs i)\<lparr>i_mode := mode\<rparr>)\<rparr>, [FxChmod p]))"

definition opRemove :: "bytes list \<Rightarrow> unit op" where
  "opRemove p fs =
     (if p = [] then failOp EINVAL fs
      else case nodeAt fs p of
        None \<Rightarrow> failOp ENOENT fs
      | Some (NDir i) \<Rightarrow>
          if hasChildren fs p then failOp ENOTEMPTY fs else (Inr (), delNode p fs, [FxRemove p])
      | Some _ \<Rightarrow> (Inr (), delNode p fs, [FxRemove p]))"

definition fileBytes :: "fsys \<Rightarrow> node \<Rightarrow> bytes" where
  "fileBytes fs n = (case n of NFile i \<Rightarrow> i_data (fs_inodes fs i) | NDir i \<Rightarrow> [] | NLink t \<Rightarrow> t)"

text \<open>\<open>rename(2)\<close> of something that is not a directory; a directory takes its subtree along. Renaming
  one name of a file onto another name of the same file does nothing.\<close>

definition moveTree :: "bytes list \<Rightarrow> bytes list \<Rightarrow> fsys \<Rightarrow> fsys" where
  "moveTree old new fs = fs\<lparr>fs_names :=
     map (\<lambda>(q, n). (if take (length old) q = old then new @ drop (length old) q else q, n))
       (filter (\<lambda>(q, n). q \<noteq> new) (fs_names fs))\<rparr>"

definition opRename :: "bytes list \<Rightarrow> bytes list \<Rightarrow> unit op" where
  "opRename old new fs =
     (if old = [] \<or> new = [] then failOp EINVAL fs
      else case nodeAt fs old of
        None \<Rightarrow> failOp ENOENT fs
      | Some (NDir i) \<Rightarrow>
          if take (length old) new = old then (if old = new then okOp () fs else failOp EINVAL fs)
          else (case nodeAt fs new of
                  None \<Rightarrow> (Inr (), moveTree old new fs, [FxRename old new []])
                | Some (NDir j) \<Rightarrow>
                    if hasChildren fs new then failOp ENOTEMPTY fs
                    else (Inr (), moveTree old new fs, [FxRename old new []])
                | Some _ \<Rightarrow> failOp ENOTDIR fs)
      | Some n \<Rightarrow>
          (case nodeAt fs new of
             Some (NDir j) \<Rightarrow> failOp EISDIR fs
           | m \<Rightarrow>
               if m = Some n \<and> (case n of NFile i \<Rightarrow> True | _ \<Rightarrow> old = new) then okOp () fs
               else (Inr (), setNode new n (delNode old fs), [FxRename old new (fileBytes fs n)])))"

definition opLink :: "bytes list \<Rightarrow> bytes list \<Rightarrow> unit op" where
  "opLink old new fs =
     (case nodeAt fs old of
        None \<Rightarrow> failOp ENOENT fs
      | Some (NDir i) \<Rightarrow> failOp EPERM fs
      | Some n \<Rightarrow>
          (case nodeAt fs new of
             Some m \<Rightarrow> failOp EEXIST fs
           | None \<Rightarrow> (Inr (), setNode new n fs, [FxLink old new (fileBytes fs n)])))"

text \<open>Operations on two names of one root.\<close>

definition atRoot2 ::
  "bytes list \<Rightarrow> bytes \<Rightarrow> bytes \<Rightarrow> (bytes list \<Rightarrow> bytes list \<Rightarrow> 'a op) \<Rightarrow> 'a op" where
  "atRoot2 base old new k = atRoot base False old (\<lambda>p. atRoot base False new (\<lambda>q. k p q))"

end
