(* ===== verification/Session.thy ===== *)
theory Session
  imports Prelude
begin

text \<open>
  \<open>internal/session/session.go\<close>: the read markers of one session. A \<open>time.Time\<close> is its instant (an
  integer), so \<open>Time.Equal\<close> is equality; a zero \<open>time.Time\<close> is \<open>zeroTime\<close>. The lock table of the
  same file is in \<open>PathLocks\<close>. The contract that the tools rely on is the locale \<open>marker_store\<close>.
\<close>

record Marker =
  Size :: int
  ModTime :: int

datatype Status = StatusUnknown | StatusMatch | StatusStale

fun Status_String :: "Status \<Rightarrow> string" where
  "Status_String StatusMatch = ''match''"
| "Status_String StatusStale = ''stale''"
| "Status_String StatusUnknown = ''unknown''"

type_synonym markers = "string \<rightharpoonup> Marker"

definition newSession :: markers where
  "newSession = Map.empty"

definition MarkRead :: "string \<Rightarrow> int \<Rightarrow> int \<Rightarrow> markers \<Rightarrow> markers" where
  "MarkRead path sz mtime s = s(path \<mapsto> \<lparr>Size = sz, ModTime = mtime\<rparr>)"

definition Lookup :: "string \<Rightarrow> markers \<Rightarrow> Marker option" where
  "Lookup path s = s path"

definition Compare :: "string \<Rightarrow> int \<Rightarrow> int \<Rightarrow> markers \<Rightarrow> Status" where
  "Compare path sz mtime s =
     (case s path of
        None \<Rightarrow> StatusUnknown
      | Some m \<Rightarrow> if Size m = sz \<and> ModTime m = mtime then StatusMatch else StatusStale)"

definition Forget :: "string \<Rightarrow> markers \<Rightarrow> markers" where
  "Forget path s = s(path := None)"

text \<open>Go's zero \<open>time.Time\<close>, in nanoseconds from the Unix epoch.\<close>

definition zeroTime :: int where
  "zeroTime = - 62135596800 * 10 ^ 9"

section \<open>The contract of a marker store\<close>

datatype markerOp = OpMark (opPath: string) int int | OpForget (opPath: string)

fun markerStep ::
  "(string \<Rightarrow> int \<Rightarrow> int \<Rightarrow> 's \<Rightarrow> 's) \<Rightarrow> (string \<Rightarrow> 's \<Rightarrow> 's) \<Rightarrow> markerOp \<Rightarrow> 's \<Rightarrow> 's" where
  "markerStep mark forget (OpMark q n t) s = mark q n t s"
| "markerStep mark forget (OpForget q) s = forget q s"

locale marker_store =
  fixes new :: 's
    and mark :: "string \<Rightarrow> int \<Rightarrow> int \<Rightarrow> 's \<Rightarrow> 's"
    and forget :: "string \<Rightarrow> 's \<Rightarrow> 's"
    and compare :: "string \<Rightarrow> int \<Rightarrow> int \<Rightarrow> 's \<Rightarrow> Status"
  assumes compare_new: "compare p n t new = StatusUnknown"
    and compare_mark: "compare p n t (mark q n' t' s) =
      (if p = q then (if n = n' \<and> t = t' then StatusMatch else StatusStale) else compare p n t s)"
    and compare_forget: "compare p n t (forget q s) = (if p = q then StatusUnknown else compare p n t s)"
begin

text \<open>Only the last operation on a path counts.\<close>

lemma compare_last:
  "compare p n t (fold (markerStep mark forget) ops new) =
     (case filter (\<lambda>x. opPath x = p) (rev ops) of
        [] \<Rightarrow> StatusUnknown
      | OpForget q # _ \<Rightarrow> StatusUnknown
      | OpMark q n' t' # _ \<Rightarrow> if n = n' \<and> t = t' then StatusMatch else StatusStale)"
proof (induction ops rule: rev_induct)
  case (snoc x xs)
  then show ?case
    by (cases x) (auto simp: compare_mark compare_forget)
qed (simp add: compare_new)

lemma unread_unknown:
  "\<forall>x \<in> set ops. opPath x \<noteq> p \<Longrightarrow> compare p n t (fold (markerStep mark forget) ops new) = StatusUnknown"
  by (simp add: compare_last filter_empty_conv)

end

lemma Compare_simps [simp]:
  "Compare p n t newSession = StatusUnknown"
  "Compare p n t (MarkRead q n' t' s) =
    (if p = q then (if n = n' \<and> t = t' then StatusMatch else StatusStale) else Compare p n t s)"
  "Compare p n t (Forget q s) = (if p = q then StatusUnknown else Compare p n t s)"
  by (auto simp: Compare_def newSession_def MarkRead_def Forget_def)

interpretation sess: marker_store newSession MarkRead Forget Compare
  by unfold_locales simp_all

lemma Compare_cases:
  "Compare p n t s = StatusUnknown \<longleftrightarrow> s p = None"
  "Compare p n t s = StatusMatch \<longleftrightarrow> s p = Some \<lparr>Size = n, ModTime = t\<rparr>"
  by (auto simp: Compare_def split: option.splits)

section \<open>Properties\<close>

text \<open>C25. After any sequence of \<open>MarkRead\<close> and \<open>Forget\<close> calls, comparing a path answers
  \<open>StatusUnknown\<close> when its last operation is a \<open>Forget\<close> or it has none, \<open>StatusMatch\<close> when its last
  operation is a \<open>MarkRead\<close> with exactly that size and time, and \<open>StatusStale\<close> otherwise; operations on
  other paths have no influence.\<close>

theorem session_last_mark_wins:
  "Compare p n t (fold (markerStep MarkRead Forget) ops newSession) =
     (case filter (\<lambda>x. opPath x = p) (rev ops) of
        [] \<Rightarrow> StatusUnknown
      | OpForget q # _ \<Rightarrow> StatusUnknown
      | OpMark q n' t' # _ \<Rightarrow> if n = n' \<and> t = t' then StatusMatch else StatusStale)"
  by (rule sess.compare_last)

end
