(* ===== verification/Netip.thy ===== *)
theory Netip
  imports GoBytes "HOL-Library.Word" "HOL-Library.Code_Target_Numeral"
begin

text \<open>
  What the program uses of Go's \<open>net/netip\<close>: addresses as words with a zone, \<open>ParseAddr\<close>, \<open>Unmap\<close>,
  the builtin verdicts and \<open>Prefix.Contains\<close>. Parse errors carry no information the program uses, so
  parsing returns an option.
\<close>

unbundle bit_operations_syntax

datatype Addr = NoAddr | Addr4 "32 word" | Addr6 "128 word" bytes

fun Is4 :: "Addr \<Rightarrow> bool" where
  "Is4 (Addr4 w) = True"
| "Is4 a = False"

definition Is4In6 :: "128 word \<Rightarrow> bool" where
  "Is4In6 w \<longleftrightarrow> drop_bit 32 w = 0xffff"

fun Unmap :: "Addr \<Rightarrow> Addr" where
  "Unmap (Addr6 w z) = (if Is4In6 w then Addr4 (ucast w) else Addr6 w z)"
| "Unmap a = a"

fun hasZone :: "Addr \<Rightarrow> bool" where
  "hasZone (Addr6 w z) = (z \<noteq> [])"
| "hasZone a = False"

section \<open>The builtin verdicts\<close>

text \<open>Byte \<open>i\<close> of an IPv4 address and 16-bit group \<open>i\<close> of an IPv6 address.\<close>

definition v4 :: "32 word \<Rightarrow> nat \<Rightarrow> nat" where
  "v4 w i = unat (drop_bit (24 - 8 * i) w) mod 256"

definition v6u16 :: "128 word \<Rightarrow> nat \<Rightarrow> nat" where
  "v6u16 w i = unat (drop_bit (112 - 16 * i) w) mod 65536"

fun IsLoopback :: "Addr \<Rightarrow> bool" where
  "IsLoopback (Addr4 w) = (v4 w 0 = 127)"
| "IsLoopback (Addr6 w z) = (if Is4In6 w then v4 (ucast w) 0 = 127 else w = 1)"
| "IsLoopback NoAddr = False"

fun IsPrivate4 :: "32 word \<Rightarrow> bool" where
  "IsPrivate4 w = (v4 w 0 = 10 \<or> (v4 w 0 = 172 \<and> v4 w 1 AND 0xf0 = 16) \<or> (v4 w 0 = 192 \<and> v4 w 1 = 168))"

fun IsPrivate :: "Addr \<Rightarrow> bool" where
  "IsPrivate (Addr4 w) = IsPrivate4 w"
| "IsPrivate (Addr6 w z) = (if Is4In6 w then IsPrivate4 (ucast w) else v6u16 w 0 AND 0xfe00 = 0xfc00)"
| "IsPrivate NoAddr = False"

fun IsLinkLocalUnicast :: "Addr \<Rightarrow> bool" where
  "IsLinkLocalUnicast (Addr4 w) = (v4 w 0 = 169 \<and> v4 w 1 = 254)"
| "IsLinkLocalUnicast (Addr6 w z) =
     (if Is4In6 w then v4 (ucast w) 0 = 169 \<and> v4 (ucast w) 1 = 254 else v6u16 w 0 AND 0xffc0 = 0xfe80)"
| "IsLinkLocalUnicast NoAddr = False"

fun IsLinkLocalMulticast :: "Addr \<Rightarrow> bool" where
  "IsLinkLocalMulticast (Addr4 w) = (v4 w 0 = 224 \<and> v4 w 1 = 0 \<and> v4 w 2 = 0)"
| "IsLinkLocalMulticast (Addr6 w z) =
     (if Is4In6 w then v4 (ucast w) 0 = 224 \<and> v4 (ucast w) 1 = 0 \<and> v4 (ucast w) 2 = 0
      else v6u16 w 0 AND 0xff0f = 0xff02)"
| "IsLinkLocalMulticast NoAddr = False"

fun IsMulticast :: "Addr \<Rightarrow> bool" where
  "IsMulticast (Addr4 w) = (v4 w 0 AND 0xf0 = 0xe0)"
| "IsMulticast (Addr6 w z) = (if Is4In6 w then v4 (ucast w) 0 AND 0xf0 = 0xe0 else v6u16 w 0 div 256 = 0xff)"
| "IsMulticast NoAddr = False"

definition IsUnspecified :: "Addr \<Rightarrow> bool" where
  "IsUnspecified a \<longleftrightarrow> a = Addr4 0 \<or> a = Addr6 0 []"

definition IsGlobalUnicast :: "Addr \<Rightarrow> bool" where
  "IsGlobalUnicast a =
     (if a = NoAddr then False
      else
        (let b = Unmap a in
         if b = Addr4 0 \<or> b = Addr4 0xffffffff then False
         else b \<noteq> Addr6 0 [] \<and> \<not> IsLoopback b \<and> \<not> IsMulticast b \<and> \<not> IsLinkLocalUnicast b))"

section \<open>Prefixes\<close>

text \<open>A prefix is its address and its length; \<open>Contains\<close> compares addresses of the same family by their
  leading bits and never contains an address with a zone.\<close>

fun Contains :: "Addr \<times> nat \<Rightarrow> Addr \<Rightarrow> bool" where
  "Contains (Addr4 p, n) (Addr4 a) = (drop_bit (32 - n) (a XOR p) = 0)"
| "Contains (Addr6 p pz, n) (Addr6 a z) = (z = [] \<and> drop_bit (128 - n) (a XOR p) = 0)"
| "Contains p a = False"

section \<open>Parsing\<close>

text \<open>\<open>parseIPv4Fields\<close>: the flag says that a digit must follow, as at the start and after a dot.\<close>

fun parse4Loop :: "bool \<Rightarrow> bytes \<Rightarrow> nat list \<Rightarrow> nat \<Rightarrow> nat \<Rightarrow> nat list option" where
  "parse4Loop needDigit [] fields val digLen = (if length fields < 3 then None else Some (fields @ [val]))"
| "parse4Loop needDigit (c # s) fields val digLen =
     (case digitVal c of
        Some d \<Rightarrow>
          if digLen = 1 \<and> val = 0 then None
          else if val * 10 + d > 255 then None
          else parse4Loop False s fields (val * 10 + d) (digLen + 1)
      | None \<Rightarrow>
          if c \<noteq> CHR ''.'' then None
          else if needDigit \<or> s = [] then None
          else if length fields = 3 then None
          else parse4Loop True s (fields @ [val]) 0 0)"

definition parseIPv4Fields :: "bytes \<Rightarrow> nat list option" where
  "parseIPv4Fields s = parse4Loop True s [] 0 0"

definition ofBytes :: "nat list \<Rightarrow> nat" where
  "ofBytes bs = foldl (\<lambda>n b. n * 256 + b) 0 bs"

definition hexVal :: "char \<Rightarrow> nat option" where
  "hexVal c =
     (let n = of_char c :: nat in
      if 48 \<le> n \<and> n \<le> 57 then Some (n - 48)
      else if 97 \<le> n \<and> n \<le> 102 then Some (n - 87)
      else if 65 \<le> n \<and> n \<le> 70 then Some (n - 55)
      else None)"

definition hexNum :: "bytes \<Rightarrow> nat" where
  "hexNum s = foldl (\<lambda>n c. n * 16 + (case hexVal c of Some d \<Rightarrow> d | None \<Rightarrow> 0)) 0 s"

text \<open>The loop of \<open>parseIPv6\<close>; \<open>ip\<close> holds the bytes written so far and \<open>ell\<close> where the ellipsis is. The
  result keeps the rest of the string.\<close>

function parse6Loop :: "nat option \<Rightarrow> nat list \<Rightarrow> bytes \<Rightarrow> (nat option \<times> nat list \<times> bytes) option" where
  "parse6Loop ell ip s =
     (if length ip \<ge> 16 then Some (ell, ip, s)
      else
        let digs = takeWhile (\<lambda>c. hexVal c \<noteq> None) s; rest = drop (length digs) s; acc = hexNum digs;
            ip' = ip @ [acc div 256, acc mod 256]
        in if length digs > 4 \<or> digs = [] then None
           else if rest \<noteq> [] \<and> hd rest = CHR ''.'' then
             if (ell = None \<and> length ip \<noteq> 12) \<or> length ip + 4 > 16 then None
             else map_option (\<lambda>fs. (ell, ip @ fs, [])) (parseIPv4Fields s)
           else if rest = [] then Some (ell, ip', [])
           else if hd rest \<noteq> CHR '':'' \<or> tl rest = [] then None
           else if hd (tl rest) = CHR '':'' then
             if ell \<noteq> None then None
             else if tl (tl rest) = [] then Some (Some (length ip'), ip', [])
             else parse6Loop (Some (length ip')) ip' (tl (tl rest))
           else parse6Loop ell ip' (tl rest))"
  by pat_completeness auto
termination
  by (relation "measure (\<lambda>(ell, ip, s). 16 - length ip)") (auto simp: Let_def)

declare parse6Loop.simps [simp del]

definition parseIPv6 :: "bytes \<Rightarrow> Addr option" where
  "parseIPv6 inp =
     (let (s, zone, zoned) =
        (case index inp ''%'' of
           None \<Rightarrow> (inp, [], False)
         | Some i \<Rightarrow> (take i inp, drop (i + 1) inp, True))
      in if zoned \<and> zone = [] then None
         else
           let lead = hasPrefix s ''::''; s' = (if lead then drop 2 s else s) in
           if lead \<and> s' = [] then Some (Addr6 0 zone)
           else
             case parse6Loop (if lead then Some 0 else None) [] s' of
               None \<Rightarrow> None
             | Some (ell, ip, rest) \<Rightarrow>
                 if rest \<noteq> [] then None
                 else if length ip < 16 then
                   (case ell of
                      None \<Rightarrow> None
                    | Some e \<Rightarrow>
                        Some (Addr6 (of_nat (ofBytes (take e ip @ replicate (16 - length ip) 0 @ drop e ip))) zone))
                 else if ell \<noteq> None then None
                 else Some (Addr6 (of_nat (ofBytes ip)) zone))"

fun parseKind :: "bytes \<Rightarrow> char option" where
  "parseKind [] = None"
| "parseKind (c # s) = (if c \<in> {CHR ''.'', CHR '':'', CHR ''%''} then Some c else parseKind s)"

definition ParseAddr :: "bytes \<Rightarrow> Addr option" where
  "ParseAddr s =
     (case parseKind s of
        None \<Rightarrow> None
      | Some c \<Rightarrow>
          if c = CHR ''.'' then map_option (\<lambda>fs. Addr4 (of_nat (ofBytes fs))) (parseIPv4Fields s)
          else if c = CHR '':'' then parseIPv6 s
          else None)"

lemma ParseAddr_examples:
  "ParseAddr ''10.0.0.1'' = Some (Addr4 0x0a000001)" "ParseAddr ''1.02.3.4'' = None" "ParseAddr ''1.2.3'' = None"
  "ParseAddr ''1.2.3.256'' = None" "ParseAddr ''::1'' = Some (Addr6 1 [])"
  "ParseAddr ''fe80::1%eth0'' = Some (Addr6 0xfe800000000000000000000000000001 ''eth0'')"
  "ParseAddr ''::ffff:10.0.0.1'' = Some (Addr6 0xffff0a000001 [])" "ParseAddr ''1::2::3'' = None"
  "ParseAddr ''example.com'' = None"
  by code_simp+

end
