(* ===== verification/HostIO.thy ===== *)
theory HostIO
  imports HostFs Session Netip "HOL-Library.State_Monad"
begin

text \<open>
  The effect monad of the tools: a state monad over \<open>host\<close>, which holds the file system, the process
  state the handlers share (retrier warmth, open roots, leases, locks, read markers) and a schedule.
  Every system call first takes one \<open>tick\<close> of the schedule, which says what other processes did to the
  file system in the meantime (any function), whether a context has ended, which random name the call
  sees and whether the call fails, before or after it took effect. A theorem for every schedule is thus
  a theorem for every interleaving with other writers and every sequence of backend faults. An empty
  schedule is a quiet machine. \<open>h_fxlog\<close> records the effects of this process only, \<open>h_net\<close> its network
  activity.
\<close>

datatype fault = NoFault | FailBefore errno | FailAfter errno nat

text \<open>Contexts are numbered by nesting: 0 the request, 1 the call budget, 2 the item budget. \<open>(k, e)\<close>
  says that the contexts from \<open>k\<close> inwards have ended with \<open>e\<close>.\<close>

record tick =
  t_env :: "fsys \<Rightarrow> fsys"
  t_fault :: fault
  t_ctx :: "(nat \<times> ctxErr) option"
  t_rand :: bytes

datatype lockTable = PLocks | SessLocks bytes

text \<open>What the process does on the network, in order: name lookups, connection attempts, TLS handshakes for
  a host name, closed connections and requests.\<close>

datatype netEvent = NetLookup bytes | NetDial Addr | NetTLS bytes Addr | NetClose Addr | NetRequest bytes

record host =
  h_fs :: fsys
  h_sched :: "tick list"
  h_ctx :: "(nat \<times> ctxErr) option"
  h_strerror :: "errno \<Rightarrow> bytes"
  h_fxlog :: "effect list"
  h_warm :: bool
  h_slept :: "nat list"
  h_roots :: "(bytes \<times> bytes list) list"
  h_opened :: "(bytes \<times> bytes list) list"
  h_lease :: nat
  h_stuck :: bool
  h_held :: "(lockTable \<times> bytes) list"
  h_sess :: "bytes \<Rightarrow> markers"
  h_net :: "netEvent list"

type_synonym 'a io = "(host, 'a) state"
type_synonym 'a ioe = "(host, (goerr, 'a) result) state"

definition quietTick :: tick where
  "quietTick = \<lparr>t_env = (\<lambda>fs. fs), t_fault = NoFault, t_ctx = None, t_rand = replicate 8 (CHR 0x00)\<rparr>"

text \<open>A machine with no files, on which nothing has happened yet.\<close>

definition emptyFs :: fsys where
  "emptyFs = \<lparr>fs_names = [], fs_inodes = (\<lambda>_. \<lparr>i_data = [], i_mode = 493, i_mtime = 0\<rparr>),
     fs_next = 1, fs_clock = 0\<rparr>"

definition emptyHost :: host where
  "emptyHost = \<lparr>h_fs = emptyFs, h_sched = [], h_ctx = None, h_strerror = (\<lambda>_. []), h_fxlog = [],
     h_warm = False, h_slept = [], h_roots = [], h_opened = [], h_lease = 0, h_stuck = False,
     h_held = [], h_sess = (\<lambda>_. newSession), h_net = []\<rparr>"

text \<open>A machine with the directory \<open>/d\<close>, the file \<open>/d/f\<close> and the link \<open>/l\<close> to \<open>/d\<close>, for concrete runs.\<close>

definition demoHost :: host where
  "demoHost = emptyHost\<lparr>h_fs := emptyFs\<lparr>
     fs_names := [([''d''], NDir 1), ([''d'', ''f''], NFile 2), ([''l''], NLink ''/d'')],
     fs_inodes := (\<lambda>_. \<lparr>i_data = [], i_mode = 493, i_mtime = 0\<rparr>)(2 := \<lparr>i_data = ''abc'', i_mode = 420, i_mtime = 5\<rparr>),
     fs_next := 3, fs_clock := 7\<rparr>\<rparr>"

section \<open>The monad\<close>

definition ret :: "'a \<Rightarrow> 'a io" where
  "ret x = State_Monad.return x"

definition ok :: "'a \<Rightarrow> 'a ioe" where
  "ok x = ret (Inr x)"

definition err :: "goerr \<Rightarrow> 'a ioe" where
  "err e = ret (Inl e)"

definition gets :: "(host \<Rightarrow> 'a) \<Rightarrow> 'a io" where
  "gets f = State (\<lambda>h. (f h, h))"

definition modify :: "(host \<Rightarrow> host) \<Rightarrow> unit io" where
  "modify f = State (\<lambda>h. ((), f h))"

text \<open>Go's \<open>if err != nil { return err }\<close> after a call.\<close>

definition bindE :: "'a ioe \<Rightarrow> ('a \<Rightarrow> 'b ioe) \<Rightarrow> 'b ioe" where
  "bindE m f = m \<bind> (\<lambda>r. case r of Inl e \<Rightarrow> err e | Inr x \<Rightarrow> f x)"

definition mapErr :: "(goerr \<Rightarrow> goerr) \<Rightarrow> 'a ioe \<Rightarrow> 'a ioe" where
  "mapErr g m = m \<bind> (\<lambda>r. case r of Inl e \<Rightarrow> err (g e) | Inr x \<Rightarrow> ok x)"

definition liftR :: "(goerr, 'a) result \<Rightarrow> 'a ioe" where
  "liftR r = ret r"

lemma run_simps [simp]:
  "run_state (ret x) h = (x, h)"
  "run_state (ok x) h = (Inr x, h)"
  "run_state (err e) h = (Inl e, h)"
  "run_state (gets f) h = (f h, h)"
  "run_state (modify g) h = ((), g h)"
  "run_state (liftR r) h = (r, h)"
  by (simp_all add: ret_def ok_def err_def gets_def modify_def liftR_def)

lemma run_bindE:
  "run_state (bindE m f) h =
    (case run_state m h of (Inl e, h') \<Rightarrow> (Inl e, h') | (Inr x, h') \<Rightarrow> run_state (f x) h')"
  by (auto simp: bindE_def split: prod.splits sum.splits)

lemma run_mapErr:
  "run_state (mapErr g m) h =
    (case run_state m h of (Inl e, h') \<Rightarrow> (Inl (g e), h') | (Inr x, h') \<Rightarrow> (Inr x, h'))"
  by (auto simp: mapErr_def split: prod.splits sum.splits)

section \<open>Ticks and system calls\<close>

definition mergeCtx :: "(nat \<times> ctxErr) option \<Rightarrow> (nat \<times> ctxErr) option \<Rightarrow> (nat \<times> ctxErr) option" where
  "mergeCtx a b =
     (case a of
        None \<Rightarrow> b
      | Some (k, e) \<Rightarrow>
          (case b of None \<Rightarrow> a | Some (k', e') \<Rightarrow> if k' < k then Some (k', e') else a))"

definition applyTick :: "tick \<Rightarrow> host \<Rightarrow> host" where
  "applyTick t h =
     h\<lparr>h_fs := t_env t ((h_fs h)\<lparr>fs_clock := fs_clock (h_fs h) + 1\<rparr>),
       h_ctx := mergeCtx (h_ctx h) (t_ctx t)\<rparr>"

definition nextTick :: "tick io" where
  "nextTick = State (\<lambda>h.
     case h_sched h of
       [] \<Rightarrow> (quietTick, applyTick quietTick h)
     | t # ts \<Rightarrow> (t, applyTick t (h\<lparr>h_sched := ts\<rparr>)))"

definition sysErr :: "host \<Rightarrow> errno \<Rightarrow> goerr" where
  "sysErr h e = SysErr e (h_strerror h e)"

definition walkErrToGo :: "host \<Rightarrow> walkErr \<Rightarrow> goerr" where
  "walkErrToGo h w = (case w of WErrno e \<Rightarrow> sysErr h e | WEscapes \<Rightarrow> PlainErr ''path escapes from parent'')"

definition runOp :: "'a op \<Rightarrow> 'a ioe" where
  "runOp op = State (\<lambda>h.
     case op (h_fs h) of (r, fs, fx) \<Rightarrow>
       (map_sum (walkErrToGo h) (\<lambda>x. x) r, h\<lparr>h_fs := fs, h_fxlog := h_fxlog h @ fx\<rparr>))"

lemma run_runOp:
  "run_state (runOp op) h =
    (map_sum (walkErrToGo h) (\<lambda>x. x) (fst (op (h_fs h))),
     h\<lparr>h_fs := fst (snd (op (h_fs h))), h_fxlog := h_fxlog h @ snd (snd (op (h_fs h)))\<rparr>)"
  by (simp add: runOp_def split_beta)

definition failErrno :: "errno \<Rightarrow> 'a ioe" where
  "failErrno e = State (\<lambda>h. (Inl (sysErr h e), h))"

text \<open>A system call whose operation may be told that only part of it takes effect.\<close>

definition syscallPart :: "(nat option \<Rightarrow> 'a op) \<Rightarrow> 'a ioe" where
  "syscallPart op = nextTick \<bind> (\<lambda>t.
     case t_fault t of
       NoFault \<Rightarrow> runOp (op None)
     | FailBefore e \<Rightarrow> failErrno e
     | FailAfter e n \<Rightarrow> runOp (op (Some n)) \<bind> (\<lambda>_. failErrno e))"

definition syscall :: "'a op \<Rightarrow> 'a ioe" where
  "syscall op = syscallPart (\<lambda>_. op)"

text \<open>On a quiet machine a system call is its operation, and time passes.\<close>

lemma run_syscall_quiet:
  assumes "h_sched h = []"
  shows "run_state (syscall op) h = run_state (runOp op) (applyTick quietTick h)"
  using assms by (simp add: syscall_def syscallPart_def nextTick_def quietTick_def)

lemma applyTick_quiet:
  "applyTick quietTick h = h\<lparr>h_fs := (h_fs h)\<lparr>fs_clock := fs_clock (h_fs h) + 1\<rparr>\<rparr>"
  by (auto simp: applyTick_def quietTick_def mergeCtx_def split: option.splits)

lemma nodeAt_clock [simp]: "nodeAt (fs\<lparr>fs_clock := c\<rparr>) = nodeAt fs"
  by (simp add: fun_eq_iff)

lemma dirsAbove_clock [simp]:
  "dirsAbove (fs\<lparr>fs_clock := c\<rparr>) cs = dirsAbove fs cs"
  "realPath (fs\<lparr>fs_clock := c\<rparr>) cs = realPath fs cs"
  "realDir (fs\<lparr>fs_clock := c\<rparr>) cs = realDir fs cs"
  by (simp_all add: dirsAbove_def realPath_def realDir_def)

text \<open>\<open>ctx.Err()\<close> of the context at depth \<open>k\<close>; \<open>None\<close> is \<open>context.Background()\<close>.\<close>

definition ctxErrAt :: "nat option \<Rightarrow> host \<Rightarrow> goerr option" where
  "ctxErrAt c h =
     (case c of
        None \<Rightarrow> None
      | Some k \<Rightarrow> (case h_ctx h of None \<Rightarrow> None | Some (j, e) \<Rightarrow> if j \<le> k then Some (CtxErr e) else None))"

text \<open>\<open>context.WithTimeout\<close> at depth \<open>k\<close>: a context that ended at this depth belonged to an earlier
  call.\<close>

definition withTimeout :: "nat \<Rightarrow> unit io" where
  "withTimeout k = modify (\<lambda>h. case h_ctx h of
     Some (j, e) \<Rightarrow> if k \<le> j then h\<lparr>h_ctx := None\<rparr> else h
   | None \<Rightarrow> h)"

section \<open>What an action can return\<close>

text \<open>Whatever the state and the schedule, the result satisfies \<open>P\<close>.\<close>

definition rets :: "('a \<Rightarrow> bool) \<Rightarrow> 'a io \<Rightarrow> bool" where
  "rets P m \<longleftrightarrow> (\<forall>h. P (fst (run_state m h)))"

lemma rets_intros:
  "P x \<Longrightarrow> rets P (ret x)"
  "(\<And>x. rets P (f x)) \<Longrightarrow> rets P (m \<bind> f)"
  "(\<And>e. rets P (g e)) \<Longrightarrow> (\<And>y. rets P (k y)) \<Longrightarrow> rets P (case_sum g k r)"
  "rets P m1 \<Longrightarrow> rets P m2 \<Longrightarrow> rets P (if b then m1 else m2)"
  by (auto simp: rets_def split: prod.split sum.split)

lemma rets_bind: "rets Q m \<Longrightarrow> (\<And>x. Q x \<Longrightarrow> rets P (f x)) \<Longrightarrow> rets P (m \<bind> f)"
  by (auto simp: rets_def split: prod.split) (metis fst_conv)

lemma retsD: "rets P m \<Longrightarrow> run_state m h = (x, h') \<Longrightarrow> P x"
  unfolding rets_def by (metis fst_conv)

lemma rets_weaken: "rets Q m \<Longrightarrow> (\<And>x. Q x \<Longrightarrow> P x) \<Longrightarrow> rets P m"
  by (simp add: rets_def)

section \<open>Relations between the states before and after\<close>

text \<open>A relation that holds of every step holds of every program built from such steps. The contracts
  of the tools that speak of all schedules are relations of this kind.\<close>

locale step_rel =
  fixes R :: "host \<Rightarrow> host \<Rightarrow> bool"
  assumes refl: "R h h"
    and trans: "R h1 h2 \<Longrightarrow> R h2 h3 \<Longrightarrow> R h1 h3"
begin

lemma rel_ret: "state_io_rel R (ret x)"
  and rel_ok: "state_io_rel R (ok y)"
  and rel_err: "state_io_rel R (err e)"
  and rel_gets: "state_io_rel R (gets f)"
  and rel_liftR: "state_io_rel R (liftR r)"
  and rel_failErrno: "state_io_rel R (failErrno n)"
  by (simp_all add: state_io_rel_def refl failErrno_def)

lemma rel_bind: "state_io_rel R m \<Longrightarrow> (\<And>x. state_io_rel R (f x)) \<Longrightarrow> state_io_rel R (m \<bind> f)"
  unfolding state_io_rel_def by (auto split: prod.splits) (metis snd_conv trans)

lemma rel_bindE: "state_io_rel R m \<Longrightarrow> (\<And>x. state_io_rel R (f x)) \<Longrightarrow> state_io_rel R (bindE m f)"
  unfolding bindE_def by (rule rel_bind) (auto simp: rel_err split: sum.split)

lemma rel_mapErr: "state_io_rel R m \<Longrightarrow> state_io_rel R (mapErr g m)"
  unfolding mapErr_def by (rule rel_bind) (auto simp: rel_err rel_ok split: sum.split)

lemma rel_if: "(b \<Longrightarrow> state_io_rel R m) \<Longrightarrow> (\<not> b \<Longrightarrow> state_io_rel R n) \<Longrightarrow> state_io_rel R (if b then m else n)"
  by simp

lemma rel_modify: "(\<And>h. R h (f h)) \<Longrightarrow> state_io_rel R (modify f)"
  by (simp add: state_io_rel_def)

lemma rel_case_sum:
  "(\<And>x. r = Inl x \<Longrightarrow> state_io_rel R (f x)) \<Longrightarrow> (\<And>y. r = Inr y \<Longrightarrow> state_io_rel R (g y)) \<Longrightarrow>
    state_io_rel R (case_sum f g r)"
  by (simp split: sum.split)

lemma rel_case_option:
  "(r = None \<Longrightarrow> state_io_rel R m) \<Longrightarrow> (\<And>y. r = Some y \<Longrightarrow> state_io_rel R (g y)) \<Longrightarrow>
    state_io_rel R (case_option m g r)"
  by (simp split: option.split)

lemma rel_case_prod:
  "(\<And>x y. p = (x, y) \<Longrightarrow> state_io_rel R (f x y)) \<Longrightarrow> state_io_rel R (case_prod f p)"
  by (simp split: prod.split)

lemma rel_syscallPart:
  assumes "state_io_rel R nextTick" and "\<And>lim. state_io_rel R (runOp (op lim))"
  shows "state_io_rel R (syscallPart op)"
  unfolding syscallPart_def
  by (rule rel_bind [OF assms(1)]) (auto intro: rel_bind assms(2) rel_failErrno split: fault.split)

lemma rel_syscall:
  "state_io_rel R nextTick \<Longrightarrow> state_io_rel R (runOp op) \<Longrightarrow> state_io_rel R (syscall op)"
  unfolding syscall_def by (rule rel_syscallPart)

lemmas rel_intros = rel_ret rel_ok rel_err rel_gets rel_liftR rel_failErrno rel_bind rel_bindE
  rel_mapErr rel_if rel_case_sum rel_case_option rel_case_prod

end

end
