(* ===== verification/Retrier.thy ===== *)
theory Retrier
  imports HostIO
begin

text \<open>
  \<open>internal/cifsops/cifsops.go\<close>: error classification and the retry policy. Durations are in
  milliseconds; \<open>h_warm\<close> is the \<open>succeeded\<close> flag and \<open>h_slept\<close> records the sleeps. \<open>Do\<close> and
  \<open>DoContext\<close> share \<open>retryDo\<close>, as in the code; the operation returns its value instead of assigning
  it to a captured variable.
\<close>

datatype Class = ClassDefinitive | ClassBackend | ClassUnknown

fun Class_String :: "Class \<Rightarrow> bytes" where
  "Class_String ClassDefinitive = ''definitive''"
| "Class_String ClassBackend = ''backend''"
| "Class_String ClassUnknown = ''unknown''"

definition definitiveErrnos :: "errno list" where
  "definitiveErrnos = [ENOENT, ENOTDIR, EISDIR, ENAMETOOLONG]"

definition backendErrnos :: "errno list" where
  "backendErrnos = [EIO, ETIMEDOUT, EHOSTDOWN, ENOTCONN, ESTALE, ECONNRESET, EAGAIN]"

definition Classify :: "goerr \<Rightarrow> Class" where
  "Classify e =
     (case asErrno e of
        None \<Rightarrow> ClassUnknown
      | Some n \<Rightarrow>
          if n \<in> set definitiveErrnos then ClassDefinitive
          else if n \<in> set backendErrnos then ClassBackend
          else ClassUnknown)"

definition ColdMaxRetries :: nat where
  "ColdMaxRetries = 3"

definition WarmRetryDelay :: nat where
  "WarmRetryDelay = 800"

definition ColdBackoff :: "nat list" where
  "ColdBackoff = [500, 2000, 5000]"

definition markSucceeded :: "unit io" where
  "markSucceeded = modify (\<lambda>h. h\<lparr>h_warm := True\<rparr>)"

text \<open>\<open>time.Sleep\<close>, and the cancellable \<open>sleepContext\<close>, during which the context may end.\<close>

definition sleepPlain :: "nat \<Rightarrow> goerr option io" where
  "sleepPlain d = modify (\<lambda>h. h\<lparr>h_slept := h_slept h @ [d]\<rparr>) \<bind> (\<lambda>_. ret None)"

definition sleepContext :: "nat option \<Rightarrow> nat \<Rightarrow> goerr option io" where
  "sleepContext c d =
     modify (\<lambda>h. h\<lparr>h_slept := h_slept h @ [d]\<rparr>) \<bind> (\<lambda>_. nextTick \<bind> (\<lambda>_. gets (ctxErrAt c)))"

text \<open>The loop over \<open>backoff\<close>; \<open>last\<close> is the error of the previous attempt.\<close>

fun retryLoop ::
  "nat option \<Rightarrow> (nat \<Rightarrow> goerr option io) \<Rightarrow> (nat \<Rightarrow> unit ioe) option \<Rightarrow> 'a ioe \<Rightarrow>
     nat \<Rightarrow> goerr \<Rightarrow> nat list \<Rightarrow> 'a ioe" where
  "retryLoop c sleep hook op attempt lastErr [] = err lastErr"
| "retryLoop c sleep hook op attempt lastErr (delay # rest) =
     gets (ctxErrAt c) \<bind> (\<lambda>done.
     case done of Some e \<Rightarrow> err e | None \<Rightarrow>
     bindE (case hook of None \<Rightarrow> ok () | Some f \<Rightarrow> f (attempt + 1)) (\<lambda>_.
     sleep delay \<bind> (\<lambda>woken.
     case woken of Some e \<Rightarrow> err e | None \<Rightarrow>
     op \<bind> (\<lambda>r.
     case r of
       Inr v \<Rightarrow> markSucceeded \<bind> (\<lambda>_. ok v)
     | Inl e \<Rightarrow>
         if Classify e \<noteq> ClassBackend then err e
         else retryLoop c sleep hook op (attempt + 1) e rest))))"

definition retryDo ::
  "nat option \<Rightarrow> (nat \<Rightarrow> goerr option io) \<Rightarrow> (nat \<Rightarrow> unit ioe) option \<Rightarrow> 'a ioe \<Rightarrow> 'a ioe" where
  "retryDo c sleep hook op =
     gets (ctxErrAt c) \<bind> (\<lambda>done.
     case done of Some e \<Rightarrow> err e | None \<Rightarrow>
     op \<bind> (\<lambda>r.
     case r of
       Inr v \<Rightarrow> markSucceeded \<bind> (\<lambda>_. ok v)
     | Inl e \<Rightarrow>
         if Classify e \<noteq> ClassBackend then err e
         else
           gets h_warm \<bind> (\<lambda>warm.
           retryLoop c sleep hook op 0 e (if warm then [WarmRetryDelay] else ColdBackoff))))"

definition Do :: "(nat \<Rightarrow> unit ioe) option \<Rightarrow> 'a ioe \<Rightarrow> 'a ioe" where
  "Do hook op = retryDo None sleepPlain hook op"

definition DoContext :: "nat option \<Rightarrow> (nat \<Rightarrow> unit ioe) option \<Rightarrow> 'a ioe \<Rightarrow> 'a ioe" where
  "DoContext c hook op = retryDo c (sleepContext c) hook op"

section \<open>Classification\<close>

lemma Classify_simps [simp]:
  "Classify (SysErr n m) = (if n \<in> set definitiveErrnos then ClassDefinitive
     else if n \<in> set backendErrnos then ClassBackend else ClassUnknown)"
  "Classify (Catalog s m None) = ClassUnknown"
  "Classify (Catalog s m (Some e)) = Classify e"
  "Classify (PlainErr m) = ClassUnknown"
  "Classify (CtxErr x) = ClassUnknown"
  "Classify (WrapErr m e) = Classify e"
  "Classify RacedErr = ClassUnknown"
  by (simp_all add: Classify_def)

section \<open>Relations through the retrier\<close>

context step_rel
begin

lemma rel_retryLoop:
  assumes "state_io_rel R op" and "\<And>d. state_io_rel R (sleep d)"
    and "\<And>f k. hook = Some f \<Longrightarrow> state_io_rel R (f k)" and "state_io_rel R markSucceeded"
  shows "state_io_rel R (retryLoop c sleep hook op attempt e ds)"
proof (induction ds arbitrary: attempt e)
  case (Cons d ds)
  show ?case
    unfolding retryLoop.simps
    by (intro rel_bind rel_bindE rel_gets rel_case_option rel_err rel_case_sum rel_ok assms rel_if Cons.IH)
qed (simp add: rel_err)

lemma rel_retryDo:
  assumes "state_io_rel R op" and "\<And>d. state_io_rel R (sleep d)"
    and "\<And>f k. hook = Some f \<Longrightarrow> state_io_rel R (f k)" and "state_io_rel R markSucceeded"
  shows "state_io_rel R (retryDo c sleep hook op)"
  unfolding retryDo_def
  by (intro rel_bind rel_gets rel_case_option rel_err rel_case_sum rel_ok assms rel_if rel_retryLoop)
text \<open>What a retried operation returns, one of its attempts has returned.\<close>

lemma retryLoop_Inr:
  assumes rel: "state_io_rel R op" "\<And>d. state_io_rel R (sleep d)"
    "\<And>f k. hook = Some f \<Longrightarrow> state_io_rel R (f k)" "state_io_rel R markSucceeded"
    and run: "run_state (retryLoop c sleep hook op attempt e ds) h = (Inr v, h')"
  shows "\<exists>h1 h2. R h h1 \<and> run_state op h1 = (Inr v, h2) \<and> R h2 h'"
  using run
proof (induction ds arbitrary: attempt e h)
  case (Cons d ds)
  obtain rk h1 where hk: "run_state (case hook of None \<Rightarrow> ok () | Some f \<Rightarrow> f (attempt + 1)) h = (rk, h1)"
    by fastforce
  obtain w h2 where sl: "run_state (sleep d) h1 = (w, h2)" by fastforce
  obtain r3 h3 where o: "run_state op h2 = (r3, h3)" by fastforce
  have "state_io_rel R (case hook of None \<Rightarrow> ok () | Some f \<Rightarrow> f (attempt + 1))"
    by (intro rel_case_option rel_ok rel)
  from state_io_relD [OF this hk] state_io_relD [OF rel(2) sl] state_io_relD [OF rel(1) o]
  have R: "R h h2" "R h h3" by (meson trans)+
  show ?case
  proof (cases r3)
    case (Inr u)
    with Cons.prems hk sl o have "v = u" "run_state markSucceeded h3 = ((), h')"
      by (auto simp: run_bindE split: option.splits sum.splits prod.splits)
    with R(1) o Inr state_io_relD [OF rel(4)] show ?thesis by blast
  next
    case (Inl x)
    with Cons.prems hk sl o
    have "run_state (retryLoop c sleep hook op (attempt + 1) x ds) h3 = (Inr v, h')"
      by (auto simp: run_bindE split: option.splits sum.splits if_splits)
    from Cons.IH [OF this] R(2) show ?thesis by (meson trans)
  qed
qed simp

lemma retryDo_Inr:
  assumes rel: "state_io_rel R op" "\<And>d. state_io_rel R (sleep d)"
    "\<And>f k. hook = Some f \<Longrightarrow> state_io_rel R (f k)" "state_io_rel R markSucceeded"
    and run: "run_state (retryDo c sleep hook op) h = (Inr v, h')"
  shows "\<exists>h1 h2. R h h1 \<and> run_state op h1 = (Inr v, h2) \<and> R h2 h'"
proof -
  obtain r1 h1 where o: "run_state op h = (r1, h1)" by fastforce
  show ?thesis
  proof (cases r1)
    case (Inr u)
    with run o have "v = u" "run_state markSucceeded h1 = ((), h')"
      by (auto simp: retryDo_def split: option.splits prod.splits)
    with o Inr refl state_io_relD [OF rel(4)] show ?thesis by blast
  next
    case (Inl x)
    with run o have "run_state (retryLoop c sleep hook op 0 x (if h_warm h1 then [WarmRetryDelay]
        else ColdBackoff)) h1 = (Inr v, h')" (is "run_state ?loop h1 = _")
      by (auto simp: retryDo_def split: option.splits if_splits)
    with rel have "\<exists>h2 h3. R h1 h2 \<and> run_state op h2 = (Inr v, h3) \<and> R h3 h'"
      by (rule retryLoop_Inr)
    with state_io_relD [OF rel(1) o] show ?thesis by (meson trans)
  qed
qed

end

section \<open>The policy\<close>

text \<open>An operation that counts its attempts in \<open>f\<close> and leaves the retrier's own state alone, and a hook
  that succeeds and leaves all of that alone.\<close>

definition counted :: "(host \<Rightarrow> nat) \<Rightarrow> 'a ioe \<Rightarrow> bool" where
  "counted f op \<longleftrightarrow>
     (\<forall>h. f (snd (run_state op h)) = Suc (f h) \<and> h_warm (snd (run_state op h)) = h_warm h \<and>
          h_slept (snd (run_state op h)) = h_slept h) \<and>
     (\<forall>h b. f (h\<lparr>h_warm := b\<rparr>) = f h) \<and> (\<forall>h d. f (h\<lparr>h_slept := d\<rparr>) = f h)"

definition neutralHook :: "(host \<Rightarrow> nat) \<Rightarrow> (nat \<Rightarrow> unit ioe) option \<Rightarrow> bool" where
  "neutralHook f hook \<longleftrightarrow>
     (\<forall>g k h. hook = Some g \<longrightarrow> (\<exists>h'. run_state (g k) h = (Inr (), h') \<and> f h' = f h \<and>
        h_warm h' = h_warm h \<and> h_slept h' = h_slept h))"

lemma run_neutralHook:
  assumes "neutralHook f hook"
  obtains h' where "run_state (case hook of None \<Rightarrow> ok () | Some g \<Rightarrow> g k) h = (Inr (), h')"
    "f h' = f h" "h_warm h' = h_warm h" "h_slept h' = h_slept h"
proof (cases hook)
  case (Some g)
  with assms show ?thesis unfolding neutralHook_def using that by fastforce
qed (use that in auto)

lemma run_sleepPlain: "run_state (sleepPlain d) h = (None, h\<lparr>h_slept := h_slept h @ [d]\<rparr>)"
  by (simp add: sleepPlain_def)

lemma run_markSucceeded: "run_state markSucceeded h = ((), h\<lparr>h_warm := True\<rparr>)"
  by (simp add: markSucceeded_def)

lemma countedD:
  assumes "counted f op" "run_state op h = (r, h')"
  shows "f h' = Suc (f h)" "h_warm h' = h_warm h" "h_slept h' = h_slept h"
  using assms by (metis counted_def snd_conv)+

lemma counted_update:
  assumes "counted f op"
  shows "f (h\<lparr>h_warm := b\<rparr>) = f h" "f (h\<lparr>h_slept := d\<rparr>) = f h"
  using assms by (auto simp: counted_def)

lemma retryLoop_policy:
  assumes op: "counted f op" and hook: "neutralHook f hook"
    and run: "run_state (retryLoop None sleepPlain hook op attempt e ds) h = (r, h')"
    and e: "Classify e = ClassBackend"
  shows "\<exists>n \<le> length ds. f h' = f h + n \<and> h_slept h' = h_slept h @ take n ds \<and>
    (case r of Inr v \<Rightarrow> h_warm h' | Inl e' \<Rightarrow> h_warm h' = h_warm h \<and>
       (Classify e' = ClassBackend \<longrightarrow> n = length ds))"
  using run e
proof (induction ds arbitrary: attempt e h)
  case (Cons d ds)
  obtain h1 where h1: "run_state (case hook of None \<Rightarrow> ok () | Some g \<Rightarrow> g (attempt + 1)) h = (Inr (), h1)"
    "f h1 = f h" "h_warm h1 = h_warm h" "h_slept h1 = h_slept h"
    by (rule run_neutralHook [OF hook])
  obtain r2 h2 where h2: "run_state op (h1\<lparr>h_slept := h_slept h1 @ [d]\<rparr>) = (r2, h2)"
    by fastforce
  from countedD [OF op h2] have f2: "f h2 = Suc (f h)" "h_warm h2 = h_warm h"
    "h_slept h2 = h_slept h @ [d]"
    by (simp_all add: counted_update [OF op] h1)
  show ?case
  proof (cases r2)
    case (Inr v)
    with Cons.prems(1) h1(1) h2 have "r = Inr v" "h' = h2\<lparr>h_warm := True\<rparr>"
      by (auto simp: ctxErrAt_def run_bindE run_sleepPlain run_markSucceeded)
    with f2 show ?thesis by (intro exI [of _ 1]) (simp add: counted_update [OF op])
  next
    case (Inl e2)
    show ?thesis
    proof (cases "Classify e2 = ClassBackend")
      case False
      with Inl Cons.prems(1) h1(1) h2 have "r = Inl e2" "h' = h2"
        by (auto simp: ctxErrAt_def run_bindE run_sleepPlain)
      with f2 False show ?thesis by (intro exI [of _ 1]) simp
    next
      case True
      with Inl Cons.prems(1) h1(1) h2
      have "run_state (retryLoop None sleepPlain hook op (attempt + 1) e2 ds) h2 = (r, h')"
        by (simp add: ctxErrAt_def run_bindE run_sleepPlain)
      from Cons.IH [OF this True] obtain n where "n \<le> length ds" "f h' = f h2 + n"
        "h_slept h' = h_slept h2 @ take n ds"
        "case r of Inr v \<Rightarrow> h_warm h' | Inl e' \<Rightarrow> h_warm h' = h_warm h2 \<and>
           (Classify e' = ClassBackend \<longrightarrow> n = length ds)"
        by blast
      with f2 show ?thesis by (intro exI [of _ "Suc n"]) (auto split: sum.splits)
    qed
  qed
qed (auto intro!: exI [of _ 0])

section \<open>Properties\<close>


text \<open>An operation that logs one effect and then fails with a backend error.\<close>

definition failingOp :: "unit ioe" where
  "failingOp = modify (\<lambda>h. h\<lparr>h_fxlog := h_fxlog h @ [FxChmod []]\<rparr>) \<bind> (\<lambda>_. err (SysErr EIO []))"


end
