(* ===== verification/RootPool.thy ===== *)
theory RootPool
  imports Retrier
begin

text \<open>
  \<open>internal/cifsops/rootpool.go\<close>: which allowed directory owns a path, the root-relative name, the lazy
  cache of open roots, the read lease of \<open>WithRoot\<close> and the reopening pass. An open root is the path
  its directory had when it was opened (\<open>h_roots\<close>); \<open>h_opened\<close> remembers every root ever opened.
  Asking for the write lease while holding a read lease would block for ever, which is the flag
  \<open>h_stuck\<close>. The locale \<open>scope_check\<close> is the contract that the prefix comparison shares with the path
  guard.
\<close>

definition withinPrefix :: "bytes \<Rightarrow> bytes \<Rightarrow> bool" where
  "withinPrefix dir path =
     (if dir = [slash] then path = [slash] \<or> hasPrefix path [slash]
      else path = dir \<or> hasPrefix path (dir @ [slash]))"

text \<open>The loop of \<open>owner\<close> over \<open>p.dirs\<close>.\<close>

fun ownerLoop :: "bytes \<Rightarrow> bytes \<Rightarrow> bytes list \<Rightarrow> bytes" where
  "ownerLoop path best [] = best"
| "ownerLoop path best (dir # dirs) =
     (if \<not> withinPrefix dir path then ownerLoop path best dirs
      else if length dir > length best then ownerLoop path dir dirs
      else ownerLoop path best dirs)"

definition owner :: "bytes list \<Rightarrow> bytes \<Rightarrow> bytes" where
  "owner dirs path = ownerLoop path [] dirs"

definition relName :: "bytes \<Rightarrow> bytes \<Rightarrow> bytes" where
  "relName dir path =
     (if path = dir then dot
      else
        (let rel = (if dir = [slash] then trimPrefix path [slash] else trimPrefix path (dir @ [slash]));
             cleaned = Clean rel
         in if cleaned \<noteq> rel then cleaned else rel))"

text \<open>\<open>os.OpenRoot\<close>.\<close>

definition OpenRoot :: "bytes \<Rightarrow> bytes list ioe" where
  "OpenRoot dir = syscall (atKernel True dir opOpenDir)"

definition cacheRoot :: "bytes \<Rightarrow> bytes list \<Rightarrow> unit io" where
  "cacheRoot dir base = modify (\<lambda>h. h\<lparr>h_roots := AList.update dir base (h_roots h),
     h_opened := (dir, base) # h_opened h\<rparr>)"

definition resolve :: "bytes list \<Rightarrow> bytes \<Rightarrow> (bytes list \<times> bytes) ioe" where
  "resolve dirs path =
     (let dir = owner dirs path in
      if dir = [] then err (PlainErr (''cifsops: path '' @ path @ '' is outside every pooled root''))
      else
        gets (\<lambda>h. map_of (h_roots h) dir) \<bind> (\<lambda>cached.
        case cached of
          Some base \<Rightarrow> ok (base, relName dir path)
        | None \<Rightarrow>
            bindE (OpenRoot dir) (\<lambda>base.
            cacheRoot dir base \<bind> (\<lambda>_. ok (base, relName dir path)))))"

definition rlock :: "unit io" where
  "rlock = modify (\<lambda>h. h\<lparr>h_lease := h_lease h + 1\<rparr>)"

definition runlock :: "unit io" where
  "runlock = modify (\<lambda>h. h\<lparr>h_lease := h_lease h - 1\<rparr>)"

definition WithRoot :: "bytes list \<Rightarrow> bytes \<Rightarrow> (bytes list \<Rightarrow> bytes \<Rightarrow> 'a ioe) \<Rightarrow> 'a ioe" where
  "WithRoot dirs path op =
     rlock \<bind> (\<lambda>_.
     bindE (resolve dirs path) (\<lambda>(base, rel). op base rel) \<bind> (\<lambda>r.
     runlock \<bind> (\<lambda>_. ret r)))"

text \<open>The loop of \<open>ReopenAll\<close> over the roots that were open; \<open>acc\<close> is \<open>reopenErr\<close>. Go leaves the order
  of this loop open; here it is that of the cache.\<close>

fun reopenLoop :: "goerr option \<Rightarrow> bytes list \<Rightarrow> goerr option io" where
  "reopenLoop acc [] = ret acc"
| "reopenLoop acc (dir # dirs) =
     OpenRoot dir \<bind> (\<lambda>r.
     case r of
       Inl e \<Rightarrow>
         (let w = WrapErr (''cifsops: reopening root '' @ dir @ '': '' @ errText e) e
          in reopenLoop (Some (JoinErr ((case acc of None \<Rightarrow> [] | Some a \<Rightarrow> [a]) @ [w]))) dirs)
     | Inr base \<Rightarrow> cacheRoot dir base \<bind> (\<lambda>_. reopenLoop acc dirs))"

definition ReopenAll :: "unit ioe" where
  "ReopenAll =
     modify (\<lambda>h. h\<lparr>h_stuck := h_stuck h \<or> 0 < h_lease h\<rparr>) \<bind> (\<lambda>_.
     gets (\<lambda>h. map fst (h_roots h)) \<bind> (\<lambda>opened.
     modify (\<lambda>h. h\<lparr>h_roots := []\<rparr>) \<bind> (\<lambda>_.
     reopenLoop None opened \<bind> (\<lambda>e.
     case e of None \<Rightarrow> ok () | Some e \<Rightarrow> err e))))"

section \<open>The contract of a scope check\<close>

locale scope_check =
  fixes inside :: "bytes \<Rightarrow> bytes \<Rightarrow> bool"
  assumes inside_iff: "canonPath dir \<Longrightarrow> canonPath p \<Longrightarrow> inside dir p \<longleftrightarrow> prefix (pathComps dir) (pathComps p)"
begin

lemma inside_refl: "canonPath p \<Longrightarrow> inside p p"
  by (simp add: inside_iff)

lemma inside_trans:
  "canonPath a \<Longrightarrow> canonPath b \<Longrightarrow> canonPath c \<Longrightarrow> inside a b \<Longrightarrow> inside b c \<Longrightarrow> inside a c"
  by (auto simp: inside_iff intro: prefix_order.trans)

lemma inside_antisym: "canonPath a \<Longrightarrow> canonPath b \<Longrightarrow> inside a b \<Longrightarrow> inside b a \<Longrightarrow> a = b"
  by (auto simp: inside_iff canonPath_def) (metis prefix_order.antisym)

lemma inside_child: "canonPath d \<Longrightarrow> okComp c \<Longrightarrow> canonPath p \<Longrightarrow> inside d p \<Longrightarrow>
    inside d (absPath (pathComps p @ [c]))"
  by (auto simp: inside_iff canonPath_def)

end

lemma prefix_comparison_iff:
  assumes "canonPath dir" and "canonPath p"
  shows "(if dir = [slash] then p = [slash] \<or> hasPrefix p [slash]
     else p = dir \<or> hasPrefix p (dir @ [slash])) \<longleftrightarrow> prefix (pathComps dir) (pathComps p)"
proof -
  obtain ds where ds: "list_all okComp ds" "dir = absPath ds" "pathComps dir = ds"
    using assms(1) by (rule canonPathE)
  obtain ps where ps: "list_all okComp ps" "p = absPath ps" "pathComps p = ps"
    using assms(2) by (rule canonPathE)
  show ?thesis
  proof (cases "ds = []")
    case True
    with ds ps show ?thesis by (auto simp: absPath_def)
  next
    case False
    then have "dir \<noteq> [slash]" using ds by (simp add: absPath_eq_slash)
    with absPath_prefix_iff [OF ds(1) ps(1) False] show ?thesis by (simp add: ds(1,2) ps(1,2))
  qed
qed

interpretation pool: scope_check withinPrefix
  by unfold_locales (simp only: withinPrefix_def prefix_comparison_iff)

section \<open>Routing\<close>

lemma ownerLoop_cases:
  "ownerLoop path best dirs = best \<or>
    (ownerLoop path best dirs \<in> set dirs \<and> withinPrefix (ownerLoop path best dirs) path)"
  by (induction path best dirs rule: ownerLoop.induct) auto

lemma ownerLoop_longest:
  "length best \<le> length (ownerLoop path best dirs) \<and>
    (\<forall>dir \<in> set dirs. withinPrefix dir path \<longrightarrow> length dir \<le> length (ownerLoop path best dirs))"
  by (induction path best dirs rule: ownerLoop.induct) auto

lemma owner_in: "owner dirs path \<noteq> [] \<Longrightarrow> owner dirs path \<in> set dirs \<and> withinPrefix (owner dirs path) path"
  using ownerLoop_cases [of path "[]" dirs] by (auto simp: owner_def)

lemma canonPath_nonempty: "canonPath p \<Longrightarrow> p \<noteq> []"
  by (auto simp: canonPath_def absPath_def)

lemma owner_eq_Nil_iff:
  "list_all canonPath dirs \<Longrightarrow> owner dirs path = [] \<longleftrightarrow> \<not> list_ex (\<lambda>d. withinPrefix d path) dirs"
  using ownerLoop_longest [of "[]" path dirs] owner_in [of dirs path] canonPath_nonempty
  by (fastforce simp: owner_def list_all_iff list_ex_iff)

lemma Clean_join:
  "list_all okComp cs \<Longrightarrow> cs \<noteq> [] \<Longrightarrow> Clean (join cs [slash]) = join cs [slash]"
proof -
  assume ok: "list_all okComp cs" and ne: "cs \<noteq> []"
  then obtain c0 rest where cs: "cs = c0 # rest" by (cases cs) auto
  with ok obtain x c where c0: "c0 = x # c" "x \<noteq> slash" by (cases c0) (auto simp: okComp_def)
  have j: "join cs [slash] = x # (c @ (if rest = [] then [] else slash # join rest [slash]))"
    by (simp add: cs c0(1) join_Cons)
  have "split (join cs [slash]) [slash] = cs"
    using ok ne by (simp add: split_join_char okComp_no_slash)
  moreover have "\<not> isAbs (join cs [slash])" "join cs [slash] \<noteq> []" using c0(2) by (simp_all add: j)
  ultimately show ?thesis
    using ok ne by (simp add: Clean_def cleanStack_id del: isAbs_iff)
qed

lemma trimPrefix_append [simp]: "trimPrefix (p @ s) p = s"
  by (simp add: trimPrefix_def)

lemma relName_canon:
  assumes "canonPath dir" and "canonPath path" and "withinPrefix dir path"
  shows "relName dir path =
    (if path = dir then dot else join (drop (length (pathComps dir)) (pathComps path)) [slash])"
proof (cases "path = dir")
  case False
  obtain ds where ds: "list_all okComp ds" "dir = absPath ds" "pathComps dir = ds"
    using assms(1) by (rule canonPathE)
  obtain ps where ps: "list_all okComp ps" "path = absPath ps" "pathComps path = ps"
    using assms(2) by (rule canonPathE)
  from assms have "prefix ds ps" by (simp add: pool.inside_iff ds(3) ps(3))
  then obtain rs where rs: "ps = ds @ rs" by (auto simp: prefix_def)
  with False ds ps have ne: "rs \<noteq> []" "list_all okComp rs" by auto
  have rel: "(if dir = [slash] then trimPrefix path [slash] else trimPrefix path (dir @ [slash])) =
      join rs [slash]"
  proof (cases "ds = []")
    case True
    then show ?thesis using rs ne ds ps trimPrefix_append [of "[slash]" "join rs [slash]"]
      by (simp add: absPath_def)
  next
    case False
    then have "dir \<noteq> [slash]" using ds by (simp add: absPath_eq_slash)
    moreover have "path = (dir @ [slash]) @ join rs [slash]"
      using False ne ds ps rs by (simp add: absPath_append)
    ultimately show ?thesis by (simp only: if_False trimPrefix_append)
  qed
  show ?thesis
    using False ne Clean_join [OF ne(2,1)]
    by (simp only: relName_def rel Let_def if_False) (simp add: ds(3) ps(3) rs)
qed (simp add: relName_def)

section \<open>Properties\<close>

text \<open>C34. Routing: a path inside some allowed directory is served by the root of the longest allowed
  directory that contains it, with a relative name that leads back to exactly that path from that
  directory and never contains \<open>..\<close>; a path outside all of them has no owner.\<close>

theorem root_routing:
  assumes "list_all canonPath dirs" and "canonPath path"
  shows "if list_ex (\<lambda>d. prefix (pathComps d) (pathComps path)) dirs
    then owner dirs path \<in> set dirs \<and>
      prefix (pathComps (owner dirs path)) (pathComps path) \<and>
      list_all (\<lambda>d. prefix (pathComps d) (pathComps path) \<longrightarrow> length d \<le> length (owner dirs path)) dirs \<and>
      list_all (\<lambda>c. c \<noteq> dotdot) (split (relName (owner dirs path) path) [slash]) \<and>
      pathComps path = pathComps (owner dirs path) @
        filter (\<lambda>c. c \<noteq> dot) (split (relName (owner dirs path) path) [slash])
    else owner dirs path = []"
proof -
  let ?o = "owner dirs path"
  have w: "withinPrefix d path \<longleftrightarrow> prefix (pathComps d) (pathComps path)" if "d \<in> set dirs" for d
    using assms that by (simp add: pool.inside_iff list_all_iff)
  have ex: "list_ex (\<lambda>d. prefix (pathComps d) (pathComps path)) dirs \<longleftrightarrow> ?o \<noteq> []"
    using w by (auto simp: owner_eq_Nil_iff [OF assms(1)] list_ex_iff)
  have main: "?o \<in> set dirs \<and> prefix (pathComps ?o) (pathComps path) \<and>
      list_all (\<lambda>d. prefix (pathComps d) (pathComps path) \<longrightarrow> length d \<le> length ?o) dirs \<and>
      list_all (\<lambda>c. c \<noteq> dotdot) (split (relName ?o path) [slash]) \<and>
      pathComps path = pathComps ?o @ filter (\<lambda>c. c \<noteq> dot) (split (relName ?o path) [slash])"
    if o: "?o \<noteq> []"
  proof -
    from owner_in [OF o] have o1: "?o \<in> set dirs" "withinPrefix ?o path" by auto
    with assms have c: "canonPath ?o" by (simp add: list_all_iff)
    have long: "list_all (\<lambda>d. prefix (pathComps d) (pathComps path) \<longrightarrow> length d \<le> length ?o) dirs"
      using ownerLoop_longest [of "[]" path dirs] w by (simp add: owner_def list_all_iff)
    from o1 w have pre: "prefix (pathComps ?o) (pathComps path)" by simp
    then obtain rs where rs: "pathComps path = pathComps ?o @ rs" by (auto simp: prefix_def)
    from assms(2) rs have ok: "list_all okComp rs" by (simp add: canonPath_def)
    have "list_all (\<lambda>c. c \<noteq> dotdot) (split (relName ?o path) [slash]) \<and>
        filter (\<lambda>c. c \<noteq> dot) (split (relName ?o path) [slash]) = rs"
    proof (cases "path = ?o")
      case True
      with rs have "rs = []" by simp
      moreover have "relName ?o path = dot" using True by (simp add: relName_def)
      moreover have "split dot [slash] = [dot]" by (simp add: split_char_id dot_def slash_def)
      ultimately show ?thesis by (simp add: dot_def dotdot_def)
    next
      case False
      with c assms(2) rs have ne: "rs \<noteq> []" by (auto simp: canonPath_def)
      have "relName ?o path = join rs [slash]"
        using False by (simp add: relName_canon [OF c assms(2) o1(2)] rs)
      then have "split (relName ?o path) [slash] = rs"
        using ne ok by (simp add: split_join_char okComp_no_slash)
      with ok show ?thesis by (auto simp: list_all_iff okComp_def filter_id_conv)
    qed
    with o1 pre long rs show ?thesis by simp
  qed
  show ?thesis unfolding ex by (rule if_split [THEN iffD2]) (use main in blast)
qed

lemma root_routing_witness:
  "owner [''/a'', ''/a/b''] ''/a/b/c'' = ''/a/b'' \<and> pathComps ''/a/b/c'' = pathComps ''/a/b'' @ [''c'']"
proof -
  have ok: "list_all canonPath [''/a'', ''/a/b'']" "canonPath ''/a/b/c''" by code_simp+
  have o: "owner [''/a'', ''/a/b''] ''/a/b/c'' = ''/a/b''" by code_simp
  have r: "split (relName ''/a/b'' ''/a/b/c'') [slash] = [''c'']" by code_simp
  have e: "list_ex (\<lambda>d. prefix (pathComps d) (pathComps ''/a/b/c'')) [''/a'', ''/a/b'']" by code_simp
  from root_routing [OF ok] e show ?thesis by (simp add: o r dot_def)
qed

end
