(* ===== verification/Utf8.thy ===== *)
theory Utf8
  imports GoBytes
begin

text \<open>
  Go's view of a string as UTF-8: \<open>utf8.DecodeRune\<close>, the \<open>for range\<close> segmentation of a string into
  runes, \<open>utf8.RuneCountInString\<close>, \<open>utf8.AppendRune\<close>, \<open>strings.ToValidUTF8\<close>, \<open>strconv.Quote\<close> and
  \<open>strings.TrimSpace\<close>. A byte that does not start a valid encoding decodes to U+FFFD with width 1,
  as in Go; a validly encoded U+FFFD has width 3.
\<close>

abbreviation bv :: "char \<Rightarrow> nat" where
  "bv c \<equiv> of_char c"

definition runeError :: nat where
  "runeError = 65533"

definition isCont :: "char \<Rightarrow> bool" where
  "isCont c = (128 \<le> bv c \<and> bv c \<le> 191)"

text \<open>Accepted range of the second byte, by the first byte (Go's \<open>acceptRanges\<close> table).\<close>

definition secondOk :: "nat \<Rightarrow> char \<Rightarrow> bool" where
  "secondOk b0 c =
     (let lo = (if b0 = 224 then 160 else if b0 = 240 then 144 else 128);
          hi = (if b0 = 237 then 159 else if b0 = 244 then 143 else 191)
      in lo \<le> bv c \<and> bv c \<le> hi)"

fun decodeRune :: "bytes \<Rightarrow> nat \<times> nat" where
  "decodeRune [] = (runeError, 0)"
| "decodeRune (c0 # s) =
     (let b0 = bv c0 in
      if b0 < 128 then (b0, 1)
      else if b0 < 194 \<or> 244 < b0 then (runeError, 1)
      else if b0 < 224 then
        (case s of
           c1 # _ \<Rightarrow> if secondOk b0 c1 then ((b0 - 192) * 64 + (bv c1 - 128), 2) else (runeError, 1)
         | [] \<Rightarrow> (runeError, 1))
      else if b0 < 240 then
        (case s of
           c1 # c2 # _ \<Rightarrow>
             if secondOk b0 c1 \<and> isCont c2
             then ((b0 - 224) * 4096 + (bv c1 - 128) * 64 + (bv c2 - 128), 3)
             else (runeError, 1)
         | _ \<Rightarrow> (runeError, 1))
      else
        (case s of
           c1 # c2 # c3 # _ \<Rightarrow>
             if secondOk b0 c1 \<and> isCont c2 \<and> isCont c3
             then ((b0 - 240) * 262144 + (bv c1 - 128) * 4096 + (bv c2 - 128) * 64 + (bv c3 - 128), 4)
             else (runeError, 1)
         | _ \<Rightarrow> (runeError, 1)))"

declare decodeRune.simps(2) [simp del]

text \<open>A segment of the \<open>for range\<close> loop: the rune and the bytes it was decoded from.\<close>

type_synonym seg = "nat \<times> bytes"

lemma decodeRune_width:
  "s \<noteq> [] \<Longrightarrow> 1 \<le> snd (decodeRune s) \<and> snd (decodeRune s) \<le> length s"
  by (cases s) (auto simp: decodeRune.simps(2) Let_def split: list.splits)

lemma decodeRune_width_le4: "snd (decodeRune s) \<le> 4"
  by (cases s) (auto simp: decodeRune.simps(2) Let_def split: list.splits)

function segs :: "bytes \<Rightarrow> seg list" where
  "segs s =
     (if s = [] then []
      else (let (r, w) = decodeRune s in (r, take w s) # segs (drop w s)))"
  by pat_completeness auto
termination
proof (relation "measure length", goal_cases)
  case 1
  show ?case by simp
next
  case (2 s x r w)
  with decodeRune_width [of s] have "1 \<le> w" "w \<le> length s"
    by (metis snd_conv)+
  with 2 show ?case by simp
qed

declare segs.simps [simp del]

lemma segs_Nil [simp]: "segs [] = []"
  by (simp add: segs.simps)

lemma segs_step:
  "s \<noteq> [] \<Longrightarrow>
    segs s = (fst (decodeRune s), take (snd (decodeRune s)) s) # segs (drop (snd (decodeRune s)) s)"
  by (subst segs.simps) (auto split: prod.splits)

lemma segs_induct [case_names Nil step]:
  assumes "P []"
    and "\<And>s. s \<noteq> [] \<Longrightarrow> P (drop (snd (decodeRune s)) s) \<Longrightarrow> P s"
  shows "P s"
proof (induction s rule: segs.induct)
  case (1 s)
  show ?case
  proof (cases "s = []")
    case False
    with "1" assms(2) show ?thesis by (metis surjective_pairing)
  qed (simp add: assms(1))
qed

lemma set_segs_cases:
  assumes "x \<in> set (segs s)" and "s \<noteq> []"
  obtains "x = (fst (decodeRune s), take (snd (decodeRune s)) s)"
    | "x \<in> set (segs (drop (snd (decodeRune s)) s))"
  using assms by (auto simp: segs_step)

lemma concat_segs: "concat (map snd (segs s)) = s"
  by (induction s rule: segs_induct) (simp_all add: segs_step)

lemma segs_eq_Nil_iff [simp]: "segs s = [] \<longleftrightarrow> s = []"
  by (metis list.distinct(1) segs_Nil segs_step)

lemma seg_width: "x \<in> set (segs s) \<Longrightarrow> 1 \<le> length (snd x) \<and> length (snd x) \<le> 4"
proof (induction s rule: segs_induct)
  case (step s)
  from step.prems step.hyps show ?case
  proof (cases rule: set_segs_cases)
    case 1
    with decodeRune_width [OF step.hyps] decodeRune_width_le4 [of s] show ?thesis by simp
  qed (use step.IH in blast)
qed simp

definition runeCount :: "bytes \<Rightarrow> nat" where
  "runeCount s = length (segs s)"

lemma length_concat_le4:
  "(\<And>x. x \<in> set xs \<Longrightarrow> length (snd x) \<le> 4) \<Longrightarrow> length (concat (map snd xs)) \<le> 4 * length (xs :: seg list)"
  by (induction xs) force+

lemma length_le_4_runeCount: "length s \<le> 4 * runeCount s"
  unfolding runeCount_def
  by (subst concat_segs [symmetric], rule length_concat_le4) (use seg_width in blast)

section \<open>Valid encodings\<close>

text \<open>A segment is valid unless it is the width-1 error segment.\<close>

definition validSeg :: "seg \<Rightarrow> bool" where
  "validSeg x = (\<not> (fst x = runeError \<and> length (snd x) = 1))"

definition validUTF8 :: "bytes \<Rightarrow> bool" where
  "validUTF8 s = list_all validSeg (segs s)"

text \<open>\<open>completeRune e\<close>: the bytes \<open>e\<close> are exactly one valid encoding.\<close>

definition completeRune :: "bytes \<Rightarrow> bool" where
  "completeRune e = (e \<noteq> [] \<and> snd (decodeRune e) = length e \<and> (fst (decodeRune e) = runeError \<longrightarrow> length e \<noteq> 1))"

lemma bv_lt_256: "bv c < 256"
  by (metis of_char_mod_256 mod_less_divisor zero_less_numeral)

lemma bytes_cases4:
  obtains "s = []" | c0 where "s = [c0]" | c0 c1 where "s = [c0, c1]"
    | c0 c1 c2 where "s = [c0, c1, c2]" | c0 c1 c2 c3 r where "s = c0 # c1 # c2 # c3 # r"
  by (metis list.exhaust)

lemma decodeRune_append:
  assumes "fst (decodeRune s) = runeError \<longrightarrow> snd (decodeRune s) \<noteq> 1" and "s \<noteq> []"
  shows "decodeRune (s @ t) = decodeRune s"
  using assms
  by (cases s rule: bytes_cases4) (simp_all add: decodeRune.simps(2) Let_def split: if_split_asm)

lemma decodeRune_take:
  assumes "fst (decodeRune s) = runeError \<longrightarrow> snd (decodeRune s) \<noteq> 1" and "s \<noteq> []"
  shows "decodeRune (take (snd (decodeRune s)) s) = decodeRune s"
  using assms
  by (cases s) (auto simp: decodeRune.simps(2) Let_def take_Suc_conv_app_nth split: list.splits if_splits)

lemma completeRune_segs:
  assumes "completeRune e"
  shows "segs (e @ t) = (fst (decodeRune e), e) # segs t"
proof -
  from assms have ne: "e \<noteq> []" and w: "snd (decodeRune e) = length e"
    and v: "fst (decodeRune e) = runeError \<longrightarrow> snd (decodeRune e) \<noteq> 1"
    by (auto simp: completeRune_def)
  have d: "decodeRune (e @ t) = decodeRune e" by (rule decodeRune_append [OF v ne])
  show ?thesis
    using ne by (subst segs_step) (simp_all add: d w)
qed

lemma validSeg_complete:
  "x \<in> set (segs s) \<Longrightarrow> validSeg x \<Longrightarrow> completeRune (snd x) \<and> fst (decodeRune (snd x)) = fst x"
proof (induction s rule: segs_induct)
  case (step s)
  from step.prems(1) step.hyps show ?case
  proof (cases rule: set_segs_cases)
    case 1
    from decodeRune_width [OF step.hyps]
    have w: "length (take (snd (decodeRune s)) s) = snd (decodeRune s)" by simp
    with 1 step.prems(2) have v: "fst (decodeRune s) = runeError \<longrightarrow> snd (decodeRune s) \<noteq> 1"
      by (auto simp: validSeg_def)
    from decodeRune_take [OF v step.hyps] 1 w v decodeRune_width [OF step.hyps] show ?thesis
      by (auto simp: completeRune_def)
  qed (use step in blast)
qed simp

lemma segs_concat_complete:
  "list_all completeRune es \<Longrightarrow>
    segs (concat es @ t) = map (\<lambda>e. (fst (decodeRune e), e)) es @ segs t"
  by (induction es) (simp_all add: completeRune_segs)

lemma validUTF8_concat_complete: "list_all completeRune es \<Longrightarrow> validUTF8 (concat es)"
  using segs_concat_complete [of es "[]"]
  by (auto simp: validUTF8_def list_all_iff validSeg_def completeRune_def)

lemma completeRune_ascii: "bv c < 128 \<Longrightarrow> completeRune [c]"
  by (auto simp: completeRune_def decodeRune.simps(2) runeError_def)

section \<open>ToValidUTF8\<close>

text \<open>\<open>strings.ToValidUTF8\<close>: each maximal run of invalid bytes becomes one replacement. The flag
  says whether the previous segment was invalid.\<close>

fun toValidLoop :: "bytes \<Rightarrow> bool \<Rightarrow> seg list \<Rightarrow> bytes list" where
  "toValidLoop rep flag [] = []"
| "toValidLoop rep flag (x # xs) =
     (if validSeg x then snd x # toValidLoop rep False xs
      else if flag then toValidLoop rep True xs
      else rep # toValidLoop rep True xs)"

definition toValidUTF8 :: "bytes \<Rightarrow> bytes \<Rightarrow> bytes" where
  "toValidUTF8 s rep = concat (toValidLoop rep False (segs s))"

text \<open>The UTF-8 encoding of U+FFFD.\<close>

definition replacementChar :: bytes where
  "replacementChar = [CHR 0xEF, CHR 0xBF, CHR 0xBD]"

lemma completeRune_replacement [simp]: "completeRune replacementChar"
  by (simp add: completeRune_def replacementChar_def decodeRune.simps(2) secondOk_def isCont_def
      runeError_def)

lemma toValidLoop_complete:
  assumes "completeRune rep" and "\<And>x. x \<in> set xs \<Longrightarrow> validSeg x \<Longrightarrow> completeRune (snd x)"
  shows "list_all completeRune (toValidLoop rep flag xs)"
  using assms by (induction rep flag xs rule: toValidLoop.induct) auto

lemma toValidUTF8_valid: "completeRune rep \<Longrightarrow> validUTF8 (toValidUTF8 s rep)"
  unfolding toValidUTF8_def
  using validSeg_complete by (intro validUTF8_concat_complete toValidLoop_complete) blast+

lemma toValidLoop_id: "list_all validSeg xs \<Longrightarrow> toValidLoop rep flag xs = map snd xs"
  by (induction rep flag xs rule: toValidLoop.induct) auto

lemma toValidUTF8_id: "validUTF8 s \<Longrightarrow> toValidUTF8 s rep = s"
  by (simp add: toValidUTF8_def validUTF8_def toValidLoop_id concat_segs)

section \<open>Encoding, quoting, trimming\<close>

text \<open>\<open>utf8.AppendRune\<close> on a code point that is a valid rune.\<close>

definition encodeRune :: "nat \<Rightarrow> bytes" where
  "encodeRune r =
     (if r < 128 then [char_of r]
      else if r < 2048 then [char_of (192 + r div 64), char_of (128 + r mod 64)]
      else if r < 65536 then
        [char_of (224 + r div 4096), char_of (128 + r div 64 mod 64), char_of (128 + r mod 64)]
      else
        [char_of (240 + r div 262144), char_of (128 + r div 4096 mod 64),
         char_of (128 + r div 64 mod 64), char_of (128 + r mod 64)])"

definition hexLower :: "nat \<Rightarrow> char" where
  "hexLower d = ''0123456789abcdef'' ! d"

fun hexPad :: "nat \<Rightarrow> nat \<Rightarrow> bytes" where
  "hexPad 0 n = []"
| "hexPad (Suc k) n = hexPad k (n div 16) @ [hexLower (n mod 16)]"

text \<open>\<open>strconv.Quote\<close>, that is \<open>%q\<close>: \<open>isPrint\<close> stands for the Unicode table
  \<open>unicode.IsPrint\<close> outside ASCII.\<close>

definition quoteSeg :: "(nat \<Rightarrow> bool) \<Rightarrow> seg \<Rightarrow> bytes" where
  "quoteSeg isPrint x =
     (let r = fst x in
      if \<not> validSeg x then [CHR 0x5C, CHR ''x''] @ hexPad 2 (bv (hd (snd x)))
      else if r = 34 \<or> r = 92 then [CHR 0x5C] @ snd x
      else if (if r < 128 then 32 \<le> r \<and> r \<le> 126 else isPrint r) then snd x
      else if r = 7 then [CHR 0x5C, CHR ''a'']
      else if r = 8 then [CHR 0x5C, CHR ''b'']
      else if r = 12 then [CHR 0x5C, CHR ''f'']
      else if r = 10 then [CHR 0x5C, CHR ''n'']
      else if r = 13 then [CHR 0x5C, CHR ''r'']
      else if r = 9 then [CHR 0x5C, CHR ''t'']
      else if r = 11 then [CHR 0x5C, CHR ''v'']
      else if r < 32 \<or> r = 127 then [CHR 0x5C, CHR ''x''] @ hexPad 2 r
      else if r < 65536 then [CHR 0x5C, CHR ''u''] @ hexPad 4 r
      else [CHR 0x5C, CHR ''U''] @ hexPad 8 r)"

definition goQuote :: "(nat \<Rightarrow> bool) \<Rightarrow> bytes \<Rightarrow> bytes" where
  "goQuote isPrint s = [CHR 0x22] @ concat (map (quoteSeg isPrint) (segs s)) @ [CHR 0x22]"

text \<open>\<open>unicode.IsSpace\<close> (Go's \<open>White_Space\<close> table) and \<open>strings.TrimSpace\<close>, which removes
  such runes at both ends.\<close>

definition isSpaceRune :: "nat \<Rightarrow> bool" where
  "isSpaceRune r =
     (r \<in> {9, 10, 11, 12, 13, 32, 133, 160, 5760, 8232, 8233, 8239, 8287, 12288} \<or>
      8192 \<le> r \<and> r \<le> 8202)"

definition spaceSeg :: "seg \<Rightarrow> bool" where
  "spaceSeg x = (validSeg x \<and> isSpaceRune (fst x))"

definition trimSpace :: "bytes \<Rightarrow> bytes" where
  "trimSpace s =
     concat (map snd (rev (dropWhile spaceSeg (rev (dropWhile spaceSeg (segs s))))))"

text \<open>\<open>strings.ToLower\<close>: ASCII letters by arithmetic, other valid runes through \<open>lowerRune\<close>
  (the table \<open>unicode.ToLower\<close>); an invalid byte becomes U+FFFD as in \<open>strings.Map\<close>. A string that
  is ASCII throughout takes the byte path, which the same equation covers.\<close>

definition lowerAscii :: "char \<Rightarrow> char" where
  "lowerAscii c = (if 65 \<le> bv c \<and> bv c \<le> 90 then char_of (bv c + 32) else c)"

definition lowerSeg :: "(nat \<Rightarrow> nat) \<Rightarrow> seg \<Rightarrow> bytes" where
  "lowerSeg lowerRune x =
     (if \<not> validSeg x then replacementChar
      else if fst x < 128 then map lowerAscii (snd x)
      else encodeRune (lowerRune (fst x)))"

definition toLower :: "(nat \<Rightarrow> nat) \<Rightarrow> bytes \<Rightarrow> bytes" where
  "toLower lowerRune s = concat (map (lowerSeg lowerRune) (segs s))"

lemma segs_ascii: "list_all (\<lambda>c. bv c < 128) s \<Longrightarrow> segs s = map (\<lambda>c. (bv c, [c])) s"
proof (induction s)
  case (Cons c s)
  then have "completeRune [c]" by (simp add: completeRune_ascii)
  from completeRune_segs [OF this, of s] Cons show ?case
    by (simp add: decodeRune.simps(2))
qed simp

lemma toLower_ascii: "list_all (\<lambda>c. bv c < 128) s \<Longrightarrow> toLower f s = map lowerAscii s"
  by (simp add: toLower_def segs_ascii)
    (induction s; simp add: lowerSeg_def validSeg_def runeError_def)

end
