(* ===== verification/Errmsg.thy ===== *)
theory Errmsg
  imports GoError Utf8
begin

text \<open>
  \<open>internal/errmsg\<close>: the catalog of model-visible errors, one constructor function per row with
  its message template, \<open>Code\<close>, \<open>FormatDirs\<close> and \<open>FormatLines\<close>. \<open>isPrint\<close> in \<open>EWindowsPath\<close> is
  the Unicode table behind \<open>%q\<close>.
\<close>

fun sentinelName :: "sentinel \<Rightarrow> bytes" where
  "sentinelName ErrNulByte = ''ENulByte''"
| "sentinelName ErrWindowsPath = ''EWindowsPath''"
| "sentinelName ErrRelative = ''ERelative''"
| "sentinelName ErrOutside = ''EOutside''"
| "sentinelName ErrParentMissing = ''EParentMissing''"
| "sentinelName ErrNotExist = ''ENotExist''"
| "sentinelName ErrIsDir = ''EIsDir''"
| "sentinelName ErrNoMatch = ''ENoMatch''"
| "sentinelName ErrAmbiguous = ''EAmbiguous''"
| "sentinelName ErrNoop = ''ENoop''"
| "sentinelName ErrEmptyOld = ''EEmptyOld''"
| "sentinelName ErrStaleRead = ''EStaleRead''"
| "sentinelName ErrBackend = ''EBackend''"
| "sentinelName ErrEditIndex = ''EEditIndex''"
| "sentinelName ErrNotDir = ''ENotDir''"
| "sentinelName ErrInvalidBatch = ''EInvalidBatch''"
| "sentinelName ErrBusy = ''EBusy''"
| "sentinelName ErrInvalidURL = ''EInvalidURL''"
| "sentinelName ErrSSRFBlocked = ''ESSRFBlocked''"
| "sentinelName ErrRedirectLimit = ''ERedirectLimit''"
| "sentinelName ErrHTTPStatus = ''EHTTPStatus''"
| "sentinelName ErrDownload = ''EDownload''"
| "sentinelName ErrTimeout = ''ETimeout''"
| "sentinelName ErrTooLarge = ''ETooLarge''"
| "sentinelName ErrImageType = ''EImageType''"
| "sentinelName ErrDuplicateTarget = ''EDuplicateTarget''"
| "sentinelName ErrExistsConflict = ''EExistsConflict''"
| "sentinelName ErrTargetChanged = ''ETargetChanged''"

definition CodeTempCleanup :: bytes where
  "CodeTempCleanup = ''ETempCleanup''"

definition CodeAtomicDegraded :: bytes where
  "CodeAtomicDegraded = ''EAtomicDegraded''"

definition errmsgMaxAmbiguousLines :: nat where
  "errmsgMaxAmbiguousLines = 5"

definition FormatDirs :: "bytes list \<Rightarrow> bytes" where
  "FormatDirs dirs = join dirs '', ''"

definition FormatLines :: "nat list \<Rightarrow> bytes" where
  "FormatLines lines =
     (let m = errmsgMaxAmbiguousLines;
          shown = (if length lines > m then take m lines else lines);
          rest = (if length lines > m then length lines - m else 0);
          parts = map (\<lambda>n. itoa (int n)) shown;
          parts' = (if rest > 0 then parts @ [''+'' @ itoa (int rest) @ '' more''] else parts)
      in join parts' '', '')"

definition ENulByte :: goerr where
  "ENulByte = Catalog ErrNulByte ''path contains a NUL byte'' None"

definition EWindowsPath :: "(nat \<Rightarrow> bool) \<Rightarrow> bytes \<Rightarrow> bytes list \<Rightarrow> goerr" where
  "EWindowsPath isPrint path allowedDirs = Catalog ErrWindowsPath
     (''path '' @ goQuote isPrint path @
      '' looks like a Windows path; this server uses POSIX absolute paths (allowed: '' @
      FormatDirs allowedDirs @ '')'') None"

definition ERelative :: "bytes list \<Rightarrow> goerr" where
  "ERelative allowedDirs = Catalog ErrRelative
     (''path is not absolute; use an absolute path (allowed: '' @ FormatDirs allowedDirs @ '')'') None"

definition EOutside :: "bytes \<Rightarrow> bytes list \<Rightarrow> goerr" where
  "EOutside path allowedDirs = Catalog ErrOutside
     (''path '' @ path @ '' is outside the allowed directories: '' @ FormatDirs allowedDirs) None"

definition EParentMissing :: "bytes \<Rightarrow> goerr" where
  "EParentMissing parent = Catalog ErrParentMissing
     (''parent directory does not exist: '' @ parent) None"

definition ENotExist :: "bytes \<Rightarrow> goerr" where
  "ENotExist path = Catalog ErrNotExist (''file does not exist: '' @ path) None"

definition EIsDir :: "bytes \<Rightarrow> goerr" where
  "EIsDir path = Catalog ErrIsDir (''path is a directory, not a file: '' @ path) None"

definition ENoMatch :: "bytes \<Rightarrow> goerr" where
  "ENoMatch path = Catalog ErrNoMatch
     (''old_string not found in '' @ path @
      ''. Read the file and copy old_string exactly, including all whitespace and indentation. No fuzzy matching is performed.'')
     None"

definition EAmbiguous :: "nat \<Rightarrow> nat list \<Rightarrow> bytes \<Rightarrow> goerr" where
  "EAmbiguous count lines path = Catalog ErrAmbiguous
     (''old_string matches '' @ itoa (int count) @ '' times in '' @ path @ '' (first at line(s) '' @
      FormatLines lines @
      ''). Include more surrounding context in old_string to make it unique, or set replace_all=true.'')
     None"

definition ENoop :: goerr where
  "ENoop = Catalog ErrNoop ''old_string is identical to new_string; nothing to do'' None"

definition EEmptyOld :: goerr where
  "EEmptyOld = Catalog ErrEmptyOld
     ''old_string is empty; it would match everywhere. Provide the exact text to replace.'' None"

definition EStaleRead :: "bytes \<Rightarrow> goerr" where
  "EStaleRead path = Catalog ErrStaleRead
     (''file changed since last read; read it again before editing: '' @ path) None"

definition EStaleReadNeverRead :: "bytes \<Rightarrow> goerr" where
  "EStaleReadNeverRead path = Catalog ErrStaleRead
     (''file has not been read in this session; read it before writing: '' @ path) None"

definition EBackend :: "goerr \<Rightarrow> goerr" where
  "EBackend cause = Catalog ErrBackend
     (''storage backend is unreachable or waking up (CIFS soft mount): '' @ errText cause @
      ''. Retry shortly; if it persists, check the share server.'') (Some cause)"

definition EEditIndex :: "nat \<Rightarrow> goerr \<Rightarrow> goerr" where
  "EEditIndex i cause = Catalog ErrEditIndex
     (''edit #'' @ itoa (int i) @ '' failed: '' @ errText cause) (Some cause)"

definition ENotDir :: "bytes \<Rightarrow> goerr" where
  "ENotDir path = Catalog ErrNotDir (''path exists and is not a directory: '' @ path) None"

definition EInvalidBatch :: "bytes \<Rightarrow> goerr" where
  "EInvalidBatch detail = Catalog ErrInvalidBatch (''invalid upload batch: '' @ detail) None"

definition EBusy :: goerr where
  "EBusy = Catalog ErrBusy
     ''too many concurrent upload batches; retry after the in-flight batches finish'' None"

definition EInvalidURL :: "bytes \<Rightarrow> goerr" where
  "EInvalidURL reason = Catalog ErrInvalidURL (''invalid download URL: '' @ reason) None"

definition ESSRFBlocked :: "bytes \<Rightarrow> goerr" where
  "ESSRFBlocked host = Catalog ErrSSRFBlocked
     (''download blocked by address policy: '' @ host @ '' does not resolve to a public address'') None"

definition ERedirectLimit :: goerr where
  "ERedirectLimit = Catalog ErrRedirectLimit ''too many redirects (limit 3)'' None"

definition EHTTPStatus :: "int \<Rightarrow> goerr" where
  "EHTTPStatus status = Catalog ErrHTTPStatus (''remote server returned HTTP '' @ itoa status) None"

definition EDownload :: "bytes \<Rightarrow> goerr" where
  "EDownload stage = Catalog ErrDownload (''download failed: '' @ stage) None"

definition ETimeout :: "bytes \<Rightarrow> goerr" where
  "ETimeout stage = Catalog ErrTimeout (''timed out during '' @ stage) None"

definition ETooLarge :: "int \<Rightarrow> goerr" where
  "ETooLarge limit = Catalog ErrTooLarge
     (''image exceeds the per-image byte limit ('' @ itoa limit @ '' bytes)'') None"

definition EImageType :: "bytes \<Rightarrow> goerr" where
  "EImageType reason = Catalog ErrImageType
     (''content is not an accepted image type: '' @ reason) None"

definition EDuplicateTarget :: "bytes \<Rightarrow> goerr" where
  "EDuplicateTarget path = Catalog ErrDuplicateTarget
     (''duplicate target path in this batch: '' @ path) None"

definition EExistsConflict :: "bytes \<Rightarrow> goerr" where
  "EExistsConflict path = Catalog ErrExistsConflict
     (''target exists with different content; upload never overwrites: '' @ path) None"

definition ETargetChanged :: "bytes \<Rightarrow> goerr" where
  "ETargetChanged path = Catalog ErrTargetChanged
     (''target changed while being compared; retry the upload: '' @ path) None"

text \<open>\<open>Code\<close>: the name of the first catalog error in the chain, or the empty string.\<close>

definition Code :: "goerr \<Rightarrow> bytes" where
  "Code err = (case asCatalog err of Some s \<Rightarrow> sentinelName s | None \<Rightarrow> [])"

lemmas errmsg_defs =
  ENulByte_def EWindowsPath_def ERelative_def EOutside_def EParentMissing_def ENotExist_def
  EIsDir_def ENoMatch_def EAmbiguous_def ENoop_def EEmptyOld_def EStaleRead_def
  EStaleReadNeverRead_def EBackend_def EEditIndex_def ENotDir_def EInvalidBatch_def EBusy_def
  EInvalidURL_def ESSRFBlocked_def ERedirectLimit_def EHTTPStatus_def EDownload_def ETimeout_def
  ETooLarge_def EImageType_def EDuplicateTarget_def EExistsConflict_def ETargetChanged_def

lemma sentinelName_inject: "sentinelName a = sentinelName b \<longleftrightarrow> a = b"
  by (cases a; cases b) simp_all

lemma FormatLines_short:
  "length lines \<le> 5 \<Longrightarrow> FormatLines lines = join (map (\<lambda>n. itoa (int n)) lines) '', ''"
  by (simp add: FormatLines_def errmsgMaxAmbiguousLines_def Let_def)

end
