(* ===== verification/Pathguard.thy ===== *)
theory Pathguard
  imports RootPool Errmsg
begin

text \<open>
  \<open>internal/pathguard/pathguard.go\<close>: the validation pipeline over the effect monad. \<open>EvalSymlinks\<close> is
  Go's \<open>walkSymlinks\<close> on absolute paths: \<open>dest\<close> is the resolved prefix (as components, so that \<open>..\<close>
  drops the last one), \<open>rest\<close> the bytes still to be walked; every \<open>Lstat\<close> and \<open>Readlink\<close> is a system
  call of its own, so other processes may act between them. What the operating system tells about users
  is the record \<open>hostEnv\<close>, together with the Unicode tables of the standard library.
\<close>

record hostEnv =
  env_userHomeDir :: "bytes option"
  env_lookupUser :: "bytes \<Rightarrow> bytes option"
  env_cwd :: bytes
  env_isPrint :: "nat \<Rightarrow> bool"
  env_lowerRune :: "nat \<Rightarrow> nat"

record Guard =
  dirs :: "bytes list"

definition lstat :: "bytes \<Rightarrow> finfo ioe" where
  "lstat p = syscall (atKernel False p opStat)"

definition stat :: "bytes \<Rightarrow> finfo ioe" where
  "stat p = syscall (atKernel True p opStat)"

definition readlink :: "bytes \<Rightarrow> bytes ioe" where
  "readlink p = syscall (atKernel False p opReadlink)"

definition maxLinksWalked :: nat where
  "maxLinksWalked = 255"

text \<open>The next component of a path that is being walked, and what follows it.\<close>

definition firstComp :: "bytes \<Rightarrow> bytes" where
  "firstComp path = takeWhile (\<lambda>c. c \<noteq> slash) (dropWhile (\<lambda>c. c = slash) path)"

definition afterComp :: "bytes \<Rightarrow> bytes" where
  "afterComp path = dropWhile (\<lambda>c. c \<noteq> slash) (dropWhile (\<lambda>c. c = slash) path)"

lemma firstComp_dropWhile: "firstComp path \<noteq> [] \<Longrightarrow> \<exists>x xs. dropWhile (\<lambda>c. c = slash) path = x # xs \<and> x \<noteq> slash"
  by (cases "dropWhile (\<lambda>c. c = slash) path") (auto simp: firstComp_def dropWhile_eq_Cons_conv)

lemma length_afterComp: "firstComp path \<noteq> [] \<Longrightarrow> length (afterComp path) < length path"
proof -
  assume "firstComp path \<noteq> []"
  then obtain x xs where d: "dropWhile (\<lambda>c. c = slash) path = x # xs" "x \<noteq> slash"
    using firstComp_dropWhile by blast
  then have "length (afterComp path) \<le> length xs"
    by (simp add: afterComp_def length_dropWhile_le)
  also have "\<dots> < length path" using length_dropWhile_le [of "\<lambda>c. c = slash" path] d by simp
  finally show ?thesis .
qed

function walkSymlinks :: "nat \<Rightarrow> bytes list \<Rightarrow> bytes \<Rightarrow> bytes list ioe" where
  "walkSymlinks linksWalked dest path =
     (if firstComp path = [] then ok dest
      else if firstComp path = dot then walkSymlinks linksWalked dest (afterComp path)
      else if firstComp path = dotdot then walkSymlinks linksWalked (butlast dest) (afterComp path)
      else
        bindE (lstat (absPath (dest @ [firstComp path]))) (\<lambda>fi.
        if fi_kind fi \<noteq> KLink then
          (if \<not> IsDir fi \<and> afterComp path \<noteq> [] then failErrno ENOTDIR
           else walkSymlinks linksWalked (dest @ [firstComp path]) (afterComp path))
        else if linksWalked + 1 > maxLinksWalked then err (PlainErr ''EvalSymlinks: too many links'')
        else
          bindE (readlink (absPath (dest @ [firstComp path]))) (\<lambda>link.
          walkSymlinks (linksWalked + 1) (if isAbs link then [] else dest) (link @ afterComp path))))"
  by pat_completeness auto
termination
  by (relation "measures [\<lambda>(n, dest, path). maxLinksWalked - n, \<lambda>(n, dest, path). length path]")
    (auto simp: length_afterComp)

declare walkSymlinks.simps [simp del]

definition EvalSymlinks :: "bytes \<Rightarrow> bytes ioe" where
  "EvalSymlinks path = bindE (walkSymlinks 0 [] path) (\<lambda>dest. ok (Clean (absPath dest)))"

text \<open>The regular expression \<open>^[A-Za-z]:[\/]\<close> of the drive-letter check, with both slashes.\<close>

fun windowsDriveRe :: "bytes \<Rightarrow> bool" where
  "windowsDriveRe (a # b # c # rest) =
     ((of_char a \<in> {65..90::nat} \<or> of_char a \<in> {97..122::nat}) \<and> b = CHR 0x3A \<and> (c = CHR 0x5C \<or> c = CHR 0x2F))"
| "windowsDriveRe p = False"

definition tilde :: char where
  "tilde = CHR 0x7E"

definition expandTilde :: "hostEnv \<Rightarrow> bytes \<Rightarrow> bytes" where
  "expandTilde env p =
     (if p = [tilde] then
        (case env_userHomeDir env of Some home \<Rightarrow> home | None \<Rightarrow> p)
      else if hasPrefix p [tilde, slash] then
        (case env_userHomeDir env of Some home \<Rightarrow> Join [home, drop 2 p] | None \<Rightarrow> p)
      else if length p > 1 \<and> hd p = tilde then
        (let rest = tl p;
             (name, tail) = (case index rest [slash] of
                Some i \<Rightarrow> (take i rest, drop i rest)
              | None \<Rightarrow> (rest, []))
         in if name \<noteq> [] then
              (case env_lookupUser env name of
                 Some homeDir \<Rightarrow> if homeDir \<noteq> [] then Join [homeDir, tail] else p
               | None \<Rightarrow> p)
            else p)
      else p)"

definition within :: "bytes \<Rightarrow> bytes \<Rightarrow> bool" where
  "within dir path =
     (if dir = [slash] then path = [slash] \<or> hasPrefix path [slash]
      else path = dir \<or> hasPrefix path (dir @ [slash]))"

fun anyWithinLoop :: "bytes \<Rightarrow> bytes list \<Rightarrow> bool" where
  "anyWithinLoop path [] = False"
| "anyWithinLoop path (dir # ds) = (if within dir path then True else anyWithinLoop path ds)"

definition anyWithin :: "Guard \<Rightarrow> bytes \<Rightarrow> bool" where
  "anyWithin g path = anyWithinLoop path (dirs g)"

definition validateNewPath :: "Guard \<Rightarrow> bytes \<Rightarrow> bytes ioe" where
  "validateNewPath g p =
     (let parent = Dir p in
      EvalSymlinks parent \<bind> (\<lambda>r.
      case r of
        Inl e \<Rightarrow> err (EParentMissing parent)
      | Inr parentReal \<Rightarrow>
          if \<not> anyWithin g parentReal then err (EOutside parentReal (dirs g))
          else ok (Join [parentReal, Base p])))"

definition Validate :: "hostEnv \<Rightarrow> Guard \<Rightarrow> bytes \<Rightarrow> bytes ioe" where
  "Validate env g rawPath =
     (if contains rawPath [CHR 0x00] then err ENulByte
      else
        (let p = expandTilde env rawPath in
         if windowsDriveRe p then err (EWindowsPath (env_isPrint env) p (dirs g))
         else if \<not> isAbs p then err (ERelative (dirs g))
         else
           (let p = Clean p; p = Abs (env_cwd env) p in
            EvalSymlinks p \<bind> (\<lambda>r.
            case r of
              Inl e \<Rightarrow> if isNotExist e then validateNewPath g p else err (ENotExist p)
            | Inr real \<Rightarrow>
                if \<not> anyWithin g real then err (EOutside real (dirs g)) else ok real))))"

text \<open>The loop of \<open>New\<close>; \<open>acc\<close> is \<open>dirs\<close>, whose elements are the keys of \<open>seen\<close>.\<close>

fun newLoop :: "hostEnv \<Rightarrow> bytes list \<Rightarrow> bytes list \<Rightarrow> Guard ioe" where
  "newLoop env acc [] = ok \<lparr>dirs = acc\<rparr>"
| "newLoop env acc (dir # ds) =
     (let wrap = (\<lambda>e. WrapErr (''pathguard: allowed dir '' @ goQuote (env_isPrint env) dir @ '': '' @ errText e) e)
      in bindE (mapErr wrap (EvalSymlinks (Abs (env_cwd env) dir))) (\<lambda>real.
         bindE (mapErr wrap (stat real)) (\<lambda>info.
         if \<not> IsDir info then
           err (PlainErr (''pathguard: allowed dir '' @ goQuote (env_isPrint env) dir @ '' is not a directory''))
         else newLoop env (if real \<notin> set acc then acc @ [real] else acc) ds)))"

definition New :: "hostEnv \<Rightarrow> bytes list \<Rightarrow> Guard ioe" where
  "New env allowedDirs =
     (if allowedDirs = [] then err (PlainErr ''pathguard: at least one allowed directory is required'')
      else newLoop env [] allowedDirs)"

definition AllowedDirs :: "Guard \<Rightarrow> bytes list" where
  "AllowedDirs g = dirs g"

interpretation guard: scope_check within
  by unfold_locales (simp only: within_def prefix_comparison_iff)

section \<open>Resolved paths are canonical\<close>

lemma okComp_firstComp:
  "firstComp path \<noteq> [] \<Longrightarrow> firstComp path \<noteq> dot \<Longrightarrow> firstComp path \<noteq> dotdot \<Longrightarrow> okComp (firstComp path)"
  by (auto simp: okComp_def firstComp_def dest: set_takeWhileD)

text \<open>The induction that proofs about a run of the walk use: a successful run either is done, or skips a
  dot, or goes up, or enters a component that is no link, or follows a link.\<close>

lemma walkSymlinks_run_induct [consumes 1, case_names end_of dot up enter link]:
  assumes run: "run_state (walkSymlinks n dest path) h = (Inr ds, h')"
    and "\<And>n path h. firstComp path = [] \<Longrightarrow> P n ds path h"
    and "\<And>n dest path h. firstComp path = dot \<Longrightarrow> P n dest (afterComp path) h \<Longrightarrow> P n dest path h"
    and "\<And>n dest path h. firstComp path = dotdot \<Longrightarrow> P n (butlast dest) (afterComp path) h \<Longrightarrow>
      P n dest path h"
    and "\<And>n dest path h fi h1. okComp (firstComp path) \<Longrightarrow>
      run_state (lstat (absPath (dest @ [firstComp path]))) h = (Inr fi, h1) \<Longrightarrow> fi_kind fi \<noteq> KLink \<Longrightarrow>
      IsDir fi \<or> afterComp path = [] \<Longrightarrow> P n (dest @ [firstComp path]) (afterComp path) h1 \<Longrightarrow>
      P n dest path h"
    and "\<And>n dest path h fi h1 link h2. okComp (firstComp path) \<Longrightarrow>
      run_state (lstat (absPath (dest @ [firstComp path]))) h = (Inr fi, h1) \<Longrightarrow> fi_kind fi = KLink \<Longrightarrow>
      run_state (readlink (absPath (dest @ [firstComp path]))) h1 = (Inr link, h2) \<Longrightarrow>
      P (n + 1) (if isAbs link then [] else dest) (link @ afterComp path) h2 \<Longrightarrow> P n dest path h"
  shows "P n dest path h"
  using run
proof (induction n dest path arbitrary: h rule: walkSymlinks.induct)
  case (1 n dest path)
  show ?case
  proof (cases "firstComp path = [] \<or> firstComp path = dot \<or> firstComp path = dotdot")
    case True
    with 1 assms(2,3,4) show ?thesis
      by (subst (asm) (3) walkSymlinks.simps) (auto split: if_splits)
  next
    case False
    then have c: "okComp (firstComp path)" by (auto intro: okComp_firstComp)
    obtain r1 h1 where l: "run_state (lstat (absPath (dest @ [firstComp path]))) h = (r1, h1)" by fastforce
    with "1.prems" False obtain fi where r1: "r1 = Inr fi"
      by (subst (asm) walkSymlinks.simps) (auto simp: run_bindE split: sum.splits)
    show ?thesis
    proof (cases "fi_kind fi = KLink")
      case no_link: False
      with "1.prems" False l r1
      have "IsDir fi \<or> afterComp path = []"
        "run_state (walkSymlinks n (dest @ [firstComp path]) (afterComp path)) h1 = (Inr ds, h')"
        by (subst (asm) walkSymlinks.simps, auto simp: run_bindE failErrno_def split: if_splits)+
      with assms(5) [OF c l [unfolded r1] no_link] "1.IH"(3) False no_link show ?thesis by blast
    next
      case link: True
      obtain r2 h2 where l2: "run_state (readlink (absPath (dest @ [firstComp path]))) h1 = (r2, h2)"
        by fastforce
      with "1.prems" False l r1 link obtain t where t: "r2 = Inr t" "\<not> n + 1 > maxLinksWalked"
        "run_state (walkSymlinks (n + 1) (if isAbs t then [] else dest) (t @ afterComp path)) h2 = (Inr ds, h')"
        by (subst (asm) walkSymlinks.simps)
          (auto simp: run_bindE simp del: isAbs_iff split: sum.splits if_splits)
      show ?thesis
        by (rule assms(6) [OF c l [unfolded r1] link l2 [unfolded t(1)]])
          (rule "1.IH"(4), use False link t in auto)
    qed
  qed
qed

lemma walkSymlinks_ok:
  assumes "run_state (walkSymlinks n dest path) h = (Inr ds, h')" and "list_all okComp dest"
  shows "list_all okComp ds"
  using assms
proof (induction rule: walkSymlinks_run_induct)
  case (up n dest path h)
  then show ?case by (auto simp: list_all_iff dest: in_set_butlastD)
qed auto

lemma EvalSymlinks_canon:
  assumes "run_state (EvalSymlinks p) h = (Inr q, h')"
  shows "canonPath q"
proof -
  from assms obtain ds where ds: "run_state (walkSymlinks 0 [] p) h = (Inr ds, h')" "q = Clean (absPath ds)"
    by (auto simp: EvalSymlinks_def run_bindE split: prod.splits sum.splits)
  then have "list_all okComp ds" by (auto dest: walkSymlinks_ok)
  with ds(2) show ?thesis by (simp add: Clean_canon)
qed

lemma EvalSymlinks_root: "run_state (EvalSymlinks [slash]) h = (Inr [slash], h)"
  by (simp add: EvalSymlinks_def run_bindE walkSymlinks.simps [of 0 "[]" "[slash]"] firstComp_def
      Clean_canon [OF canonPath_absPath [of "[]"], simplified])

lemma anyWithin_iff:
  "list_all canonPath (dirs g) \<Longrightarrow> canonPath p \<Longrightarrow>
    anyWithin g p \<longleftrightarrow> list_ex (\<lambda>d. prefix (pathComps d) (pathComps p)) (dirs g)"
proof -
  have "anyWithinLoop p ds \<longleftrightarrow> list_ex (\<lambda>d. within d p) ds" for ds
    by (induction ds) auto
  then show "list_all canonPath (dirs g) \<Longrightarrow> canonPath p \<Longrightarrow> ?thesis"
    by (auto simp: anyWithin_def list_ex_iff list_all_iff guard.inside_iff)
qed

text \<open>The scope that a validated path has.\<close>

definition inScope :: "bytes list \<Rightarrow> bytes \<Rightarrow> bool" where
  "inScope ds p \<longleftrightarrow> canonPath p \<and> list_ex (\<lambda>d. prefix (pathComps d) (pathComps p)) ds"

lemma inScope_child:
  assumes "inScope ds (absPath cs)" and "list_all okComp (cs @ [c])"
  shows "inScope ds (absPath (cs @ [c]))"
  using assms by (auto simp: inScope_def list_ex_iff)

lemma validateNewPath_inScope:
  assumes "list_all canonPath (dirs g)" and "canonPath p" and "p \<noteq> [slash]"
    and "run_state (validateNewPath g p) h = (Inr r, h')"
  shows "inScope (dirs g) r"
proof -
  obtain ps where ps: "list_all okComp ps" "p = absPath ps" using assms(2) by (rule canonPathE)
  with assms(3) obtain qs c where qs: "ps = qs @ [c]" by (cases ps rule: rev_cases) auto
  with ps have b: "Dir p = absPath qs" "Base p = c" "okComp c"
    using Dir_absPath [of qs c] Base_absPath [of qs c] by auto
  obtain r1 h1 where e: "run_state (EvalSymlinks (absPath qs)) h = (r1, h1)" by fastforce
  with assms(4) b obtain par where par: "r1 = Inr par" "anyWithin g par" "r = Join [par, c]"
    by (auto simp: validateNewPath_def Let_def simp del: Join.simps split: sum.splits if_splits)
  from e have "canonPath par" by (simp add: par EvalSymlinks_canon)
  then obtain rs where rs: "list_all okComp rs" "par = absPath rs" by (rule canonPathE)
  with par(2) assms(1) have "inScope (dirs g) (absPath rs)"
    by (simp add: inScope_def anyWithin_iff)
  moreover have "list_all okComp (rs @ [c])" using rs b by simp
  ultimately show ?thesis using par(3) rs(2) by (simp only: Join_absPath inScope_child)
qed

lemma Validate_inScope:
  assumes "list_all canonPath (dirs g)" and "run_state (Validate env g raw) h = (Inr r, h')"
  shows "inScope (dirs g) r"
proof -
  let ?p = "expandTilde env raw"
  from assms(2) have abs: "isAbs ?p"
    by (auto simp: Validate_def Let_def simp del: isAbs_iff split: if_splits)
  define p where "p = Clean ?p"
  have p: "canonPath p" using abs by (simp add: p_def canonPath_Clean del: isAbs_iff)
  then have a: "Abs (env_cwd env) (Clean ?p) = p"
    by (auto simp: Abs_def Clean_canon simp flip: p_def) (auto simp: canonPath_def absPath_def)
  from assms(2) abs have run: "run_state (EvalSymlinks p \<bind> (\<lambda>r. case r of
        Inl e \<Rightarrow> if isNotExist e then validateNewPath g p else err (ENotExist p)
      | Inr real \<Rightarrow> if \<not> anyWithin g real then err (EOutside real (dirs g)) else ok real)) h = (Inr r, h')"
    unfolding Validate_def Let_def a by (auto simp del: isAbs_iff split: if_splits)
  obtain r1 h1 where e: "run_state (EvalSymlinks p) h = (r1, h1)" by fastforce
  show ?thesis
  proof (cases r1)
    case (Inl x)
    with e have "p \<noteq> [slash]" by (auto simp: EvalSymlinks_root)
    moreover from run e Inl have "run_state (validateNewPath g p) h1 = (Inr r, h')"
      by (auto split: if_splits)
    ultimately show ?thesis using validateNewPath_inScope [OF assms(1) p] by blast
  next
    case (Inr real)
    with run e have "anyWithin g real" "r = real" by (auto split: if_splits)
    moreover from e Inr have "canonPath real" by (simp add: EvalSymlinks_canon)
    ultimately show ?thesis using assms(1) by (simp add: inScope_def anyWithin_iff)
  qed
qed

section \<open>Resolution on a quiet machine\<close>

section \<open>Relations through the validation\<close>

text \<open>The only calls that the validation makes are \<open>lstat\<close> and \<open>readlink\<close>.\<close>

locale walk_rel = step_rel +
  assumes walk_lstat: "state_io_rel R (lstat p)"
    and walk_readlink: "state_io_rel R (readlink p)"
begin

lemma rel_walkSymlinks: "state_io_rel R (walkSymlinks n dest path)"
proof (induction n dest path rule: walkSymlinks.induct)
  case (1 n dest path)
  show ?case
    by (subst walkSymlinks.simps)
      (intro rel_if rel_bindE rel_ok rel_err rel_failErrno walk_lstat walk_readlink 1; assumption)
qed

lemma rel_EvalSymlinks: "state_io_rel R (EvalSymlinks p)"
  unfolding EvalSymlinks_def by (intro rel_bindE rel_walkSymlinks rel_ok)

lemma rel_Validate: "state_io_rel R (Validate env g raw)"
  unfolding Validate_def validateNewPath_def Let_def by (intro rel_intros rel_EvalSymlinks)

end

text \<open>The walk changes nothing but the clock.\<close>

definition quietStep :: "host \<Rightarrow> host \<Rightarrow> bool" where
  "quietStep h h' \<longleftrightarrow> (h_sched h = [] \<longrightarrow> h_sched h' = [] \<and> nodeAt (h_fs h') = nodeAt (h_fs h))"

interpretation quiet: step_rel quietStep
  by unfold_locales (auto simp: quietStep_def)

lemma quiet_lookup:
  assumes "\<And>p fs. snd (k p fs) = (fs, [])"
  shows "state_io_rel quietStep (syscall (atKernel follow path k))"
proof -
  have "snd (atKernel follow path k fs) = (fs, [])" for fs
    using assms by (simp add: atKernel_def failOp_def split: sum.split)
  then have "state_io_rel quietStep (runOp (atKernel follow path k))"
    unfolding state_io_rel_def runOp_def quietStep_def by (auto split: prod.splits) (metis prod.sel)+
  moreover have "state_io_rel quietStep nextTick"
    by (auto simp: state_io_rel_def nextTick_def quietStep_def applyTick_quiet split: list.split)
  ultimately show ?thesis by (rule quiet.rel_syscall [rotated])
qed

lemma quiet_lstat: "state_io_rel quietStep (lstat p)"
  unfolding lstat_def by (rule quiet_lookup) (auto simp: opStat_def failOp_def okOp_def split: option.split)

lemma quiet_readlink: "state_io_rel quietStep (readlink p)"
  unfolding readlink_def
  by (rule quiet_lookup) (auto simp: opReadlink_def failOp_def okOp_def split: option.split node.split)

interpretation quietwalk: walk_rel quietStep
  by unfold_locales (fact quiet_lstat quiet_readlink)+

lemma EvalSymlinks_quiet:
  assumes "run_state (EvalSymlinks p) h = (r, h')" and "h_sched h = []"
  shows "h_sched h' = [] \<and> nodeAt (h_fs h') = nodeAt (h_fs h)"
  using state_io_relD [OF quietwalk.rel_EvalSymlinks assms(1)] assms(2) by (simp add: quietStep_def)

lemma run_lstat_quiet:
  assumes "h_sched h = []" and "dirsAbove (h_fs h) cs"
  shows "run_state (lstat (absPath cs)) h =
    ((case nodeAt (h_fs h) cs of None \<Rightarrow> Inl (sysErr h ENOENT) | Some n \<Rightarrow> Inr (infoOf (h_fs h) n)),
     applyTick quietTick h)"
  using assms
  by (auto simp: lstat_def run_syscall_quiet runOp_def applyTick_quiet atKernel_def kernelPath_plain
      opStat_def failOp_def okOp_def walkErrToGo_def sysErr_def infoOf_def split: option.splits node.splits)

lemma run_readlink_quiet:
  assumes "h_sched h = []" and "dirsAbove (h_fs h) cs" and "nodeAt (h_fs h) cs = Some (NLink t)"
  shows "run_state (readlink (absPath cs)) h = (Inr t, applyTick quietTick h)"
  using assms
  by (auto simp: readlink_def run_syscall_quiet runOp_def applyTick_quiet atKernel_def kernelPath_plain
      opReadlink_def failOp_def okOp_def walkErrToGo_def)

lemma fi_kind_infoOf: "fi_kind (infoOf fs n) = KLink \<longleftrightarrow> (\<exists>t. n = NLink t)" "IsDir (infoOf fs n) \<longleftrightarrow> (\<exists>i. n = NDir i)"
  by (auto simp: infoOf_def IsDir_def split: node.splits)

lemma quietTick_simps [simp]:
  "h_sched (applyTick quietTick h) = h_sched h"
  "nodeAt (h_fs (applyTick quietTick h)) = nodeAt (h_fs h)"
  "dirsAbove (h_fs (applyTick quietTick h)) cs = dirsAbove (h_fs h) cs"
  "realPath (h_fs (applyTick quietTick h)) cs = realPath (h_fs h) cs"
  "realDir (h_fs (applyTick quietTick h)) cs = realDir (h_fs h) cs"
  by (simp_all add: applyTick_quiet)

text \<open>The walk only ever stands on directories that it reached without links, so that its result has no
  link in it.\<close>

lemma walkSymlinks_real:
  assumes "run_state (walkSymlinks n dest path) h = (Inr ds, h')" and "h_sched h = []"
    and "realDir (h_fs h) dest \<or> (firstComp path = [] \<and> realPath (h_fs h) dest)"
  shows "realPath (h_fs h) ds"
  using assms
proof (induction rule: walkSymlinks_run_induct)
  case (end_of n path h)
  then show ?case by (auto intro: realDir_realPath)
next
  case (dot n dest path h)
  then show ?case by (auto simp: dot_def)
next
  case (up n dest path h)
  then show ?case by (auto simp: dotdot_def intro: realDir_butlast)
next
  case (enter n dest path h fi h1)
  then have d: "realDir (h_fs h) dest" by (auto simp: okComp_def)
  with enter have above: "dirsAbove (h_fs h) (dest @ [firstComp path])" by (simp add: dirsAbove_snoc)
  with enter obtain m where m: "nodeAt (h_fs h) (dest @ [firstComp path]) = Some m"
    "fi = infoOf (h_fs h) m" "h1 = applyTick quietTick h"
    by (auto simp: run_lstat_quiet split: option.splits)
  have "realDir (h_fs h1) (dest @ [firstComp path]) \<or>
      (firstComp (afterComp path) = [] \<and> realPath (h_fs h1) (dest @ [firstComp path]))"
    using enter.hyps(3,4) m above
    by (auto simp: fi_kind_infoOf realDir_def realPath_def firstComp_def)
  with enter m show ?case by simp
next
  case (link n dest path h fi h1 t h2)
  then have d: "realDir (h_fs h) dest" by (auto simp: okComp_def)
  with link have above: "dirsAbove (h_fs h) (dest @ [firstComp path])" by (simp add: dirsAbove_snoc)
  with link obtain t' where m: "nodeAt (h_fs h) (dest @ [firstComp path]) = Some (NLink t')"
    "h1 = applyTick quietTick h"
    by (auto simp: run_lstat_quiet fi_kind_infoOf split: option.splits)
  then have "h2 = applyTick quietTick h1"
    using link.hyps(4) run_readlink_quiet [of h1 "dest @ [firstComp path]" t'] link.prems(1) above by auto
  with link m d show ?case by simp
qed

lemma EvalSymlinks_real:
  assumes "run_state (EvalSymlinks p) h = (Inr q, h')" and "h_sched h = []"
  shows "realPath (h_fs h) (pathComps q)"
proof -
  from assms(1) obtain ds where ds: "run_state (walkSymlinks 0 [] p) h = (Inr ds, h')" "q = Clean (absPath ds)"
    by (auto simp: EvalSymlinks_def run_bindE split: prod.splits sum.splits)
  from walkSymlinks_real [OF ds(1) assms(2)] have "realPath (h_fs h) ds" by simp
  moreover have "list_all okComp ds" using ds(1) by (rule walkSymlinks_ok) simp
  ultimately show ?thesis by (simp add: ds(2) Clean_canon)
qed

text \<open>A path without links is its own resolution.\<close>

lemma firstComp_join:
  "list_all okComp (c # cs) \<Longrightarrow> firstComp (slash # join (c # cs) [slash]) = c \<and>
     afterComp (slash # join (c # cs) [slash]) = (if cs = [] then [] else slash # join cs [slash])"
proof -
  assume ok: "list_all okComp (c # cs)"
  then obtain x xs where c: "c = x # xs" "x \<noteq> slash" by (cases c) (auto simp: okComp_def)
  have ns: "\<forall>y \<in> set c. y \<noteq> slash" using ok by (auto simp: okComp_def)
  show ?thesis
  proof (cases "cs = []")
    case True
    with c ns show ?thesis by (auto simp: firstComp_def afterComp_def takeWhile_eq_all_conv dropWhile_eq_Nil_conv)
  next
    case False
    have "dropWhile (\<lambda>c. c = slash) (slash # join (c # cs) [slash]) = c @ slash # join cs [slash]"
      using c False by (simp add: join_Cons)
    with ns False show ?thesis
      by (simp add: firstComp_def afterComp_def takeWhile_append2 dropWhile_append2)
  qed
qed

lemma walkSymlinks_id:
  assumes "realPath (h_fs h) (dest @ cs)" and "h_sched h = []" and "list_all okComp cs"
  shows "\<exists>h'. run_state (walkSymlinks n dest (if cs = [] then [] else slash # join cs [slash])) h = (Inr (dest @ cs), h') \<and>
    h_sched h' = [] \<and> nodeAt (h_fs h') = nodeAt (h_fs h)"
  using assms
proof (induction cs arbitrary: dest h)
  case Nil
  then show ?case by (simp add: walkSymlinks.simps [of n dest "[]"] firstComp_def)
next
  case (Cons c cs)
  note fc = firstComp_join [OF Cons.prems(3)]
  have c: "c \<noteq> []" "c \<noteq> dot" "c \<noteq> dotdot" using Cons.prems(3) by (auto simp: okComp_def)
  have pre: "\<exists>i. nodeAt (h_fs h) (take k (dest @ c # cs)) = Some (NDir i)" if "k < length dest + Suc (length cs)" for k
    using Cons.prems(1) that by (auto simp: realPath_def dirsAbove_def)
  have "\<exists>i. nodeAt (h_fs h) (take k (dest @ [c])) = Some (NDir i)" if "k < length (dest @ [c])" for k
    using pre [of k] that by (auto simp: less_Suc_eq)
  with Cons.prems have above: "dirsAbove (h_fs h) (dest @ [c])"
    by (auto simp: dirsAbove_def realPath_def)
  obtain m where m: "nodeAt (h_fs h) (dest @ [c]) = Some m" "\<And>t. m \<noteq> NLink t" "cs \<noteq> [] \<Longrightarrow> \<exists>i. m = NDir i"
  proof (cases "cs = []")
    case True
    with Cons.prems(1) that show ?thesis by (auto simp: realPath_def)
  next
    case False
    with pre [of "Suc (length dest)"] that show ?thesis by auto
  qed
  have "realPath (h_fs (applyTick quietTick h)) ((dest @ [c]) @ cs)" using Cons.prems(1) by simp
  from Cons.IH [OF this] Cons.prems obtain h' where
    "run_state (walkSymlinks n (dest @ [c]) (if cs = [] then [] else slash # join cs [slash])) (applyTick quietTick h) =
      (Inr (dest @ c # cs), h')" "h_sched h' = []" "nodeAt (h_fs h') = nodeAt (h_fs h)"
    by auto
  moreover have "run_state (walkSymlinks n dest (slash # join (c # cs) [slash])) h =
      run_state (walkSymlinks n (dest @ [c]) (if cs = [] then [] else slash # join cs [slash])) (applyTick quietTick h)"
    using c fc m run_lstat_quiet [OF Cons.prems(2) above]
    by (subst walkSymlinks.simps) (auto simp: run_bindE fi_kind_infoOf)
  ultimately show ?case by auto
qed

lemma EvalSymlinks_id:
  assumes "realPath (h_fs h) cs" and "h_sched h = []"
  shows "\<exists>h'. run_state (EvalSymlinks (absPath cs)) h = (Inr (absPath cs), h') \<and>
    h_sched h' = [] \<and> nodeAt (h_fs h') = nodeAt (h_fs h)"
proof -
  have ok: "list_all okComp cs" using assms(1) by (simp add: realPath_def dirsAbove_def)
  show ?thesis
  proof (cases "cs = []")
    case True
    with assms(2) show ?thesis by (simp add: EvalSymlinks_root)
  next
    case False
    with walkSymlinks_id [of h "[]" cs 0] assms ok show ?thesis
      by (auto simp: EvalSymlinks_def run_bindE absPath_def [symmetric] Clean_canon)
  qed
qed

lemma Validate_abs_step:
  assumes "\<not> contains raw [CHR 0x00]" and "\<not> windowsDriveRe (expandTilde env raw)"
    and "isAbs (expandTilde env raw)"
  shows "Validate env g raw = EvalSymlinks (Clean (expandTilde env raw)) \<bind> (\<lambda>r. case r of
        Inl e \<Rightarrow> if isNotExist e then validateNewPath g (Clean (expandTilde env raw))
                else err (ENotExist (Clean (expandTilde env raw)))
      | Inr real \<Rightarrow> if \<not> anyWithin g real then err (EOutside real (dirs g)) else ok real)"
proof -
  have c: "canonPath (Clean (expandTilde env raw))" using assms(3) by (rule canonPath_Clean)
  then have a: "Abs (env_cwd env) (Clean (expandTilde env raw)) = Clean (expandTilde env raw)"
    by (auto simp: Abs_def Clean_canon) (auto simp: canonPath_def absPath_def)
  show ?thesis using assms unfolding Validate_def Let_def a by (simp del: isAbs_iff)
qed

lemma validateNewPath_real:
  assumes "run_state (validateNewPath g (absPath (qs @ [c]))) h = (Inr r, h')" and "h_sched h = []"
    and "list_all okComp (qs @ [c])"
  shows "realPath (h_fs h) (butlast (pathComps r)) \<and> last (pathComps r) = c"
proof -
  obtain r1 h1 where e: "run_state (EvalSymlinks (absPath qs)) h = (r1, h1)" by fastforce
  with assms(1,3) obtain par where par: "r1 = Inr par" "r = Join [par, c]"
    by (auto simp: validateNewPath_def Let_def Dir_absPath Base_absPath simp del: Join.simps
        split: sum.splits if_splits)
  from e par have "canonPath par" "realPath (h_fs h) (pathComps par)"
    using EvalSymlinks_canon EvalSymlinks_real assms(2) by blast+
  then obtain rs where "list_all okComp rs" "par = absPath rs" "realPath (h_fs h) rs"
    by (auto elim: canonPathE)
  with par(2) assms(3) show ?thesis by (simp add: Join_absPath del: Join.simps)
qed

lemma anyWithin_inScope:
  "list_all canonPath (dirs g) \<Longrightarrow> inScope (dirs g) p \<Longrightarrow> anyWithin g p"
  by (simp add: inScope_def anyWithin_iff)

text \<open>A concrete environment and guard.\<close>

definition demoEnv :: hostEnv where
  "demoEnv = \<lparr>env_userHomeDir = Some ''/d'', env_lookupUser = (\<lambda>_. None), env_cwd = ''/'',
     env_isPrint = (\<lambda>r. 32 \<le> r), env_lowerRune = (\<lambda>r. r)\<rparr>"

definition demoGuard :: Guard where
  "demoGuard = \<lparr>dirs = [''/d'']\<rparr>"

lemma demo_validate:
  "fst (run_state (Validate demoEnv demoGuard ''/l/../l/f'') demoHost) = Inr ''/d/f''"
  by code_simp

section \<open>Properties\<close>

text \<open>C6. Scope: whatever other processes do between the system calls of the validation and whichever
  of them fail, a path that \<open>Validate\<close> returns is a clean absolute path inside one of the allowed
  directories, component by component.\<close>

theorem validate_inside:
  assumes "list_all canonPath (dirs g)" and "run_state (Validate env g rawPath) h = (Inr r, h')"
  shows "r = absPath (pathComps r) \<and> list_all okComp (pathComps r) \<and>
    list_ex (\<lambda>d. prefix (pathComps d) (pathComps r)) (dirs g)"
  using Validate_inScope [OF assms] by (simp add: inScope_def canonPath_def)

lemma validate_inside_witness:
  "\<exists>r h'. run_state (Validate demoEnv demoGuard ''/l/../l/f'') demoHost = (Inr r, h') \<and>
     list_ex (\<lambda>d. prefix (pathComps d) (pathComps r)) [''/d'']"
proof -
  have c: "list_all canonPath (dirs demoGuard)" by code_simp
  from demo_validate obtain h' where "run_state (Validate demoEnv demoGuard ''/l/../l/f'') demoHost = (Inr ''/d/f'', h')"
    by (metis prod.collapse)
  with validate_inside [OF c this] show ?thesis by (auto simp: demoGuard_def)
qed



text \<open>The checks that come before the file system are decided without it, in the order of the
  code: a NUL byte, a drive letter and a path that is not absolute each give their own error and leave
  the machine as it was.\<close>

theorem validate_gates:
  "run_state (Validate env g rawPath) h =
     (if CHR 0x00 \<in> set rawPath then (Inl ENulByte, h)
      else if windowsDriveRe (expandTilde env rawPath)
      then (Inl (EWindowsPath (env_isPrint env) (expandTilde env rawPath) (dirs g)), h)
      else if take 1 (expandTilde env rawPath) \<noteq> [slash] then (Inl (ERelative (dirs g)), h)
      else run_state (EvalSymlinks (Clean (expandTilde env rawPath)) \<bind> (\<lambda>r. case r of
        Inl e \<Rightarrow> if isNotExist e then validateNewPath g (Clean (expandTilde env rawPath))
                else err (ENotExist (Clean (expandTilde env rawPath)))
      | Inr real \<Rightarrow> if \<not> anyWithin g real then err (EOutside real (dirs g)) else ok real)) h)"
proof -
  have a: "take 1 p \<noteq> [slash] \<longleftrightarrow> \<not> isAbs p" for p :: bytes by (cases p) auto
  show ?thesis
    unfolding a using Validate_abs_step [of rawPath env g]
    by (auto simp: contains_single_iff Validate_def Let_def simp del: isAbs_iff)
qed

lemma Validate_real:
  assumes "h_sched h = []" and "list_all canonPath (dirs g)" and "realPath (h_fs h) cs"
    and "list_ex (\<lambda>d. prefix (pathComps d) cs) (dirs g)" and "CHR 0x00 \<notin> set (absPath cs)"
  shows "\<exists>h'. run_state (Validate env g (absPath cs)) h = (Inr (absPath cs), h')"
proof -
  have ok: "list_all okComp cs" using assms(3) by (simp add: realPath_def dirsAbove_def)
  have t: "expandTilde env (absPath cs) = absPath cs"
    by (simp add: expandTilde_def absPath_def tilde_def slash_def)
  have w: "\<not> windowsDriveRe (absPath cs)"
    by (cases "absPath cs" rule: windowsDriveRe.cases) (auto simp: absPath_def slash_def)
  have n: "\<not> contains (absPath cs) [CHR 0x00]" using assms(5) by (simp add: contains_single_iff)
  from EvalSymlinks_id [OF assms(3,1)] obtain h' where
    "run_state (EvalSymlinks (absPath cs)) h = (Inr (absPath cs), h')" by blast
  moreover have "inScope (dirs g) (absPath cs)" using assms(4) ok by (simp add: inScope_def)
  then have "anyWithin g (absPath cs)" using assms(2) by (rule anyWithin_inScope [rotated])
  ultimately show ?thesis
    using Validate_abs_step [of "absPath cs" env g] n w t ok
    by (simp add: Clean_canon) (simp add: absPath_def)
qed

text \<open>Completeness: on a quiet machine an absolute path that exists, is reached without links and
  lies in an allowed directory is accepted and returned unchanged.\<close>

theorem validate_accepts_real:
  assumes "h_sched h = []" and "list_all canonPath (dirs g)" and "realPath (h_fs h) cs"
    and "list_ex (\<lambda>d. prefix (pathComps d) cs) (dirs g)" and "CHR 0x00 \<notin> set (absPath cs)"
  shows "\<exists>h'. run_state (Validate env g (absPath cs)) h = (Inr (absPath cs), h')"
  using assms by (rule Validate_real)

lemma validate_accepts_real_witness:
  "\<exists>h'. run_state (Validate demoEnv demoGuard (absPath [''d'', ''f''])) demoHost = (Inr (absPath [''d'', ''f'']), h')"
proof (rule validate_accepts_real)
  show "h_sched demoHost = []" by (simp add: demoHost_def emptyHost_def)
  show "list_all canonPath (dirs demoGuard)" by code_simp
  show "realPath (h_fs demoHost) [''d'', ''f'']"
    by (auto simp: realPath_def dirsAbove_def demoHost_def emptyFs_def nodeAt_def okComp_def dot_def dotdot_def
        slash_def less_Suc_eq)
  show "list_ex (\<lambda>d. prefix (pathComps d) [''d'', ''f'']) (dirs demoGuard)" by code_simp
  show "CHR 0x00 \<notin> set (absPath [''d'', ''f''])" by code_simp
qed

end
