(* ===== verification/ToolsCore.thy ===== *)
theory ToolsCore
  imports Pathguard
begin

text \<open>
  The shared machinery of \<open>internal/tools\<close> (\<open>server.go\<close>, \<open>write.go\<close>): the methods of \<open>os.Root\<close> as
  system calls, the retry wrappers, the lock order of a handler, error mapping, the temporary file and
  the atomic write. A \<open>Conn\<close> carries the guard and the identity of its session; the process-wide state
  behind it (retrier, roots, locks, markers) is in the \<open>host\<close>.
\<close>

record UploadLimits =
  MaxBatchItems :: nat
  MaxURLBytes :: nat
  MaxConcurrentPerBatch :: nat
  MaxConcurrentBatches :: nat
  MaxImageBytes :: int
  ItemBudget :: nat
  BatchBudget :: nat
  MkdirBudget :: nat

definition DefaultUploadLimits :: UploadLimits where
  "DefaultUploadLimits = \<lparr>MaxBatchItems = 32, MaxURLBytes = 8192, MaxConcurrentPerBatch = 4,
     MaxConcurrentBatches = 4, MaxImageBytes = 20 * 2 ^ 20, ItemBudget = 10000, BatchBudget = 25000,
     MkdirBudget = 25000\<rparr>"

record Conn =
  c_env :: hostEnv
  c_guard :: Guard
  c_token :: bytes
  c_limits :: UploadLimits

definition c_dirs :: "Conn \<Rightarrow> bytes list" where
  "c_dirs c = AllowedDirs (c_guard c)"

definition c_validate :: "Conn \<Rightarrow> bytes \<Rightarrow> bytes ioe" where
  "c_validate c raw = Validate (c_env c) (c_guard c) raw"

section \<open>The methods of os.Root and os.File\<close>

definition rStat :: "bytes list \<Rightarrow> bytes \<Rightarrow> finfo ioe" where
  "rStat base rel = syscall (atRoot base True rel opStat)"

definition rLstat :: "bytes list \<Rightarrow> bytes \<Rightarrow> finfo ioe" where
  "rLstat base rel = syscall (atRoot base False rel opStat)"

definition rReadFile :: "bytes list \<Rightarrow> bytes \<Rightarrow> bytes ioe" where
  "rReadFile base rel = syscall (atRoot base True rel opReadFile)"

definition rCreateExcl :: "bytes list \<Rightarrow> bytes \<Rightarrow> nat \<Rightarrow> handle ioe" where
  "rCreateExcl base rel mode = syscall (atRoot base False rel (opCreateExcl mode))"

definition rOpen :: "bytes list \<Rightarrow> bytes \<Rightarrow> handle ioe" where
  "rOpen base rel = syscall (atRoot base True rel opOpen)"

definition rOpenWrite :: "bytes list \<Rightarrow> bytes \<Rightarrow> handle ioe" where
  "rOpenWrite base rel = syscall (atRoot base True rel opOpenWrite)"

definition rChmod :: "bytes list \<Rightarrow> bytes \<Rightarrow> nat \<Rightarrow> unit ioe" where
  "rChmod base rel mode = syscall (atRoot base True rel (opChmod mode))"

definition rRename :: "bytes list \<Rightarrow> bytes \<Rightarrow> bytes \<Rightarrow> unit ioe" where
  "rRename base old new = syscall (atRoot2 base old new opRename)"

definition rLink :: "bytes list \<Rightarrow> bytes \<Rightarrow> bytes \<Rightarrow> unit ioe" where
  "rLink base old new = syscall (atRoot2 base old new opLink)"

definition rRemove :: "bytes list \<Rightarrow> bytes \<Rightarrow> unit ioe" where
  "rRemove base rel = syscall (atRoot base False rel opRemove)"

definition rMkdir :: "bytes list \<Rightarrow> bytes \<Rightarrow> nat \<Rightarrow> unit ioe" where
  "rMkdir base rel mode = syscall (atRoot base False rel (opMkdir mode))"

definition fWrite :: "handle \<Rightarrow> bytes \<Rightarrow> handle ioe" where
  "fWrite f data = syscallPart (opWrite f data)"

definition fReadRest :: "handle \<Rightarrow> bytes ioe" where
  "fReadRest f = syscall (opReadRest f)"

definition fSync :: "handle \<Rightarrow> unit ioe" where
  "fSync f = syscall (okOp ())"

definition fClose :: "handle \<Rightarrow> unit ioe" where
  "fClose f = syscall (okOp ())"

text \<open>A call whose error is dropped.\<close>

definition ignore :: "'a ioe \<Rightarrow> unit io" where
  "ignore m = m \<bind> (\<lambda>_. ret ())"

section \<open>Retry wrappers and error mapping\<close>

definition onRetry :: "(nat \<Rightarrow> unit ioe) option" where
  "onRetry = Some (\<lambda>_. ReopenAll)"

definition retryPlain :: "'a ioe \<Rightarrow> 'a ioe" where
  "retryPlain op = Do onRetry op"

definition runFS :: "'a ioe \<Rightarrow> 'a ioe" where
  "runFS op = mapErr (\<lambda>e. if Classify e = ClassBackend then EBackend e else e) (Do onRetry op)"

definition runFSContext :: "nat \<Rightarrow> bytes \<Rightarrow> 'a ioe \<Rightarrow> 'a ioe" where
  "runFSContext ctx stage op =
     mapErr (\<lambda>e. if isCtxErr e Canceled \<or> isCtxErr e DeadlineExceeded then ETimeout stage
                 else if Classify e = ClassBackend then EBackend e else e)
       (DoContext (Some ctx) onRetry op)"

definition mapFSErr :: "bytes \<Rightarrow> goerr \<Rightarrow> goerr" where
  "mapFSErr path e =
     (if isNotExist e then ENotExist path
      else if isErrno e EISDIR then EIsDir path
      else if isErrno e ENOTDIR then ENotExist path
      else e)"

definition withPath :: "bytes \<Rightarrow> goerr \<Rightarrow> goerr" where
  "withPath path e = WrapErr (errText e @ '' (file: '' @ path @ '')'') e"

section \<open>Locks\<close>

text \<open>\<open>PathLocks.LockContext\<close> from one handler: it waits until the holder releases, or until the
  context ends; when both are possible Go picks either, which is left to the schedule. Taking the same
  lock twice would block for ever.\<close>

definition acquire :: "lockTable \<Rightarrow> bytes \<Rightarrow> unit io" where
  "acquire tbl path = modify (\<lambda>h. h\<lparr>h_stuck := h_stuck h \<or> (tbl, path) \<in> set (h_held h),
     h_held := (tbl, path) # h_held h\<rparr>)"

definition release :: "lockTable \<Rightarrow> bytes \<Rightarrow> unit io" where
  "release tbl path = modify (\<lambda>h. h\<lparr>h_held := remove1 (tbl, path) (h_held h)\<rparr>)"

definition LockContext :: "nat \<Rightarrow> lockTable \<Rightarrow> bytes \<Rightarrow> unit ioe" where
  "LockContext ctx tbl path =
     nextTick \<bind> (\<lambda>t.
     gets (ctxErrAt (Some ctx)) \<bind> (\<lambda>ended.
     case ended of
       None \<Rightarrow> acquire tbl path \<bind> (\<lambda>_. ok ())
     | Some e \<Rightarrow> if t_fault t = NoFault then acquire tbl path \<bind> (\<lambda>_. ok ()) else err e))"

definition LockFile :: "bytes \<Rightarrow> bytes \<Rightarrow> unit io" where
  "LockFile token path = nextTick \<bind> (\<lambda>_. acquire (SessLocks token) path)"

text \<open>The lock order of every handler: the process-wide path lock, then the session's; both are released
  when the handler returns, in reverse order.\<close>

definition withLocks :: "Conn \<Rightarrow> nat \<Rightarrow> bytes \<Rightarrow> bytes \<Rightarrow> 'a ioe \<Rightarrow> 'a ioe" where
  "withLocks c ctx stage resolved body =
     LockContext ctx PLocks resolved \<bind> (\<lambda>r.
     case r of
       Inl _ \<Rightarrow> err (ETimeout stage)
     | Inr _ \<Rightarrow>
         LockFile (c_token c) resolved \<bind> (\<lambda>_.
         body \<bind> (\<lambda>res.
         release (SessLocks (c_token c)) resolved \<bind> (\<lambda>_.
         release PLocks resolved \<bind> (\<lambda>_. ret res)))))"

section \<open>Session state of the connection\<close>

definition sessCompare :: "Conn \<Rightarrow> bytes \<Rightarrow> int \<Rightarrow> int \<Rightarrow> Status io" where
  "sessCompare c path sz mtime = gets (\<lambda>h. Compare path sz mtime (h_sess h (c_token c)))"

definition sessMarkRead :: "Conn \<Rightarrow> bytes \<Rightarrow> int \<Rightarrow> int \<Rightarrow> unit io" where
  "sessMarkRead c path sz mtime =
     modify (\<lambda>h. h\<lparr>h_sess := (h_sess h)(c_token c := MarkRead path sz mtime (h_sess h (c_token c)))\<rparr>)"

definition sessForget :: "Conn \<Rightarrow> bytes \<Rightarrow> unit io" where
  "sessForget c path =
     modify (\<lambda>h. h\<lparr>h_sess := (h_sess h)(c_token c := Forget path (h_sess h (c_token c)))\<rparr>)"

section \<open>Temporary files and the atomic write\<close>

definition tempPrefix :: bytes where
  "tempPrefix = ''.file-edit-mcp-''"

definition tempAttempts :: nat where
  "tempAttempts = 8"

definition hexEncode :: "bytes \<Rightarrow> bytes" where
  "hexEncode b = concat (map (\<lambda>c. [hexLower (of_char c div 16), hexLower (of_char c mod 16)]) b)"

definition randomSuffix :: "bytes io" where
  "randomSuffix = nextTick \<bind> (\<lambda>t. ret (hexEncode (t_rand t)))"

fun tempLoop :: "bytes list \<Rightarrow> bytes \<Rightarrow> goerr \<Rightarrow> nat \<Rightarrow> (bytes \<times> handle) ioe" where
  "tempLoop base pre lastErr 0 =
     err (WrapErr (''no free temp name after '' @ itoa (int tempAttempts) @ '' attempts: '' @ errText lastErr) lastErr)"
| "tempLoop base pre lastErr (Suc n) =
     randomSuffix \<bind> (\<lambda>suf.
     rCreateExcl base (pre @ suf) 384 \<bind> (\<lambda>r.
     case r of
       Inr f \<Rightarrow> ok (pre @ suf, f)
     | Inl e \<Rightarrow> if \<not> isExist e then err e else tempLoop base pre e n))"

definition tempDirPrefix :: "bytes \<Rightarrow> bytes" where
  "tempDirPrefix dirRel =
     (if dirRel \<noteq> dot \<and> dirRel \<noteq> [slash] then dirRel @ [slash] @ tempPrefix else tempPrefix)"

definition createTempIn :: "bytes list \<Rightarrow> bytes \<Rightarrow> (bytes \<times> handle) ioe" where
  "createTempIn base dirRel = tempLoop base (tempDirPrefix dirRel) (PlainErr []) tempAttempts"

text \<open>What happens to the open temporary file before the deferred removal is decided.\<close>

definition fillAndRename :: "bytes list \<Rightarrow> bytes \<Rightarrow> bytes \<Rightarrow> handle \<Rightarrow> bytes \<Rightarrow> nat \<Rightarrow> unit ioe" where
  "fillAndRename base tmpRel rel f data mode =
     fWrite f data \<bind> (\<lambda>w.
     case w of
       Inl e \<Rightarrow> ignore (fClose f) \<bind> (\<lambda>_. err e)
     | Inr f' \<Rightarrow>
         ignore (fSync f') \<bind> (\<lambda>_.
         bindE (fClose f') (\<lambda>_.
         ignore (rChmod base tmpRel mode) \<bind> (\<lambda>_.
         rRename base tmpRel rel))))"

definition atomicWriteOnce :: "bytes \<Rightarrow> nat \<Rightarrow> bytes list \<Rightarrow> bytes \<Rightarrow> unit ioe" where
  "atomicWriteOnce data mode base rel =
     bindE (createTempIn base (Dir rel)) (\<lambda>(tmpRel, f).
     fillAndRename base tmpRel rel f data mode \<bind> (\<lambda>r.
     case r of
       Inl e \<Rightarrow> ignore (rRemove base tmpRel) \<bind> (\<lambda>_. err e)
     | Inr _ \<Rightarrow> ok ()))"

definition atomicWrite :: "Conn \<Rightarrow> bytes \<Rightarrow> bytes \<Rightarrow> nat \<Rightarrow> unit ioe" where
  "atomicWrite c resolved data mode =
     retryPlain (WithRoot (c_dirs c) resolved (atomicWriteOnce data mode))"

definition statFile :: "Conn \<Rightarrow> bytes \<Rightarrow> (int \<times> int \<times> nat) ioe" where
  "statFile c resolved =
     bindE (runFS (WithRoot (c_dirs c) resolved rStat)) (\<lambda>st.
     ok (fi_size st, fi_mtime st, fi_mode st))"

definition markKnown :: "Conn \<Rightarrow> bytes \<Rightarrow> int \<Rightarrow> (int \<times> int) io" where
  "markKnown c resolved fallbackSize =
     runFS (WithRoot (c_dirs c) resolved rStat) \<bind> (\<lambda>r.
     let (sz, mtime) = (case r of Inl e \<Rightarrow> (fallbackSize, zeroTime) | Inr st \<Rightarrow> (fi_size st, fi_mtime st))
     in sessMarkRead c resolved sz mtime \<bind> (\<lambda>_. ret (sz, mtime)))"

end
