(* ===== verification/EditEngine.thy ===== *)
theory EditEngine
  imports Errmsg
begin

text \<open>
  \<open>internal/editengine/engine.go\<close>: exact byte-level match and replace. \<open>ApplyOnce\<close> and
  \<open>ApplyMany\<close> are translated statement by statement, with \<open>countMatches\<close> and \<open>lineNumbers\<close> as
  the loops the code runs. The reference view is the split of the content at the occurrences of
  \<open>old\<close>: the lemmas show that the loops count its cuts and that the results are its joins.
\<close>

record Edit =
  Old :: bytes
  New :: bytes
  ReplaceAll :: bool

definition maxAmbiguousLines :: nat where
  "maxAmbiguousLines = 5"

definition where_file :: bytes where
  "where_file = ''the file''"

definition newline :: char where
  "newline = CHR 0x0A"

text \<open>The \<open>for\<close> loop of \<open>countMatches\<close>; \<open>off\<close>, \<open>count\<close> and \<open>firstOffsets\<close> are its variables.
  The Go guard \<open>off <= len(content)-len(old)\<close> over signed integers is
  \<open>off + length old \<le> length content\<close>. With an empty \<open>old\<close> the Go loop would not advance;
  \<open>ApplyOnce\<close> rejects that before calling it, and the model stops there.\<close>

function countLoop :: "bytes \<Rightarrow> bytes \<Rightarrow> nat \<Rightarrow> nat \<Rightarrow> nat list \<Rightarrow> nat \<times> nat list" where
  "countLoop content old off count firstOffsets =
     (if old \<noteq> [] \<and> off + length old \<le> length content then
        (case index (drop off content) old of
           None \<Rightarrow> (count, firstOffsets)
         | Some j \<Rightarrow>
             (let i = j + off;
                  firstOffsets' =
                    (if length firstOffsets < maxAmbiguousLines then firstOffsets @ [i]
                     else firstOffsets)
              in countLoop content old (i + length old) (count + 1) firstOffsets'))
      else (count, firstOffsets))"
  by pat_completeness auto
termination
  by (relation "measure (\<lambda>(content, old, off, count, offs). length content - off)")
    (auto simp: length_greater_0_conv [symmetric] simp del: length_greater_0_conv)

declare countLoop.simps [simp del]

definition countMatches :: "bytes \<Rightarrow> bytes \<Rightarrow> nat \<times> nat list" where
  "countMatches content old = countLoop content old 0 0 []"

text \<open>The loop of \<open>lineNumbers\<close> over \<open>newlines\<close> and \<open>prev\<close>.\<close>

fun lineLoop :: "bytes \<Rightarrow> nat \<Rightarrow> nat \<Rightarrow> nat list \<Rightarrow> nat list" where
  "lineLoop content newlines prev [] = []"
| "lineLoop content newlines prev (off # offs) =
     (let newlines' = newlines + countByte (drop prev (take off content)) newline
      in (newlines' + 1) # lineLoop content newlines' off offs)"

definition lineNumbers :: "bytes \<Rightarrow> nat list \<Rightarrow> nat list" where
  "lineNumbers content offsets = lineLoop content 0 0 offsets"

definition ApplyOnce :: "bytes \<Rightarrow> bytes \<Rightarrow> bytes \<Rightarrow> bool \<Rightarrow> (goerr, bytes \<times> nat) result" where
  "ApplyOnce content old new replaceAllFlag =
     (if length old = 0 then Inl EEmptyOld
      else if old = new then Inl ENoop
      else
        (let (matches, firstOffsets) = countMatches content old in
         if matches = 0 then Inl (ENoMatch where_file)
         else if \<not> replaceAllFlag \<and> matches > 1 then
           Inl (EAmbiguous matches (lineNumbers content firstOffsets) where_file)
         else if replaceAllFlag then Inr (replaceAll content old new, matches)
         else Inr (replace content old new (Some 1), matches)))"

text \<open>The loop of \<open>ApplyMany\<close>: \<open>i\<close> is the loop index (from 0), \<open>cur\<close> the content so far.\<close>

fun applyLoop :: "nat \<Rightarrow> bytes \<Rightarrow> Edit list \<Rightarrow> (goerr, bytes) result" where
  "applyLoop i cur [] = Inr cur"
| "applyLoop i cur (e # es) =
     (case ApplyOnce cur (Old e) (New e) (ReplaceAll e) of
        Inl err \<Rightarrow> Inl (EEditIndex (i + 1) err)
      | Inr (out, n) \<Rightarrow> applyLoop (i + 1) out es)"

definition ApplyMany :: "bytes \<Rightarrow> Edit list \<Rightarrow> (goerr, bytes) result" where
  "ApplyMany content edits = applyLoop 0 content edits"

section \<open>The reference view\<close>

text \<open>Offsets of the leftmost, non-overlapping occurrences, read off the split of the content.\<close>

fun cutOffsets :: "nat \<Rightarrow> nat \<Rightarrow> bytes list \<Rightarrow> nat list" where
  "cutOffsets n start [] = []"
| "cutOffsets n start [p] = []"
| "cutOffsets n start (p # q # ps) =
     (start + length p) # cutOffsets n (start + length p + n) (q # ps)"

definition matchOffsets :: "bytes \<Rightarrow> bytes \<Rightarrow> nat list" where
  "matchOffsets content old = cutOffsets (length old) 0 (split content old)"

definition lineOf :: "bytes \<Rightarrow> nat \<Rightarrow> nat" where
  "lineOf content off = Suc (countByte (take off content) newline)"

lemma length_cutOffsets: "ps \<noteq> [] \<Longrightarrow> length (cutOffsets n start ps) = length ps - 1"
  by (induction n start ps rule: cutOffsets.induct) auto

lemma cutOffsets_Cons:
  "ps \<noteq> [] \<Longrightarrow> cutOffsets n start (p # ps) = (start + length p) # cutOffsets n (start + length p + n) ps"
  by (cases ps) auto

text \<open>The counting loop against the split of the rest of the content.\<close>

lemma countLoop_split:
  assumes "old \<noteq> []" and "off \<le> length content"
  shows "countLoop content old off count offs =
    (let ps = split (drop off content) old
     in (count + (length ps - 1),
         offs @ take (maxAmbiguousLines - length offs) (cutOffsets (length old) off ps)))"
  using assms
proof (induction content old off count offs rule: countLoop.induct)
  case (1 content old off count offs)
  show ?case
  proof (cases "index (drop off content) old")
    case None
    then show ?thesis
      by (subst countLoop.simps) (auto simp: split_None Let_def)
  next
    case (Some j)
    from index_bound [OF Some] "1.prems" have b: "off + j + length old \<le> length content" by auto
    let ?offs = "if length offs < maxAmbiguousLines then offs @ [j + off] else offs"
    let ?ps = "split (drop (j + off + length old) content) old"
    from "1.IH" [OF _ Some refl refl] "1.prems" b
    have ih: "countLoop content old (j + off + length old) (count + 1) ?offs =
      (count + 1 + (length ?ps - 1),
       ?offs @ take (maxAmbiguousLines - length ?offs) (cutOffsets (length old) (j + off + length old) ?ps))"
      by (simp add: Let_def ac_simps)
    have sp: "split (drop off content) old = take j (drop off content) # ?ps"
      using Some "1.prems"(1) by (simp add: split_Some ac_simps)
    have lp: "length ?ps > 0" by simp
    have len: "length (take j (drop off content)) = j" using b by simp
    have step: "countLoop content old off count offs =
        countLoop content old (j + off + length old) (count + 1) ?offs"
      using "1.prems" b by (subst countLoop.simps) (simp add: Some Let_def)
    show ?thesis
    proof (cases "length offs < maxAmbiguousLines")
      case True
      then have "maxAmbiguousLines - length offs = Suc (maxAmbiguousLines - Suc (length offs))" by simp
      with True lp len show ?thesis
        unfolding step ih sp Let_def by (simp add: cutOffsets_Cons ac_simps)
    next
      case False
      with lp len show ?thesis
        unfolding step ih sp Let_def by (simp add: cutOffsets_Cons ac_simps)
    qed
  qed
qed

lemma countMatches_split:
  "old \<noteq> [] \<Longrightarrow>
    countMatches content old =
      (length (split content old) - 1, take maxAmbiguousLines (matchOffsets content old))"
  by (simp add: countMatches_def countLoop_split matchOffsets_def Let_def)

lemma cutOffsets_ge: "x \<in> set (cutOffsets n start ps) \<Longrightarrow> start \<le> x"
  by (induction n start ps rule: cutOffsets.induct) force+

lemma sorted_cutOffsets: "sorted (cutOffsets n start ps)"
  by (induction n start ps rule: cutOffsets.induct) (force dest: cutOffsets_ge)+

lemma lineLoop_lineOf:
  assumes "sorted offs" and "\<forall>x\<in>set offs. prev \<le> x"
  shows "lineLoop content (countByte (take prev content) newline) prev offs = map (lineOf content) offs"
  using assms
proof (induction offs arbitrary: prev)
  case (Cons x xs)
  have "countByte (take prev content) newline + countByte (drop prev (take x content)) newline =
      countByte (take x content) newline"
    using Cons.prems by (simp add: countByte_def count_list_append_split)
  with Cons show ?case by (simp add: Let_def lineOf_def)
qed simp

lemma lineNumbers_lineOf: "sorted offs \<Longrightarrow> lineNumbers content offs = map (lineOf content) offs"
  using lineLoop_lineOf [of offs 0 content] by (simp add: lineNumbers_def countByte_def)

lemma lineNumbers_matches:
  "lineNumbers content (take k (matchOffsets content old)) =
    map (lineOf content) (take k (matchOffsets content old))"
  by (rule lineNumbers_lineOf) (simp add: matchOffsets_def sorted_cutOffsets sorted_wrt_take)

lemma split_two_index:
  assumes "old \<noteq> []" and "length (split s old) = 2"
  shows "\<exists>i. index s old = Some i \<and> split s old = [take i s, drop (i + length old) s]"
proof -
  from assms obtain i where i: "index s old = Some i"
    by (cases "index s old") (auto simp: split_None)
  with assms have "split (drop (i + length old) s) old = [drop (i + length old) s]"
    by (cases "index (drop (i + length old) s) old") (auto simp: split_None split_Some)
  with i assms show ?thesis by (simp add: split_Some)
qed

lemma replace_one_join:
  assumes "old \<noteq> []" and "length (split s old) = 2"
  shows "replace s old new (Some 1) = join (split s old) new"
  using split_two_index [OF assms] assms(1) by (auto simp: replace_once)

section \<open>What the operations do\<close>

lemma ApplyOnce_cases:
  "ApplyOnce content old new ra =
     (let parts = split content old; n = length parts - 1 in
      if old = [] then Inl EEmptyOld
      else if old = new then Inl ENoop
      else if n = 0 then Inl (ENoMatch where_file)
      else if \<not> ra \<and> n > 1 then
        Inl (EAmbiguous n (map (lineOf content) (take 5 (matchOffsets content old))) where_file)
      else Inr (join parts new, n))"
proof (cases "old = []")
  case False
  have l: "length (split content old) > 0" by simp
  have one: "\<not> ra \<Longrightarrow> length (split content old) - 1 \<noteq> 0 \<Longrightarrow> \<not> length (split content old) - 1 > 1 \<Longrightarrow>
      replace content old new (Some 1) = join (split content old) new"
    using l by (intro replace_one_join [OF False]) simp
  show ?thesis
    using False one
    by (simp add: ApplyOnce_def countMatches_split lineNumbers_matches replaceAll_join_split Let_def
        maxAmbiguousLines_def)
qed (simp add: ApplyOnce_def Let_def)

lemma ApplyOnce_Inr_iff:
  "ApplyOnce content old new ra = Inr (out, n) \<longleftrightarrow>
     old \<noteq> [] \<and> old \<noteq> new \<and> n = length (split content old) - 1 \<and> 0 < n \<and> (ra \<or> n = 1) \<and>
     out = join (split content old) new"
  by (auto simp: ApplyOnce_cases Let_def)

lemma ApplyOnce_not_Inr_single:
  "ApplyOnce content old new ra = Inr p \<Longrightarrow> \<exists>out n. p = (out, n)"
  by (cases p) auto

lemma length_ApplyOnce:
  assumes "ApplyOnce content old new ra = Inr (out, n)"
  shows "length out + n * length old = length content + n * length new"
proof -
  from assms have o: "out = join (split content old) new" and n: "n = length (split content old) - 1"
    by (auto simp: ApplyOnce_Inr_iff)
  have "length content = length (join (split content old) old)" by (simp add: join_split)
  with o n show ?thesis by (simp add: length_join)
qed

lemma applyLoop_append:
  "applyLoop i cur (es @ fs) =
    (case applyLoop i cur es of Inl err \<Rightarrow> Inl err | Inr out \<Rightarrow> applyLoop (i + length es) out fs)"
  by (induction i cur es rule: applyLoop.induct) (auto split: sum.splits)

lemma applyLoop_error:
  assumes "applyLoop i cur es = Inl err"
  obtains k cur' e where "k < length es" "applyLoop i cur (take k es) = Inr cur'"
    "ApplyOnce cur' (Old (es ! k)) (New (es ! k)) (ReplaceAll (es ! k)) = Inl e"
    "err = EEditIndex (i + k + 1) e"
  using assms
proof (induction es arbitrary: i cur thesis)
  case (Cons a es)
  show ?case
  proof (cases "ApplyOnce cur (Old a) (New a) (ReplaceAll a)")
    case (Inl e)
    with Cons.prems show ?thesis by (intro Cons.prems(1) [of 0 cur e]) auto
  next
    case (Inr p)
    obtain out n where p: "p = (out, n)" by fastforce
    with Inr Cons.prems(2) have "applyLoop (i + 1) out es = Inl err" by simp
    then obtain k cur' e where k: "k < length es" "applyLoop (i + 1) out (take k es) = Inr cur'"
      "ApplyOnce cur' (Old (es ! k)) (New (es ! k)) (ReplaceAll (es ! k)) = Inl e"
      "err = EEditIndex (i + 1 + k + 1) e"
      by (rule Cons.IH [rotated])
    then show ?thesis
      using Inr p by (intro Cons.prems(1) [of "Suc k" cur' e]) auto
  qed
qed simp

lemma applyLoop_trace:
  assumes "applyLoop i cur es = Inr result"
  shows "\<exists>cs. length cs = Suc (length es) \<and> cs ! 0 = cur \<and> cs ! length es = result \<and>
    (\<forall>k < length es. \<exists>n. ApplyOnce (cs ! k) (Old (es ! k)) (New (es ! k)) (ReplaceAll (es ! k)) =
      Inr (cs ! Suc k, n))"
  using assms
proof (induction es arbitrary: i cur)
  case Nil
  then show ?case by (intro exI [of _ "[result]"]) simp
next
  case (Cons e es)
  then obtain mid n where m: "ApplyOnce cur (Old e) (New e) (ReplaceAll e) = Inr (mid, n)"
    "applyLoop (i + 1) mid es = Inr result"
    by (auto split: sum.splits)
  from Cons.IH [OF m(2)] obtain cs where "length cs = Suc (length es)" "cs ! 0 = mid"
    "cs ! length es = result" "\<forall>k < length es. \<exists>n. ApplyOnce (cs ! k) (Old (es ! k)) (New (es ! k))
      (ReplaceAll (es ! k)) = Inr (cs ! Suc k, n)"
    by blast
  with m(1) show ?case
    by (intro exI [of _ "cur # cs"]) (auto simp: less_Suc_eq_0_disj nth_Cons split: nat.splits)
qed

section \<open>Leftmost covers\<close>

text \<open>A description of the matches that mentions no algorithm: \<open>offs\<close> are the occurrences of \<open>old\<close>
  from \<open>pos\<close> on, each the first one after the end of its predecessor, with none after the last.
  \<open>splice\<close> replaces the \<open>n\<close> bytes at each offset.\<close>

fun leftmostCover :: "bytes \<Rightarrow> bytes \<Rightarrow> nat \<Rightarrow> nat list \<Rightarrow> bool" where
  "leftmostCover content old pos [] \<longleftrightarrow> (\<forall>j\<ge>pos. \<not> occurs_at old content j)"
| "leftmostCover content old pos (i # offs) \<longleftrightarrow>
     pos \<le> i \<and> occurs_at old content i \<and> (\<forall>j. pos \<le> j \<longrightarrow> j < i \<longrightarrow> \<not> occurs_at old content j) \<and>
     leftmostCover content old (i + length old) offs"

fun splice :: "bytes \<Rightarrow> nat \<Rightarrow> bytes \<Rightarrow> nat \<Rightarrow> nat list \<Rightarrow> bytes" where
  "splice content n new pos [] = drop pos content"
| "splice content n new pos (i # offs) =
     take (i - pos) (drop pos content) @ new @ splice content n new (i + n) offs"

lemma leftmostCover_unique:
  "leftmostCover content old pos xs \<Longrightarrow> leftmostCover content old pos ys \<Longrightarrow> xs = ys"
proof (induction content old pos xs arbitrary: ys rule: leftmostCover.induct)
  case (1 content old pos)
  then show ?case by (cases ys) auto
next
  case (2 content old pos i offs)
  then obtain k ks where ys: "ys = k # ks" by (cases ys) auto
  with 2 have "i = k" by (metis leftmostCover.simps(2) linorder_neqE_nat)
  with 2 ys show ?case by simp
qed

lemma split_cover:
  assumes "old \<noteq> []" and "pos \<le> length content"
  shows "leftmostCover content old pos (cutOffsets (length old) pos (split (drop pos content) old)) \<and>
    splice content (length old) new pos (cutOffsets (length old) pos (split (drop pos content) old)) =
      join (split (drop pos content) old) new"
  using assms(2)
proof (induction "length content - pos" arbitrary: pos rule: less_induct)
  case less
  show ?case
  proof (cases "index (drop pos content) old")
    case None
    have "\<not> occurs_at old content j" if "pos \<le> j" for j
      using None occurs_at_dropD [of old content pos "j - pos"] that by (auto simp: index_None_iff)
    with None show ?thesis by (simp add: split_None)
  next
    case (Some j)
    let ?q = "pos + j + length old"
    from index_bound [OF Some] less.prems have b: "?q \<le> length content" by simp
    from less.hyps [OF _ b] assms(1) b
    have ih: "leftmostCover content old ?q (cutOffsets (length old) ?q (split (drop ?q content) old))"
      "splice content (length old) new ?q (cutOffsets (length old) ?q (split (drop ?q content) old)) =
        join (split (drop ?q content) old) new"
      by (cases old; simp)+
    have sp: "split (drop pos content) old = take j (drop pos content) # split (drop ?q content) old"
      using Some assms(1) by (simp add: split_Some ac_simps)
    have occ: "occurs_at old content (pos + j)"
      by (rule occurs_at_drop [OF index_Some_occurs [OF Some] less.prems])
    have least: "\<not> occurs_at old content i" if "pos \<le> i" "i < pos + j" for i
      using index_least [OF Some occurs_at_dropD [of old content pos "i - pos"]] that by auto
    show ?thesis
      using ih occ least b by (simp add: sp cutOffsets_Cons join_Cons min_absorb2)
  qed
qed

lemma matchOffsets_cover:
  "old \<noteq> [] \<Longrightarrow> leftmostCover content old 0 (matchOffsets content old)"
  using split_cover [of old 0 content] by (simp add: matchOffsets_def)

lemma splice_matchOffsets:
  "old \<noteq> [] \<Longrightarrow> splice content (length old) new 0 (matchOffsets content old) = join (split content old) new"
  using split_cover [of old 0 content new] by (simp add: matchOffsets_def)

lemma length_matchOffsets: "length (matchOffsets content old) = length (split content old) - 1"
  by (simp add: matchOffsets_def length_cutOffsets)

lemma leftmostCover_iff:
  "old \<noteq> [] \<Longrightarrow> leftmostCover content old 0 offs \<longleftrightarrow> offs = matchOffsets content old"
  using matchOffsets_cover leftmostCover_unique by blast

section \<open>Properties\<close>

text \<open>C27. A single edit succeeds exactly when \<open>old\<close> is not empty, differs from \<open>new\<close> and has at least
  one match (one only, unless \<open>replaceAll\<close>), where the matches are the leftmost non-overlapping
  occurrences of \<open>old\<close>; the result is the content with the bytes at those offsets replaced and all
  other bytes unchanged, and the reported number is the number of matches.\<close>

theorem apply_once_exact:
  "ApplyOnce content old new ra = Inr (result, n) \<longleftrightarrow>
     old \<noteq> [] \<and> old \<noteq> new \<and>
     (\<exists>offs. leftmostCover content old 0 offs \<and> n = length offs \<and> 0 < n \<and> (ra \<or> n = 1) \<and>
       result = splice content (length old) new 0 offs)"
  by (auto simp: ApplyOnce_Inr_iff leftmostCover_iff splice_matchOffsets length_matchOffsets)

text \<open>C28. A single edit fails with the catalog error the code's checks pick, in their order: an empty
  \<open>old\<close>, then identical strings, then no match, then an ambiguous match that reports the number of
  matches and the 1-based line numbers of the first five.\<close>

theorem apply_once_errors:
  "ApplyOnce content old new ra = Inl err \<longleftrightarrow>
     (old = [] \<and> err = EEmptyOld) \<or>
     (old \<noteq> [] \<and> old = new \<and> err = ENoop) \<or>
     (old \<noteq> [] \<and> old \<noteq> new \<and> leftmostCover content old 0 [] \<and> err = ENoMatch where_file) \<or>
     (old \<noteq> [] \<and> old \<noteq> new \<and> \<not> ra \<and>
       (\<exists>offs. leftmostCover content old 0 offs \<and> 1 < length offs \<and>
         err = EAmbiguous (length offs)
           (map (\<lambda>off. Suc (countByte (take off content) newline)) (take 5 offs)) where_file))"
proof (cases "old = []")
  case False
  have e: "(matchOffsets content old = []) \<longleftrightarrow> length (split content old) - 1 = 0"
    by (metis length_0_conv length_matchOffsets)
  have m: "map (\<lambda>off. Suc (countByte (take off content) newline)) = map (lineOf content)"
    by (simp add: lineOf_def fun_eq_iff)
  show ?thesis
    using False e unfolding ApplyOnce_cases m
    by (auto simp: leftmostCover_iff Let_def length_matchOffsets simp del: leftmostCover.simps)
qed (auto simp: ApplyOnce_cases Let_def)

text \<open>C29. A list of edits is applied as a left fold: it succeeds with the content that threads every
  single edit through, and it fails exactly at the first edit that fails on the content its
  predecessors produced, with that edit's 1-based number and its error; nothing of a failed list is
  returned.\<close>

theorem apply_many_first_failure:
  "(\<exists>result. ApplyMany content edits = Inr result \<and>
      (\<exists>cs. length cs = Suc (length edits) \<and> cs ! 0 = content \<and> cs ! length edits = result \<and>
        (\<forall>i < length edits. \<exists>n. ApplyOnce (cs ! i) (Old (edits ! i)) (New (edits ! i))
           (ReplaceAll (edits ! i)) = Inr (cs ! Suc i, n)))) \<or>
   (\<exists>k cur err. k < length edits \<and> ApplyMany content (take k edits) = Inr cur \<and>
      ApplyOnce cur (Old (edits ! k)) (New (edits ! k)) (ReplaceAll (edits ! k)) = Inl err \<and>
      ApplyMany content edits = Inl (EEditIndex (k + 1) err))"
proof (cases "ApplyMany content edits")
  case (Inl e)
  then have "applyLoop 0 content edits = Inl e" by (simp add: ApplyMany_def)
  then obtain k cur err where "k < length edits" "ApplyMany content (take k edits) = Inr cur"
    "ApplyOnce cur (Old (edits ! k)) (New (edits ! k)) (ReplaceAll (edits ! k)) = Inl err"
    "e = EEditIndex (k + 1) err"
    by (rule applyLoop_error) (simp add: ApplyMany_def)
  with Inl show ?thesis by blast
next
  case (Inr result)
  then have "applyLoop 0 content edits = Inr result" by (simp add: ApplyMany_def)
  from applyLoop_trace [OF this] Inr show ?thesis by blast
qed

lemma apply_many_first_failure_witness:
  "let edits = [\<lparr>Old = ''a'', New = ''b'', ReplaceAll = False\<rparr>, \<lparr>Old = ''a'', New = ''c'', ReplaceAll = False\<rparr>]
   in \<exists>k cur err. ApplyMany ''ax'' (take k edits) = Inr cur \<and>
        ApplyMany ''ax'' edits = Inl (EEditIndex (k + 1) err)"
proof -
  let ?edits = "[\<lparr>Old = ''a'', New = ''b'', ReplaceAll = False\<rparr>, \<lparr>Old = ''a'', New = ''c'', ReplaceAll = False\<rparr>]"
  have "case ApplyMany ''ax'' ?edits of Inl e \<Rightarrow> True | Inr r \<Rightarrow> False" by code_simp
  then have "ApplyMany ''ax'' ?edits \<noteq> Inr result" for result by (auto split: sum.splits)
  with apply_many_first_failure [of "''ax''" ?edits] show ?thesis unfolding Let_def by blast
qed

text \<open>C30. Undo: after a successful unique edit whose replacement text stands at exactly one place of the
  result, the edit with \<open>old\<close> and \<open>new\<close> exchanged succeeds and restores the original content.\<close>

theorem apply_once_undo:
  assumes "ApplyOnce content old new False = Inr (result, n)"
    and "new \<noteq> []" and "\<exists>!i. occurs_at new result i"
  shows "ApplyOnce result new old False = Inr (content, 1)"
proof -
  from assms(1) have o: "old \<noteq> []" "old \<noteq> new" "length (split content old) = 2"
    "result = join (split content old) new"
    by (auto simp: ApplyOnce_Inr_iff)
  from split_two_index [OF o(1,3)] obtain i where i: "index content old = Some i"
    "split content old = [take i content, drop (i + length old) content]" by blast
  from index_bound [OF i(1)] have len: "length (take i content) = i" by simp
  have r: "result = take i content @ new @ drop (i + length old) content" by (simp add: o(4) i(2))
  have "occurs_at new result i" using len by (simp add: r occurs_at_def)
  with assms(3) have only: "occurs_at new result j \<Longrightarrow> j = i" for j by blast
  have "\<not> occurs_at new result j" if "i + length new \<le> j" for j
    using only [of j] that assms(2) by (cases new) auto
  with \<open>occurs_at new result i\<close> have cover: "leftmostCover result new 0 [i]"
    by (auto dest: only)
  have "splice result (length new) old 0 [i] = content"
    using index_decomp [OF i(1)] len by (simp add: r)
  moreover from cover assms(2) have "matchOffsets result new = [i]"
    by (metis leftmostCover_iff)
  moreover have "length (split result new) - 1 = length (matchOffsets result new)"
    by (simp only: length_matchOffsets)
  ultimately show ?thesis
    using o(2) assms(2) splice_matchOffsets [of new result old]
    by (auto simp: ApplyOnce_Inr_iff)
qed

lemma apply_once_undo_witness:
  "ApplyOnce ''axc'' ''x'' ''b'' False = Inr (''abc'', 1) \<and>
   ApplyOnce ''abc'' ''b'' ''x'' False = Inr (''axc'', 1)"
proof -
  have a: "ApplyOnce ''axc'' ''x'' ''b'' False = Inr (''abc'', 1)" by code_simp
  have "occurs_at ''b'' ''abc'' i \<longleftrightarrow> i = 1" for i
    by (cases i; cases "i - 1"; cases "i - 2") auto
  with apply_once_undo [OF a] a show ?thesis by simp
qed

end
