(* ===== verification/LineIO.thy ===== *)
theory LineIO
  imports Errmsg
begin

text \<open>
  \<open>internal/lineio/lineio.go\<close>: rendering of a file's bytes for the read tool. \<open>offset\<close> and
  \<open>limit\<close> are Go \<open>int\<close>s, which the caller may pass negative, so they are HOL integers; counts
  of lines and bytes are natural numbers. The package variables hold their production values.
\<close>

definition DefaultLines :: int where
  "DefaultLines = 2000"

definition MaxLineChars :: nat where
  "MaxLineChars = 2000"

definition MaxTotalBytes :: nat where
  "MaxTotalBytes = 256 * 1024"

definition TruncationMarker :: bytes where
  "TruncationMarker = ''... [truncated]''"

definition ReasonLineLimit :: bytes where
  "ReasonLineLimit = ''line limit reached''"

definition ReasonRequestedLimit :: bytes where
  "ReasonRequestedLimit = ''requested limit reached''"

definition ReasonLineLength :: bytes where
  "ReasonLineLength = ''line length limit reached''"

definition ReasonOffsetPastEnd :: bytes where
  "ReasonOffsetPastEnd = ''offset beyond end of file''"

definition sizeLimitReason :: bytes where
  "sizeLimitReason = itoa (int (MaxTotalBytes div 1024)) @ '' KiB size limit reached''"

record RenderResult =
  Text :: bytes
  FirstLine :: int
  LastLine :: int
  TotalLines :: int
  Truncated :: bool
  Reasons :: "bytes list"
  Footer :: bytes

definition emptyResult :: RenderResult where
  "emptyResult = \<lparr>Text = [], FirstLine = 0, LastLine = 0, TotalLines = 0, Truncated = False,
     Reasons = [], Footer = []\<rparr>"

definition ValidateArgs :: "int \<Rightarrow> int \<Rightarrow> goerr option" where
  "ValidateArgs offset limit =
     (if offset < 1 then Some (PlainErr (''offset must be >= 1, got '' @ itoa offset))
      else if limit < 1 then Some (PlainErr (''limit must be >= 1, got '' @ itoa limit))
      else None)"

definition splitLines :: "bytes \<Rightarrow> bytes list" where
  "splitLines content =
     (if content = [] then []
      else split (if last content = CHR 0x0A then butlast content else content) [CHR 0x0A])"

definition sanitize :: "bytes \<Rightarrow> bytes" where
  "sanitize line = toValidUTF8 line replacementChar"

text \<open>The \<open>for i := range s\<close> loop of \<open>truncateRunes\<close>: \<open>i\<close> is the byte index of the segment.\<close>

fun truncLoop :: "bytes \<Rightarrow> nat \<Rightarrow> nat \<Rightarrow> nat \<Rightarrow> seg list \<Rightarrow> bytes" where
  "truncLoop s n kept i [] = s"
| "truncLoop s n kept i (x # xs) =
     (if kept = n then take i s else truncLoop s n (kept + 1) (i + length (snd x)) xs)"

definition truncateRunes :: "bytes \<Rightarrow> nat \<Rightarrow> bytes" where
  "truncateRunes s n = truncLoop s n 0 0 (segs s)"

fun appendReason :: "bytes list \<Rightarrow> bytes \<Rightarrow> bytes list" where
  "appendReason reasons r = (if r \<in> set reasons then reasons else reasons @ [r])"

definition buildFooter :: "RenderResult \<Rightarrow> bytes" where
  "buildFooter r =
     (if LastLine r \<ge> TotalLines r \<and> \<not> Truncated r then []
      else ''lines '' @ itoa (FirstLine r) @ ''-'' @ itoa (LastLine r) @ '' of '' @
        itoa (TotalLines r) @ ''; '' @ join (Reasons r) ''; '' @ ''; continue with offset='' @
        itoa (LastLine r + 1))"

text \<open>The display form of a line: sanitized, and cut when longer than \<open>MaxLineChars\<close> runes. The
  flag says whether it was cut.\<close>

definition displayLine :: "bytes \<Rightarrow> bytes \<times> bool" where
  "displayLine line =
     (let display = sanitize line in
      if runeCount display > MaxLineChars
      then (truncateRunes display MaxLineChars @ TruncationMarker, True)
      else (display, False))"

record LoopState =
  ls_out :: "bytes list"
  ls_used :: nat
  ls_reasons :: "bytes list"
  ls_truncated :: bool
  ls_sizeStop :: bool

text \<open>The rendering loop over \<open>lines[i:end]\<close>.\<close>

fun renderLoop :: "nat \<Rightarrow> bytes list \<Rightarrow> LoopState \<Rightarrow> LoopState" where
  "renderLoop i [] st = st"
| "renderLoop i (line # rest) st =
     (let (display, cut) = displayLine line;
          st = (if cut then st\<lparr>ls_truncated := True, ls_reasons := appendReason (ls_reasons st) ReasonLineLength\<rparr>
                else st);
          rendered = itoa (int i + 1) @ [CHR 0x09] @ display
      in if ls_used st + length rendered + 1 > MaxTotalBytes
         then st\<lparr>ls_sizeStop := True, ls_reasons := appendReason (ls_reasons st) sizeLimitReason\<rparr>
         else renderLoop (i + 1) rest
           (st\<lparr>ls_used := ls_used st + length rendered + 1, ls_out := ls_out st @ [rendered]\<rparr>))"

definition initLoop :: LoopState where
  "initLoop = \<lparr>ls_out = [], ls_used = 0, ls_reasons = [], ls_truncated = False, ls_sizeStop = False\<rparr>"

definition Render :: "bytes \<Rightarrow> int \<Rightarrow> int \<Rightarrow> (goerr, RenderResult) result" where
  "Render content offset limit =
     (case ValidateArgs offset limit of
        Some err \<Rightarrow> Inl err
      | None \<Rightarrow>
        (let lines = splitLines content;
             res = emptyResult\<lparr>TotalLines := int (length lines)\<rparr>
         in if offset > TotalLines res then
              (if TotalLines res > 0
               then (let res = res\<lparr>Reasons := [ReasonOffsetPastEnd]\<rparr>
                     in Inr (res\<lparr>Footer := buildFooter res\<rparr>))
               else Inr res)
            else
              (let (effective, capped) =
                     (if limit > DefaultLines then (DefaultLines, True) else (limit, False));
                   endIdx = (let e = offset - 1 + effective in
                             if e > int (length lines) then int (length lines) else e);
                   st = renderLoop (nat (offset - 1))
                          (drop (nat (offset - 1)) (take (nat endIdx) lines)) initLoop;
                   res = res\<lparr>Truncated := ls_truncated st\<rparr>;
                   res = (if ls_out st \<noteq> []
                          then res\<lparr>FirstLine := offset,
                                   LastLine := offset + int (length (ls_out st)) - 1\<rparr>
                          else res);
                   rs = (if \<not> ls_sizeStop st \<and> int (length (ls_out st)) = effective \<and>
                            LastLine res < TotalLines res
                         then appendReason (ls_reasons st)
                           (if capped then ReasonLineLimit else ReasonRequestedLimit)
                         else ls_reasons st);
                   res = res\<lparr>Text := join (ls_out st) [CHR 0x0A], Reasons := rs\<rparr>
               in Inr (res\<lparr>Footer := buildFooter res\<rparr>))))"

section \<open>Lines\<close>

lemma splitLines_join:
  "join (splitLines content) [CHR 0x0A] @
     (if content \<noteq> [] \<and> last content = CHR 0x0A then [CHR 0x0A] else []) = content"
  by (auto simp: splitLines_def join_split) (metis append_butlast_last_id)

lemma splitLines_no_newline: "l \<in> set (splitLines content) \<Longrightarrow> CHR 0x0A \<notin> set l"
  by (auto simp: splitLines_def split: if_splits dest: split_char_no_sep)

lemma length_split_char_le: "length (split s [c]) \<le> Suc (length s)"
  by (simp add: length_split_char count_le_length)

lemma length_splitLines: "length (splitLines content) \<le> Suc (length content)"
  using length_split_char_le [of "butlast content" "CHR 0x0A"]
    length_split_char_le [of content "CHR 0x0A"]
  by (auto simp: splitLines_def)

section \<open>Truncation\<close>

lemma truncLoop_take:
  fixes pre xs :: "seg list"
  assumes "s = concat (map snd pre) @ concat (map snd xs)" and "i = length (concat (map snd pre))"
    and "kept \<le> n"
  shows "truncLoop s n kept i xs = concat (map snd pre) @ concat (map snd (take (n - kept) xs))"
  using assms
proof (induction s n kept i xs arbitrary: pre rule: truncLoop.induct)
  case (2 s n kept i x xs)
  show ?case
  proof (cases "kept = n")
    case False
    with "2.prems" have "kept + 1 \<le> n" and d: "n - kept = Suc (n - (kept + 1))" by auto
    with "2.IH" [of "pre @ [x]"] "2.prems" False show ?thesis by simp
  qed (use "2.prems" in simp)
qed simp

lemma truncateRunes_take: "truncateRunes s n = concat (map snd (take n (segs s)))"
  using truncLoop_take [of s "[]" "segs s" 0 0 n] by (simp add: truncateRunes_def concat_segs)

lemma list_all_complete_segs: "validUTF8 s \<Longrightarrow> list_all completeRune (map snd (segs s))"
  using validSeg_complete by (auto simp: validUTF8_def list_all_iff)

lemma truncateRunes_complete:
  assumes "validUTF8 s"
  shows "segs (truncateRunes s n @ t) = take n (segs s) @ segs t"
proof -
  have c: "list_all completeRune (map snd (take n (segs s)))"
    using list_all_complete_segs [OF assms] by (auto simp: list_all_iff dest: in_set_takeD)
  have "map (\<lambda>e. (fst (decodeRune e), e)) (map snd (take n (segs s))) = take n (segs s)"
  proof (rule map_idI [where xs = "take n (segs s)" and f = "\<lambda>x. (fst (decodeRune (snd x)), snd x)",
        unfolded o_def, THEN trans [rotated]])
    fix x assume "x \<in> set (take n (segs s))"
    then have x: "x \<in> set (segs s)" by (rule in_set_takeD)
    with assms have "validSeg x" by (auto simp: validUTF8_def list_all_iff)
    from validSeg_complete [OF x this] show "(fst (decodeRune (snd x)), snd x) = x"
      by (simp add: prod_eq_iff)
  qed simp
  with segs_concat_complete [OF c, of t] show ?thesis by (simp add: truncateRunes_take)
qed

section \<open>One line\<close>

definition renderLine :: "nat \<Rightarrow> bytes \<Rightarrow> bytes" where
  "renderLine i line = itoa (int i + 1) @ [CHR 0x09] @ fst (displayLine line)"

lemma sanitize_valid: "validUTF8 (sanitize line)"
  by (simp add: sanitize_def toValidUTF8_valid)

lemma sanitize_valid_id: "validUTF8 line \<Longrightarrow> sanitize line = line"
  by (simp add: sanitize_def toValidUTF8_id)

lemma displayLine_short: "validUTF8 line \<Longrightarrow> runeCount line \<le> 2000 \<Longrightarrow> displayLine line = (line, False)"
  by (simp add: displayLine_def Let_def sanitize_valid_id MaxLineChars_def)

lemma length_truncateRunes: "length (truncateRunes s n) \<le> 4 * n"
proof -
  have "length (concat (map snd (take n (segs s)))) \<le> 4 * length (take n (segs s))"
    by (rule length_concat_le4, drule in_set_takeD, drule seg_width, simp)
  also have "\<dots> \<le> 4 * n" by simp
  finally show ?thesis by (simp add: truncateRunes_take)
qed

lemma length_displayLine: "length (fst (displayLine line)) \<le> 4 * MaxLineChars + 15"
  using length_truncateRunes [of "sanitize line" MaxLineChars] length_le_4_runeCount [of "sanitize line"]
  by (auto simp: displayLine_def Let_def TruncationMarker_def)

lemma length_showNat_le: "n < 10 ^ k \<Longrightarrow> 0 < k \<Longrightarrow> length (showNat n) \<le> k"
proof (induction k arbitrary: n)
  case (Suc k)
  show ?case
  proof (cases "n < 10")
    case True
    then show ?thesis by (subst showNat.simps) simp
  next
    case False
    with Suc.prems have "0 < k" by (cases k) auto
    moreover from Suc.prems have "n div 10 < 10 ^ k" by (simp add: less_mult_imp_div_less mult.commute)
    ultimately have "length (showNat (n div 10)) \<le> k" using Suc.IH by blast
    with False show ?thesis by (subst showNat.simps) simp
  qed
qed simp

lemma length_renderLine:
  assumes "i < 10 ^ 20"
  shows "length (renderLine i line) + 1 \<le> MaxTotalBytes"
proof -
  have "Suc i < 10 ^ 21" using assms by simp
  then have "length (showNat (Suc i)) \<le> 21" by (rule length_showNat_le) simp
  moreover have "itoa (int i + 1) = showNat (Suc i)" by (simp add: itoa_def nat_add_distrib)
  ultimately show ?thesis
    using length_displayLine [of line]
    by (simp add: renderLine_def MaxLineChars_def MaxTotalBytes_def)
qed

section \<open>The loop\<close>

definition markCut :: "bytes \<Rightarrow> LoopState \<Rightarrow> LoopState" where
  "markCut line st =
     (if snd (displayLine line)
      then st\<lparr>ls_truncated := True, ls_reasons := appendReason (ls_reasons st) ReasonLineLength\<rparr>
      else st)"

lemma markCut_simps [simp]:
  "ls_out (markCut line st) = ls_out st"
  "ls_used (markCut line st) = ls_used st"
  "ls_sizeStop (markCut line st) = ls_sizeStop st"
  "ls_truncated (markCut line st) \<longleftrightarrow> ls_truncated st \<or> snd (displayLine line)"
  by (auto simp: markCut_def)

lemma renderLoop_Cons:
  "renderLoop i (line # rest) st =
     (let st = markCut line st
      in if ls_used st + length (renderLine i line) + 1 > MaxTotalBytes
         then st\<lparr>ls_sizeStop := True, ls_reasons := appendReason (ls_reasons st) sizeLimitReason\<rparr>
         else renderLoop (i + 1) rest
           (st\<lparr>ls_used := ls_used st + length (renderLine i line) + 1,
               ls_out := ls_out st @ [renderLine i line]\<rparr>))"
  by (simp add: renderLine_def markCut_def split_beta Let_def)

declare renderLoop.simps(2) [simp del]

lemma renderLoop_out:
  assumes "\<not> ls_sizeStop st"
  shows "\<exists>k \<le> length ls.
    ls_out (renderLoop i ls st) = ls_out st @ map (\<lambda>j. renderLine (i + j) (ls ! j)) [0..<k] \<and>
    (ls_sizeStop (renderLoop i ls st) \<longleftrightarrow> k < length ls) \<and>
    (ls \<noteq> [] \<longrightarrow> ls_used st + length (renderLine i (hd ls)) + 1 \<le> MaxTotalBytes \<longrightarrow> 0 < k)"
  using assms
proof (induction ls arbitrary: i st)
  case (Cons l ls)
  let ?st' = "(markCut l st)\<lparr>ls_used := ls_used st + length (renderLine i l) + 1,
    ls_out := ls_out st @ [renderLine i l]\<rparr>"
  show ?case
  proof (cases "ls_used st + length (renderLine i l) + 1 > MaxTotalBytes")
    case True
    then show ?thesis
      by (intro exI [of _ 0]) (simp add: renderLoop_Cons Let_def)
  next
    case False
    have "\<not> ls_sizeStop ?st'" using Cons.prems by simp
    from Cons.IH [OF this, of "i + 1"] obtain k where k: "k \<le> length ls"
      "ls_out (renderLoop (i + 1) ls ?st') =
        ls_out ?st' @ map (\<lambda>j. renderLine (i + 1 + j) (ls ! j)) [0..<k]"
      "ls_sizeStop (renderLoop (i + 1) ls ?st') \<longleftrightarrow> k < length ls"
      by blast
    have r: "renderLoop i (l # ls) st = renderLoop (i + 1) ls ?st'"
      using False by (simp add: renderLoop_Cons Let_def)
    have m: "map (\<lambda>j. renderLine (i + j) ((l # ls) ! j)) [0..<Suc k] =
        renderLine i l # map (\<lambda>j. renderLine (i + 1 + j) (ls ! j)) [0..<k]"
      by (simp add: upt_conv_Cons map_Suc_upt [symmetric] o_def del: upt_Suc)
    show ?thesis
      using k m by (intro exI [of _ "Suc k"]) (simp add: r del: upt_Suc)
  qed
qed simp

lemma renderLoop_reasons:
  "ls_sizeStop (renderLoop i ls st) \<Longrightarrow> ls_sizeStop st \<or> ls_reasons (renderLoop i ls st) \<noteq> []"
  by (induction ls arbitrary: i st) (fastforce simp: renderLoop_Cons Let_def split: if_splits)+

text \<open>The byte budget: what is billed is at least the joined text, and never over budget.\<close>

definition billed :: "bytes list \<Rightarrow> nat" where
  "billed xs = sum_list (map (\<lambda>x. length x + 1) xs)"

lemma billed_snoc [simp]: "billed (xs @ [x]) = billed xs + length x + 1"
  by (simp add: billed_def)

lemma renderLoop_used:
  assumes "ls_used st = billed (ls_out st)" and "ls_used st \<le> MaxTotalBytes"
  shows "ls_used (renderLoop i ls st) = billed (ls_out (renderLoop i ls st)) \<and>
    ls_used (renderLoop i ls st) \<le> MaxTotalBytes"
  using assms
proof (induction ls arbitrary: i st)
  case (Cons l ls)
  show ?case
  proof (cases "ls_used st + length (renderLine i l) + 1 > MaxTotalBytes")
    case True
    with Cons.prems show ?thesis by (simp add: renderLoop_Cons Let_def)
  next
    case False
    let ?st' = "(markCut l st)\<lparr>ls_used := ls_used st + length (renderLine i l) + 1,
      ls_out := ls_out st @ [renderLine i l]\<rparr>"
    have "renderLoop i (l # ls) st = renderLoop (i + 1) ls ?st'"
      using False by (simp add: renderLoop_Cons Let_def)
    moreover have "ls_used ?st' = billed (ls_out ?st')" "ls_used ?st' \<le> MaxTotalBytes"
      using Cons.prems False by simp_all
    ultimately show ?thesis using Cons.IH [of ?st' "i + 1"] by simp
  qed
qed simp

lemma length_join_newline: "xs \<noteq> [] \<Longrightarrow> Suc (length (join xs [c])) = billed xs"
  by (induction xs "[c]" rule: join.induct) (auto simp: billed_def)

lemma length_join_le_billed: "length (join xs [c]) \<le> billed xs"
  using length_join_newline [of xs c] by (cases "xs = []") auto

section \<open>Valid UTF-8 of the rendered text\<close>

lemma validUTF8_append: "validUTF8 a \<Longrightarrow> validUTF8 b \<Longrightarrow> validUTF8 (a @ b)"
  using validUTF8_concat_complete [of "map snd (segs a) @ map snd (segs b)"]
  by (simp add: list_all_complete_segs concat_segs)

lemma validUTF8_ascii: "list_all (\<lambda>c. bv c < 128) s \<Longrightarrow> validUTF8 s"
  by (simp add: validUTF8_def segs_ascii) (induction s; simp add: validSeg_def runeError_def)

lemma showNat_ascii: "list_all (\<lambda>c. bv c < 128) (showNat n)"
proof -
  have "list_all (\<lambda>c. bv c < 128) ''0123456789''" by simp
  with set_showNat [of n] show ?thesis by (auto simp: list_all_iff)
qed

lemma validUTF8_truncateRunes: "validUTF8 s \<Longrightarrow> validUTF8 (truncateRunes s n)"
  using truncateRunes_complete [of s n "[]"]
  by (auto simp: validUTF8_def list_all_iff dest: in_set_takeD)

lemma validUTF8_displayLine: "validUTF8 (fst (displayLine line))"
proof -
  have "validUTF8 TruncationMarker"
    by (rule validUTF8_ascii) (simp add: TruncationMarker_def)
  then have "validUTF8 (truncateRunes (sanitize line) MaxLineChars @ TruncationMarker)"
    by (intro validUTF8_append validUTF8_truncateRunes sanitize_valid)
  then show ?thesis by (simp add: displayLine_def Let_def sanitize_valid)
qed

lemma validUTF8_renderLine: "validUTF8 (renderLine i line)"
proof -
  have "itoa (int i + 1) = showNat (Suc i)" by (simp add: itoa_def nat_add_distrib)
  then have "validUTF8 (itoa (int i + 1) @ [CHR 0x09])"
    by (auto intro!: validUTF8_append validUTF8_ascii simp: showNat_ascii)
  from validUTF8_append [OF this validUTF8_displayLine [of line]] show ?thesis
    by (simp add: renderLine_def)
qed

lemma validUTF8_join:
  "list_all validUTF8 xs \<Longrightarrow> validUTF8 sep \<Longrightarrow> validUTF8 (join xs sep)"
  by (induction xs sep rule: join.induct)
    (auto intro!: validUTF8_append simp: validUTF8_def [of "[]"])

section \<open>A rendered page\<close>

definition pageText :: "bytes \<Rightarrow> nat \<Rightarrow> nat \<Rightarrow> bytes" where
  "pageText content start k =
     join (map (\<lambda>j. renderLine (start + j) (splitLines content ! (start + j))) [0..<k]) [CHR 0x0A]"

definition pageCap :: "int \<Rightarrow> int" where
  "pageCap limit = min limit DefaultLines"

lemma Render_page:
  assumes "1 \<le> offset" "1 \<le> limit" "offset \<le> int (length (splitLines content))"
    and "length content < 2 ^ 63"
  obtains k r where "Render content offset limit = Inr r"
    "1 \<le> k" "int k \<le> pageCap limit" "nat (offset - 1) + k \<le> length (splitLines content)"
    "FirstLine r = offset" "LastLine r = offset + int k - 1"
    "TotalLines r = int (length (splitLines content))"
    "Text r = pageText content (nat (offset - 1)) k"
    "length (Text r) \<le> MaxTotalBytes"
    "Footer r = buildFooter r"
    "LastLine r < TotalLines r \<Longrightarrow> Reasons r \<noteq> []"
proof -
  define n where "n = nat (offset - 1)"
  define L where "L = splitLines content"
  define eff where "eff = pageCap limit"
  define e where "e = nat (min (offset - 1 + eff) (int (length L)))"
  define ls where "ls = drop n (take e L)"
  define st where "st = renderLoop n ls initLoop"
  have off: "int n = offset - 1" using assms(1) by (simp add: n_def)
  have eff1: "1 \<le> eff" using assms(2) by (simp add: eff_def pageCap_def DefaultLines_def)
  have nL: "n < length L" using assms(3) off by (simp add: L_def)
  have ne: "n < e" using nL off eff1 by (simp add: e_def)
  have eL: "e \<le> length L" by (simp add: e_def)
  have ls_ne: "ls \<noteq> []" and len_ls: "length ls = e - n" using ne eL by (simp_all add: ls_def)
  have "length L \<le> Suc (length content)" by (simp add: L_def length_splitLines)
  with assms(4) nL have "n < 10 ^ 20" by simp
  then have fits: "length (renderLine n (hd ls)) + 1 \<le> MaxTotalBytes" by (rule length_renderLine)
  have "\<not> ls_sizeStop initLoop" by (simp add: initLoop_def)
  from renderLoop_out [OF this, of ls n] obtain k where k: "k \<le> length ls"
    "ls_out st = map (\<lambda>j. renderLine (n + j) (ls ! j)) [0..<k]"
    "ls_sizeStop st \<longleftrightarrow> k < length ls" "0 < k"
    using ls_ne fits by (auto simp: st_def initLoop_def)
  have out: "ls_out st = map (\<lambda>j. renderLine (n + j) (L ! (n + j))) [0..<k]"
    using k(1,2) len_ls eL by (auto simp: ls_def)
  have used: "ls_used st = billed (ls_out st)" "ls_used st \<le> MaxTotalBytes"
    unfolding st_def using renderLoop_used [of initLoop n ls] by (simp_all add: initLoop_def billed_def)
  define rs where "rs = (if \<not> ls_sizeStop st \<and> int k = eff \<and> offset + int k - 1 < int (length L)
    then appendReason (ls_reasons st) (if limit > DefaultLines then ReasonLineLimit else ReasonRequestedLimit)
    else ls_reasons st)"
  define r0 where "r0 = \<lparr>Text = join (ls_out st) [CHR 0x0A], FirstLine = offset,
    LastLine = offset + int k - 1, TotalLines = int (length L), Truncated = ls_truncated st,
    Reasons = rs, Footer = []\<rparr>"
  have outk: "ls_out st \<noteq> []" "length (ls_out st) = k" using k(4) by (simp_all add: out)
  have va: "ValidateArgs offset limit = None" using assms(1,2) by (simp add: ValidateArgs_def)
  have endIdx: "(if offset - 1 + eff > int (length L) then int (length L) else offset - 1 + eff) = int e"
    using off eff1 by (auto simp: e_def)
  have pair: "(if limit > DefaultLines then (DefaultLines, True) else (limit, False)) =
      (eff, limit > DefaultLines)"
    by (simp add: eff_def pageCap_def)
  have R: "Render content offset limit = Inr (r0\<lparr>Footer := buildFooter r0\<rparr>)"
    using assms(3) outk
    unfolding Render_def va pair Let_def L_def [symmetric] n_def [symmetric] option.case prod.case endIdx
      nat_int ls_def [symmetric] st_def [symmetric]
    by (simp add: emptyResult_def r0_def rs_def del: appendReason.simps)
  have rsne: "rs \<noteq> []" if "offset + int k - 1 < int (length L)"
  proof (cases "ls_sizeStop st")
    case True
    then have "ls_reasons st \<noteq> []"
      using renderLoop_reasons [of n ls initLoop] by (simp add: st_def initLoop_def)
    with True show ?thesis by (simp add: rs_def)
  next
    case False
    with k(1,3) len_ls have "k = e - n" by simp
    with that off ne have "int k = eff" by (auto simp: e_def)
    with False that show ?thesis by (auto simp: rs_def)
  qed
  have kcap: "int k \<le> eff" using k(1) len_ls off ne by (auto simp: e_def)
  have kL: "n + k \<le> length L" using k(1) len_ls eL ne by linarith
  have ptext: "Text r0 = pageText content n k" by (simp add: r0_def pageText_def out L_def)
  show ?thesis
  proof (rule that [OF R])
    show "length (Text (r0\<lparr>Footer := buildFooter r0\<rparr>)) \<le> MaxTotalBytes"
      using length_join_le_billed [of "ls_out st" "CHR 0x0A"] used by (simp add: r0_def)
    show "Footer (r0\<lparr>Footer := buildFooter r0\<rparr>) = buildFooter (r0\<lparr>Footer := buildFooter r0\<rparr>)"
      by (simp add: buildFooter_def)
  qed (use k(4) kcap kL ptext rsne in \<open>simp_all add: r0_def flip: eff_def n_def L_def\<close>)
qed

lemma Render_validates: "ValidateArgs offset limit = Some err \<Longrightarrow> Render content offset limit = Inl err"
  by (simp add: Render_def)

section \<open>Reading a file page by page\<close>

text \<open>A client that follows the continuation offset the footer names, with at most \<open>fuel\<close> reads.\<close>

fun readPages :: "nat \<Rightarrow> bytes \<Rightarrow> int \<Rightarrow> int \<Rightarrow> RenderResult list option" where
  "readPages 0 content offset limit = None"
| "readPages (Suc fuel) content offset limit =
     (case Render content offset limit of
        Inl err \<Rightarrow> None
      | Inr r \<Rightarrow>
          if LastLine r < TotalLines r
          then map_option (Cons r) (readPages fuel content (LastLine r + 1) limit)
          else Some [r])"

lemma pageText_append:
  assumes "0 < k" "0 < m"
  shows "pageText content a (k + m) = pageText content a k @ [CHR 0x0A] @ pageText content (a + k) m"
proof -
  let ?g = "\<lambda>j. renderLine (a + j) (splitLines content ! (a + j))"
  have "map ?g [0..<k + m] = map ?g [0..<k] @ map (\<lambda>j. ?g (k + j)) [0..<m]"
    by (rule nth_equalityI) (auto simp: nth_append)
  with assms show ?thesis by (simp add: pageText_def join_append ac_simps)
qed

lemma readPages_complete:
  assumes "1 \<le> limit" and "length content < 2 ^ 63" and "1 \<le> offset"
    and "offset \<le> int (length (splitLines content))"
    and "length (splitLines content) - nat (offset - 1) \<le> fuel"
  shows "\<exists>rs. readPages fuel content offset limit = Some rs \<and> rs \<noteq> [] \<and>
    join (map Text rs) [CHR 0x0A] =
      pageText content (nat (offset - 1)) (length (splitLines content) - nat (offset - 1))"
  using assms(3-)
proof (induction fuel arbitrary: offset)
  case (Suc fuel)
  let ?n = "nat (offset - 1)" and ?T = "length (splitLines content)"
  from Render_page [OF Suc.prems(1) assms(1) Suc.prems(2) assms(2)]
  obtain k r where r: "Render content offset limit = Inr r" "1 \<le> k" "?n + k \<le> ?T"
    "LastLine r = offset + int k - 1" "TotalLines r = int ?T" "Text r = pageText content ?n k"
    by metis
  show ?case
  proof (cases "?n + k = ?T")
    case True
    with r Suc.prems(1) have "\<not> LastLine r < TotalLines r" "?T - ?n = k" by auto
    with r show ?thesis by simp
  next
    case False
    have next_n: "nat (LastLine r + 1 - 1) = ?n + k" using r(4) Suc.prems(1) by simp
    have "\<exists>rs. readPages fuel content (LastLine r + 1) limit = Some rs \<and> rs \<noteq> [] \<and>
        join (map Text rs) [CHR 0x0A] = pageText content (?n + k) (?T - (?n + k))"
      unfolding next_n [symmetric]
      by (rule Suc.IH) (use False r Suc.prems in auto)
    then obtain rs where rs: "readPages fuel content (LastLine r + 1) limit = Some rs" "rs \<noteq> []"
      "join (map Text rs) [CHR 0x0A] = pageText content (?n + k) (?T - (?n + k))"
      by blast
    have "pageText content ?n (k + (?T - (?n + k))) =
        pageText content ?n k @ [CHR 0x0A] @ pageText content (?n + k) (?T - (?n + k))"
      by (rule pageText_append) (use r False in auto)
    moreover have "k + (?T - (?n + k)) = ?T - ?n" using r(3) by simp
    moreover have "LastLine r < TotalLines r" using r False Suc.prems(1) by auto
    ultimately show ?thesis
      using rs r by (intro exI [of _ "r # rs"]) (simp add: join_Cons)
  qed
qed simp

lemma validUTF8_pageText: "validUTF8 (pageText content a k)"
  unfolding pageText_def
  by (rule validUTF8_join) (auto simp: list_all_iff validUTF8_renderLine intro!: validUTF8_ascii)

lemma Render_Inr_cases:
  assumes "Render content offset limit = Inr r"
  obtains (empty) "splitLines content = []" "r = emptyResult"
  | (past) "splitLines content \<noteq> []" "int (length (splitLines content)) < offset"
      "r = emptyResult\<lparr>TotalLines := int (length (splitLines content)),
         Reasons := [ReasonOffsetPastEnd],
         Footer := ''lines 0-0 of '' @ itoa (int (length (splitLines content))) @
           ''; offset beyond end of file; continue with offset=1''\<rparr>"
  | (page) "1 \<le> offset" "1 \<le> limit" "offset \<le> int (length (splitLines content))"
proof -
  have v: "ValidateArgs offset limit = None"
    using assms by (auto simp: Render_def split: option.splits)
  then have o: "1 \<le> offset" "1 \<le> limit" by (auto simp: ValidateArgs_def split: if_splits)
  have z: "itoa 0 = ''0''" "itoa 1 = ''1''" by code_simp+
  show ?thesis
  proof (cases "offset \<le> int (length (splitLines content))")
    case True
    with o page show ?thesis by blast
  next
    case False
    show ?thesis
    proof (cases "splitLines content = []")
      case True
      with False v assms have "r = emptyResult" by (auto simp: Render_def emptyResult_def Let_def)
      with True empty show ?thesis by blast
    next
      case ne: False
      with False v assms show ?thesis
        by (intro past) (auto simp: Render_def emptyResult_def Let_def buildFooter_def ReasonOffsetPastEnd_def z)
    qed
  qed
qed

section \<open>Properties\<close>



text \<open>C32. Nothing is lost by paging: a client that starts at line 1 and follows the continuation
  offsets terminates after at most as many reads as the file has lines, for every limit, and the
  pages it gets, joined by newlines, are all lines of the file, numbered, in order.\<close>

theorem pagination_complete:
  assumes "1 \<le> limit" and "content \<noteq> []" and "length content < 2 ^ 63"
    and "length (splitLines content) \<le> fuel"
  shows "\<exists>pages. readPages fuel content 1 limit = Some pages \<and>
    join (map Text pages) [CHR 0x0A] =
      join (map (\<lambda>j. itoa (int j + 1) @ [CHR 0x09] @ fst (displayLine (splitLines content ! j)))
        [0..<length (splitLines content)]) [CHR 0x0A]"
proof -
  have "splitLines content \<noteq> []" using assms(2) by (simp add: splitLines_def)
  then have "1 \<le> int (length (splitLines content))" by (cases "splitLines content") auto
  from readPages_complete [OF assms(1,3) _ this] assms(4) show ?thesis
    by (auto simp: pageText_def renderLine_def)
qed

lemma pagination_complete_witness:
  "\<exists>pages. readPages 1 ''ab'' 1 1 = Some pages \<and> join (map Text pages) [CHR 0x0A] =
     ''1'' @ [CHR 0x09] @ ''ab''"
proof -
  have s: "splitLines ''ab'' = [''ab'']" by code_simp
  have "fst (displayLine ''ab'') = ''ab''"
    by (simp add: displayLine_short validUTF8_ascii runeCount_def segs_ascii)
  moreover have "itoa 1 = ''1''" by code_simp
  ultimately have d: "fst (displayLine ''ab'') = ''ab''" "itoa 1 = ''1''" by blast+
  from pagination_complete [of 1 "''ab''" 1] show ?thesis by (simp add: s d)
qed

text \<open>C33. The text of a successful read is valid UTF-8 whatever the bytes of the file, and a line that
  is valid UTF-8 and at most 2000 runes long is shown unchanged.\<close>

theorem render_text_valid:
  assumes "Render content offset limit = Inr r" and "length content < 2 ^ 63"
  shows "validUTF8 (Text r) \<and>
    (\<forall>line. validUTF8 line \<longrightarrow> runeCount line \<le> 2000 \<longrightarrow> displayLine line = (line, False))"
proof -
  have "validUTF8 (Text r)"
    using assms(1)
  proof (cases rule: Render_Inr_cases)
    case page
    from Render_page [OF this assms(2)] assms(1) validUTF8_pageText show ?thesis
      by (metis sum.inject(2))
  qed (simp_all add: emptyResult_def validUTF8_def)
  then show ?thesis by (simp add: displayLine_short)
qed

lemma render_text_valid_witness:
  "\<exists>r. Render [CHR 0xFF] 1 1 = Inr r \<and> validUTF8 (Text r)"
proof -
  obtain r where "Render [CHR 0xFF] 1 1 = Inr r"
    using Render_page [of 1 1 "[CHR 0xFF]"] by (auto simp: splitLines_def split_None index_single_None)
  with render_text_valid [of "[CHR 0xFF]" 1 1 r] show ?thesis by simp
qed

text \<open>The lines of a file and its bytes determine each other: no line contains a newline, joining
  the lines with newlines gives the content back without its final newline, and an empty file has no
  lines.\<close>

lemma split_lines_roundtrip:
  "join (splitLines content) [CHR 0x0A] @
     (if content \<noteq> [] \<and> last content = CHR 0x0A then [CHR 0x0A] else []) = content \<and>
   list_all (\<lambda>line. CHR 0x0A \<notin> set line) (splitLines content) \<and>
   (splitLines content = [] \<longleftrightarrow> content = [])"
proof -
  have "splitLines content = [] \<longleftrightarrow> content = []" by (simp add: splitLines_def)
  moreover have "list_all (\<lambda>line. CHR 0x0A \<notin> set line) (splitLines content)"
    by (auto simp: list_all_iff dest: splitLines_no_newline)
  ultimately show ?thesis using splitLines_join [of content] by blast
qed

end
