(* ===== verification/ContentWarn.thy ===== *)
theory ContentWarn
  imports Errmsg
begin

text \<open>
  \<open>internal/contentwarn/contentwarn.go\<close>: detection of suspicious control characters in text that a
  tool is about to write, and the sentence that reports them. \<open>Check\<close> ranges over the runes of the
  text (\<open>segs\<close>); \<open>RenderWarn\<close> is the package's \<open>Render\<close>, with one recursion per loop.
\<close>

record Finding =
  Rune :: nat
  Name :: bytes
  Line :: nat
  Col :: nat

definition names :: "(nat \<times> bytes) list" where
  "names =
    [(0x00, ''NULL''), (0x01, ''START OF HEADING''), (0x02, ''START OF TEXT''),
     (0x03, ''END OF TEXT''), (0x04, ''END OF TRANSMISSION''), (0x05, ''ENQUIRY''),
     (0x06, ''ACKNOWLEDGE''), (0x07, ''ALERT''), (0x08, ''BACKSPACE''),
     (0x0B, ''LINE TABULATION''), (0x0C, ''FORM FEED''), (0x0E, ''SHIFT OUT''),
     (0x0F, ''SHIFT IN''), (0x10, ''DATA LINK ESCAPE''), (0x11, ''DEVICE CONTROL ONE''),
     (0x12, ''DEVICE CONTROL TWO''), (0x13, ''DEVICE CONTROL THREE''),
     (0x14, ''DEVICE CONTROL FOUR''), (0x15, ''NEGATIVE ACKNOWLEDGE''),
     (0x16, ''SYNCHRONOUS IDLE''), (0x17, ''END OF TRANSMISSION BLOCK''), (0x18, ''CANCEL''),
     (0x19, ''END OF MEDIUM''), (0x1A, ''SUBSTITUTE''), (0x1B, ''ESCAPE''),
     (0x1C, ''INFORMATION SEPARATOR FOUR''), (0x1D, ''INFORMATION SEPARATOR THREE''),
     (0x1E, ''INFORMATION SEPARATOR TWO''), (0x1F, ''INFORMATION SEPARATOR ONE''),
     (0x7F, ''DELETE'')]"

definition maxListedPositions :: nat where
  "maxListedPositions = 5"

definition nameOf :: "nat \<Rightarrow> bytes" where
  "nameOf r = (case map_of names r of Some n \<Rightarrow> n | None \<Rightarrow> [])"

definition suspicious :: "nat \<Rightarrow> bool" where
  "suspicious r = (if r = 0x09 \<or> r = 0x0A \<or> r = 0x0D then False else r \<le> 0x1F \<or> r = 0x7F)"

fun checkLoop :: "nat \<Rightarrow> nat \<Rightarrow> nat list \<Rightarrow> Finding list" where
  "checkLoop line col [] = []"
| "checkLoop line col (r # rs) =
     (if suspicious r then [\<lparr>Rune = r, Name = nameOf r, Line = line, Col = col\<rparr>] else []) @
     (if r = 0x0A then checkLoop (line + 1) 1 rs else checkLoop line (col + 1) rs)"

definition Check :: "bytes \<Rightarrow> Finding list" where
  "Check s = checkLoop 1 1 (map fst (segs s))"

text \<open>The grouping loop over \<open>order\<close> and \<open>byRune\<close>.\<close>

fun groupLoop :: "nat list \<Rightarrow> (nat \<rightharpoonup> Finding list) \<Rightarrow> Finding list \<Rightarrow> nat list \<times> (nat \<rightharpoonup> Finding list)" where
  "groupLoop order byRune [] = (order, byRune)"
| "groupLoop order byRune (f # fs) =
     (let order' = (case byRune (Rune f) of None \<Rightarrow> order @ [Rune f] | Some _ \<Rightarrow> order);
          old = (case byRune (Rune f) of None \<Rightarrow> [] | Some l \<Rightarrow> l)
      in groupLoop order' (byRune(Rune f \<mapsto> old @ [f])) fs)"

definition position :: "Finding \<Rightarrow> bytes" where
  "position f = ''line '' @ itoa (int (Line f)) @ '' col '' @ itoa (int (Col f))"

text \<open>The inner loop over \<open>byRune[r][1:]\<close>.\<close>

fun restLoop :: "nat \<Rightarrow> bytes \<Rightarrow> Finding list \<Rightarrow> nat \<times> bytes" where
  "restLoop listed seg [] = (listed, seg)"
| "restLoop listed seg (f # fs) =
     (if listed \<ge> maxListedPositions then (listed, seg)
      else restLoop (listed + 1) (seg @ '', '' @ position f) fs)"

text \<open>The segment loop over \<open>order\<close>. A group is never empty, so \<open>hd\<close> is \<open>byRune[r][0]\<close>.\<close>

fun segLoop :: "(nat \<rightharpoonup> Finding list) \<Rightarrow> nat \<Rightarrow> bytes list \<Rightarrow> nat list \<Rightarrow> nat \<times> bytes list" where
  "segLoop byRune listed parts [] = (listed, parts)"
| "segLoop byRune listed parts (r # order) =
     (if listed \<ge> maxListedPositions then (listed, parts)
      else
        (let fs = (case byRune r of None \<Rightarrow> [] | Some l \<Rightarrow> l);
             first = hd fs;
             seg = ''U+'' @ hex04 r @ '' ('' @ Name first @ '') at '' @ position first;
             (listed', seg') = restLoop (listed + 1) seg (tl fs)
         in segLoop byRune listed' (parts @ [seg']) order))"

definition RenderWarn :: "bytes \<Rightarrow> Finding list \<Rightarrow> bytes" where
  "RenderWarn what findings =
     (if length findings = 0 then []
      else
        (let (order, byRune) = groupLoop [] Map.empty findings;
             (listed, parts) = segLoop byRune 0 [] order;
             parts' = (if listed < length findings
                      then butlast parts @ [last parts @ '' +'' @ itoa (int (length findings - listed)) @ '' more'']
                      else parts)
         in ''content warning: '' @ what @ '' contains suspicious control characters: '' @
            join parts' ''; '' @ '' '' @ [CHR 0xE2, CHR 0x80, CHR 0x94] @
            '' these often result from escape sequences (e.g. '' @ [CHR 0x5C] @ ''b, '' @ [CHR 0x5C] @
            ''v) being corrupted upstream before this tool received them; the file was written exactly as received; if this is unintended, read the file back and rewrite the affected text with corrected escapes''))"

section \<open>Positions\<close>

definition lineAt :: "nat list \<Rightarrow> nat \<Rightarrow> nat" where
  "lineAt rs i = Suc (count_list (take i rs) 0x0A)"

definition colAt :: "nat list \<Rightarrow> nat \<Rightarrow> nat" where
  "colAt rs i = Suc (length (takeWhile (\<lambda>r. r \<noteq> 0x0A) (rev (take i rs))))"

lemma lineAt_Cons: "lineAt (r # rs) (Suc i) = (if r = 0x0A then Suc (lineAt rs i) else lineAt rs i)"
  by (simp add: lineAt_def)

lemma colAt_Cons:
  "i \<le> length rs \<Longrightarrow> colAt (r # rs) (Suc i) =
     (if 0x0A \<in> set (take i rs) then colAt rs i else if r = 0x0A then Suc i else Suc (Suc i))"
  by (auto simp: colAt_def takeWhile_append takeWhile_eq_all_conv [THEN iffD2])

text \<open>The scan that started in column \<open>col\<close> of line \<open>line\<close>.\<close>

lemma checkLoop_spec:
  "checkLoop line col rs =
     map (\<lambda>i. \<lparr>Rune = rs ! i, Name = nameOf (rs ! i), Line = line + lineAt rs i - 1,
                Col = (if 0x0A \<in> set (take i rs) then colAt rs i else col + i)\<rparr>)
       (filter (\<lambda>i. suspicious (rs ! i)) [0..<length rs])"
proof (induction line col rs rule: checkLoop.induct)
  case (2 line col r rs)
  have up: "[0..<length (r # rs)] = 0 # map Suc [0..<length rs]"
    by (simp add: upt_conv_Cons map_Suc_upt del: upt_Suc)
  show ?case
    unfolding up using "2.IH"
    by (auto simp: filter_map o_def lineAt_Cons colAt_Cons) (simp_all add: lineAt_def)
qed simp

section \<open>Groups\<close>

text \<open>The reference view of the report: one group per code point in first-occurrence order, cut to the
  first \<open>n\<close> positions overall.\<close>

definition groupsOf :: "Finding list \<Rightarrow> Finding list list" where
  "groupsOf fs = map (\<lambda>r. filter (\<lambda>f. Rune f = r) fs) (rev (remdups (rev (map Rune fs))))"

fun takeGroups :: "nat \<Rightarrow> Finding list list \<Rightarrow> Finding list list" where
  "takeGroups n [] = []"
| "takeGroups n (g # gs) = (if n = 0 then [] else take n g # takeGroups (n - length g) gs)"

definition groupText :: "Finding list \<Rightarrow> bytes" where
  "groupText g = ''U+'' @ hex04 (Rune (hd g)) @ '' ('' @ Name (hd g) @ '') at '' @
     join (map position g) '', ''"

lemma groupLoop_append:
  "groupLoop order byRune (fs @ gs) =
    (case groupLoop order byRune fs of (order', byRune') \<Rightarrow> groupLoop order' byRune' gs)"
  by (induction fs arbitrary: order byRune) (simp_all add: Let_def)

lemma groupLoop_spec:
  "groupLoop [] Map.empty fs =
     (rev (remdups (rev (map Rune fs))),
      \<lambda>r. if r \<in> Rune ` set fs then Some (filter (\<lambda>f. Rune f = r) fs) else None)"
proof (induction fs rule: rev_induct)
  case (snoc f fs)
  then show ?case by (auto simp: groupLoop_append Let_def fun_eq_iff filter_empty_conv image_iff)
qed simp

lemma restLoop_spec:
  "restLoop listed seg fs =
     (listed + length (take (maxListedPositions - listed) fs),
      seg @ concat (map (\<lambda>f. '', '' @ position f) (take (maxListedPositions - listed) fs)))"
  by (induction listed seg fs rule: restLoop.induct) (auto simp: take_Cons' Suc_diff_Suc)

lemma join_map_position:
  "join (map position (f # fs)) '', '' = position f @ concat (map (\<lambda>f. '', '' @ position f) fs)"
  by (induction fs arbitrary: f) auto

lemma segLoop_spec:
  assumes "\<forall>r \<in> set order. \<exists>l. byRune r = Some l \<and> l \<noteq> [] \<and> (\<forall>f \<in> set l. Rune f = r)"
    and "listed \<le> maxListedPositions"
  shows "segLoop byRune listed parts order =
    (min maxListedPositions (listed + sum_list (map (\<lambda>r. length (the (byRune r))) order)),
     parts @ map groupText (takeGroups (maxListedPositions - listed) (map (\<lambda>r. the (byRune r)) order)))"
  using assms
proof (induction byRune listed parts order rule: segLoop.induct)
  case (2 byRune listed parts r order)
  from "2.prems" obtain f l where l: "byRune r = Some (f # l)" "Rune f = r"
    by (metis list.exhaust list.set_intros(1))
  show ?case
  proof (cases "listed \<ge> maxListedPositions")
    case True
    with "2.prems" show ?thesis by simp
  next
    case False
    then obtain m where m: "maxListedPositions - listed = Suc m" "maxListedPositions - Suc listed = m"
      by (metis Suc_diff_Suc not_le)
    let ?n = "listed + 1 + length (take m l)"
    let ?seg = "groupText (f # take m l)"
    have seg: "(''U+'' @ hex04 r @ '' ('' @ Name f @ '') at '' @ position f) @
        concat (map (\<lambda>f. '', '' @ position f) (take m l)) = ?seg"
      using l(2) by (simp only: groupText_def list.sel join_map_position append.assoc)
    have r: "restLoop (listed + 1) (''U+'' @ hex04 r @ '' ('' @ Name f @ '') at '' @ position f) l = (?n, ?seg)"
      using m seg by (simp add: restLoop_spec)
    have le: "?n \<le> maxListedPositions" using m by simp
    have step: "segLoop byRune listed parts (r # order) = segLoop byRune ?n (parts @ [?seg]) order"
      using False by (simp add: l(1) r Let_def del: append.simps One_nat_def)
    have "segLoop byRune ?n (parts @ [?seg]) order =
        (min maxListedPositions (?n + sum_list (map (\<lambda>r. length (the (byRune r))) order)),
         (parts @ [?seg]) @ map groupText (takeGroups (maxListedPositions - ?n) (map (\<lambda>r. the (byRune r)) order)))"
      using "2.prems" le False
      by (intro "2.IH" [OF False refl refl refl]) (simp_all add: l(1) r del: append.simps One_nat_def)
    then show ?thesis
      unfolding step using m l(1) by (auto simp: min_def)
  qed
qed simp

lemma sum_filter_length:
  "finite A \<Longrightarrow> g ` set xs \<subseteq> A \<Longrightarrow> (\<Sum>r\<in>A. length (filter (\<lambda>x. g x = r) xs)) = length xs"
proof (induction xs)
  case (Cons x xs)
  have "(\<Sum>r\<in>A. length (filter (\<lambda>x. g x = r) (x # xs))) =
      (\<Sum>r\<in>A. (if g x = r then 1 else 0) + length (filter (\<lambda>x. g x = r) xs))"
    by (rule sum.cong) auto
  with Cons show ?case by (simp add: sum.distrib)
qed simp

lemma sum_groupsOf: "sum_list (map length (groupsOf fs)) = length fs"
proof -
  have "sum_list (map length (groupsOf fs)) =
      (\<Sum>r \<in> set (map Rune fs). length (filter (\<lambda>f. Rune f = r) fs))"
    unfolding groupsOf_def map_map o_def
    by (subst sum_list_distinct_conv_sum_set) simp_all
  also have "\<dots> = length fs"
    by (rule sum_filter_length) auto
  finally show ?thesis .
qed

lemma segLoop_groups:
  "(case groupLoop [] Map.empty fs of (order, byRune) \<Rightarrow> segLoop byRune 0 [] order) =
     (min 5 (length fs), map groupText (takeGroups 5 (groupsOf fs)))"
proof -
  let ?order = "rev (remdups (rev (map Rune fs)))"
  let ?b = "\<lambda>r. if r \<in> Rune ` set fs then Some (filter (\<lambda>f. Rune f = r) fs) else None"
  have m: "map (\<lambda>r. the (?b r)) ?order = groupsOf fs"
    by (simp add: groupsOf_def)
  have "sum_list (map (\<lambda>r. length (the (?b r))) ?order) = sum_list (map length (map (\<lambda>r. the (?b r)) ?order))"
    by (simp add: o_def)
  then have len: "sum_list (map (\<lambda>r. length (the (?b r))) ?order) = length fs"
    unfolding m sum_groupsOf .
  have "segLoop ?b 0 [] ?order = (min maxListedPositions (0 + length fs),
      [] @ map groupText (takeGroups (maxListedPositions - 0) (groupsOf fs)))"
    using segLoop_spec [of ?order ?b 0 "[]", unfolded m len]
    by (auto simp: filter_empty_conv)
  then show ?thesis by (simp add: groupLoop_spec maxListedPositions_def)
qed

lemma takeGroups_groupsOf_nonempty: "fs \<noteq> [] \<Longrightarrow> 0 < n \<Longrightarrow> takeGroups n (groupsOf fs) \<noteq> []"
  by (cases "groupsOf fs") (auto simp: groupsOf_def)

section \<open>Properties\<close>

text \<open>C39. The scan reports exactly the suspicious code points of the text (the C0 controls other than
  tab, newline and carriage return, and DELETE), in order, each with its name, the 1-based line (one
  more than the newlines before it) and the 1-based column (one more than the runes since the last
  newline).\<close>

theorem check_exact:
  "Check s =
     (let rs = map fst (segs s) in
      map (\<lambda>i. \<lparr>Rune = rs ! i, Name = nameOf (rs ! i),
                 Line = Suc (count_list (take i rs) 0x0A),
                 Col = Suc (length (takeWhile (\<lambda>r. r \<noteq> 0x0A) (rev (take i rs))))\<rparr>)
        (filter (\<lambda>i. rs ! i \<le> 0x1F \<and> rs ! i \<notin> {0x09, 0x0A, 0x0D} \<or> rs ! i = 0x7F) [0..<length rs]))"
proof -
  have f: "suspicious = (\<lambda>r. r \<le> 0x1F \<and> r \<notin> {0x09, 0x0A, 0x0D} \<or> r = 0x7F)"
    by (auto simp: suspicious_def fun_eq_iff)
  have col: "(if 0x0A \<in> set (take i rs) then colAt rs i else 1 + i) = colAt rs i"
    if "i < length rs" for i and rs :: "nat list"
  proof (cases "0x0A \<in> set (take i rs)")
    case False
    then have "takeWhile (\<lambda>r. r \<noteq> 0x0A) (rev (take i rs)) = rev (take i rs)"
      by (auto simp: takeWhile_eq_all_conv)
    then have "length (takeWhile (\<lambda>r. r \<noteq> 0x0A) (rev (take i rs))) = length (rev (take i rs))"
      by (rule arg_cong)
    with False that show ?thesis by (simp add: colAt_def)
  qed simp
  show ?thesis
    unfolding Check_def Let_def checkLoop_spec f [symmetric]
    by (rule map_cong) (auto simp: col lineAt_def colAt_def [symmetric] f)
qed

text \<open>C40. The warning lists the findings grouped by code point in order of first occurrence, at most
  five positions overall, and counts every finding it does not list.\<close>

theorem render_warning_exact:
  assumes "findings \<noteq> []"
  shows "RenderWarn what findings =
    (let gs = map groupText (takeGroups 5 (groupsOf findings)) in
     ''content warning: '' @ what @ '' contains suspicious control characters: '' @
     join (if 5 < length findings
           then butlast gs @ [last gs @ '' +'' @ itoa (int (length findings) - 5) @ '' more'']
           else gs) ''; '' @
     '' '' @ [CHR 0xE2, CHR 0x80, CHR 0x94] @
     '' these often result from escape sequences (e.g. '' @ [CHR 0x5C] @ ''b, '' @ [CHR 0x5C] @
     ''v) being corrupted upstream before this tool received them; the file was written exactly as received; if this is unintended, read the file back and rewrite the affected text with corrected escapes'')"
proof -
  obtain order byRune where g: "groupLoop [] Map.empty findings = (order, byRune)" by fastforce
  from segLoop_groups [of findings] have s: "segLoop byRune 0 [] order =
      (min 5 (length findings), map groupText (takeGroups 5 (groupsOf findings)))"
    by (simp add: g)
  have more: "int (length findings - min 5 (length findings)) = int (length findings) - 5"
    if "5 < length findings" using that by simp
  have lt: "min 5 (length findings) < length findings \<longleftrightarrow> 5 < length findings" by auto
  from assms have ne: "length findings \<noteq> 0" by simp
  show ?thesis
  proof (cases "5 < length findings")
    case True
    show ?thesis
      unfolding RenderWarn_def g prod.case s Let_def lt more [OF True] using ne True by (simp only: if_False if_True)
  next
    case False
    then show ?thesis
      unfolding RenderWarn_def g prod.case s Let_def lt using ne by (simp only: if_False)
  qed
qed

lemma render_warning_exact_witness:
  "RenderWarn ''content'' (Check [CHR 0x08]) \<noteq> []"
proof -
  have "Check [CHR 0x08] \<noteq> []" by (simp add: Check_def segs_ascii suspicious_def)
  from render_warning_exact [OF this, of "''content''"] show ?thesis by (simp only: Let_def) simp
qed

end
