(* ===== verification/FileTools.thy ===== *)
theory FileTools
  imports ToolsCore EditEngine LineIO ContentWarn
begin

text \<open>
  The handlers of \<open>read\<close>, \<open>write\<close>, \<open>edit\<close>, \<open>multi_edit\<close> (\<open>read.go\<close>, \<open>write.go\<close>, \<open>edit.go\<close>) and
  \<open>mkdir\<close> (\<open>mkdir.go\<close>). A handler returns its output record or an error; the request's own context is
  the context 0. Log lines are not modelled.
\<close>

record ReadInput =
  ri_FilePath :: bytes
  ri_Offset :: int
  ri_Limit :: int

record ReadOutput =
  ro_Content :: bytes
  ro_Footer :: bytes

record writeAck =
  wa_BytesWritten :: int
  wa_Warning :: bytes

record editAck =
  ea_Matches :: nat
  ea_Warning :: bytes

record EditItem =
  ei_OldString :: bytes
  ei_NewString :: bytes
  ei_ReplaceAll :: bool

record MkdirOutput =
  mo_DirPath :: bytes
  mo_Status :: bytes

record snap =
  sn_content :: bytes
  sn_size :: int
  sn_mtime :: int

text \<open>The stat-then-read closure that \<open>Read\<close> and \<open>editFlow\<close> share.\<close>

definition snapOnce :: "bytes \<Rightarrow> bytes list \<Rightarrow> bytes \<Rightarrow> snap ioe" where
  "snapOnce resolved base rel =
     bindE (rStat base rel) (\<lambda>info.
     if IsDir info then err (EIsDir resolved)
     else
       bindE (rReadFile base rel) (\<lambda>data.
       ok \<lparr>sn_content = data, sn_size = fi_size info, sn_mtime = fi_mtime info\<rparr>))"

definition readSnap :: "Conn \<Rightarrow> bytes \<Rightarrow> snap ioe" where
  "readSnap c resolved =
     mapErr (mapFSErr resolved) (runFS (WithRoot (c_dirs c) resolved (snapOnce resolved)))"

definition readLocked :: "Conn \<Rightarrow> bytes \<Rightarrow> int \<Rightarrow> int \<Rightarrow> ReadOutput ioe" where
  "readLocked c resolved offset limit =
     bindE (readSnap c resolved) (\<lambda>snap.
     bindE (liftR (Render (sn_content snap) offset limit)) (\<lambda>res.
     sessMarkRead c resolved (sn_size snap) (sn_mtime snap) \<bind> (\<lambda>_.
     ok \<lparr>ro_Content = Text res, ro_Footer = Footer res\<rparr>)))"

definition Read :: "Conn \<Rightarrow> ReadInput \<Rightarrow> ReadOutput ioe" where
  "Read c inp =
     (let offset = (if ri_Offset inp = 0 then 1 else ri_Offset inp);
          limit = (if ri_Limit inp = 0 then DefaultLines else ri_Limit inp)
      in case ValidateArgs offset limit of
           Some e \<Rightarrow> err e
         | None \<Rightarrow>
             bindE (c_validate c (ri_FilePath inp)) (\<lambda>resolved.
             withLocks c 0 ''read'' resolved (readLocked c resolved offset limit)))"

section \<open>write\<close>

definition statTarget :: "bytes \<Rightarrow> bytes list \<Rightarrow> bytes \<Rightarrow> finfo option ioe" where
  "statTarget resolved base rel =
     rStat base rel \<bind> (\<lambda>r.
     case r of
       Inr info \<Rightarrow> if IsDir info then err (EIsDir resolved) else ok (Some info)
     | Inl e \<Rightarrow> if isNotExist e then ok None else err e)"

definition claimOnce :: "bytes \<Rightarrow> nat \<Rightarrow> bytes list \<Rightarrow> bytes \<Rightarrow> unit ioe" where
  "claimOnce resolved mode base rel =
     rCreateExcl base rel mode \<bind> (\<lambda>r.
     case r of
       Inl e \<Rightarrow>
         if isExist e then err (EStaleReadNeverRead resolved)
         else if isNotExist e then err (EParentMissing (Dir resolved))
         else err e
     | Inr f \<Rightarrow> fClose f)"

text \<open>The freshness gate of an existing target, with the re-check before the write; and the claim of a new
  one. The result says whether the name was claimed, and the mode to write with.\<close>

definition writeGate :: "Conn \<Rightarrow> bytes \<Rightarrow> (bool \<times> nat) ioe" where
  "writeGate c resolved =
     bindE (mapErr (mapFSErr resolved) (retryPlain (WithRoot (c_dirs c) resolved (statTarget resolved)))) (\<lambda>target.
     case target of
       Some info \<Rightarrow>
         sessCompare c resolved (fi_size info) (fi_mtime info) \<bind> (\<lambda>status.
         case status of
           StatusUnknown \<Rightarrow> err (EStaleReadNeverRead resolved)
         | StatusStale \<Rightarrow> err (EStaleRead resolved)
         | StatusMatch \<Rightarrow>
             bindE (mapErr (mapFSErr resolved) (statFile c resolved)) (\<lambda>(cursize, curmtime, curmode).
             if cursize \<noteq> fi_size info \<or> curmtime \<noteq> fi_mtime info then err (EStaleRead resolved)
             else ok (False, fi_mode info)))
     | None \<Rightarrow>
         bindE (mapErr (mapFSErr resolved) (retryPlain (WithRoot (c_dirs c) resolved (claimOnce resolved 420)))) (\<lambda>_.
         ok (True, 420)))"

definition writeLocked :: "Conn \<Rightarrow> bytes \<Rightarrow> bytes \<Rightarrow> writeAck ioe" where
  "writeLocked c resolved content =
     bindE (writeGate c resolved) (\<lambda>(claimed, mode).
     atomicWrite c resolved content mode \<bind> (\<lambda>r.
     case r of
       Inl e \<Rightarrow>
         (if claimed then ignore (retryPlain (WithRoot (c_dirs c) resolved rRemove)) else ret ()) \<bind> (\<lambda>_.
         err (mapFSErr resolved e))
     | Inr _ \<Rightarrow>
         markKnown c resolved (int (length content)) \<bind> (\<lambda>_.
         ok \<lparr>wa_BytesWritten = int (length content), wa_Warning = RenderWarn ''content'' (Check content)\<rparr>)))"

definition Write :: "Conn \<Rightarrow> bytes \<Rightarrow> bytes \<Rightarrow> writeAck ioe" where
  "Write c filePath content =
     bindE (c_validate c filePath) (\<lambda>resolved.
     withLocks c 0 ''write'' resolved (writeLocked c resolved content))"

section \<open>edit and multi_edit\<close>

text \<open>\<open>editFlow\<close>; \<open>apply\<close> returns the new content with whatever the handler keeps of it.\<close>

definition editFlow :: "Conn \<Rightarrow> bytes \<Rightarrow> (bytes \<Rightarrow> (goerr, bytes \<times> 'a) result) \<Rightarrow> 'a ioe" where
  "editFlow c resolved applyFn =
     bindE (readSnap c resolved) (\<lambda>cur.
     sessCompare c resolved (sn_size cur) (sn_mtime cur) \<bind> (\<lambda>status.
     case status of
       StatusUnknown \<Rightarrow> err (EStaleReadNeverRead resolved)
     | StatusStale \<Rightarrow> err (EStaleRead resolved)
     | StatusMatch \<Rightarrow>
         bindE (liftR (applyFn (sn_content cur))) (\<lambda>(out, extra).
         bindE (mapErr (mapFSErr resolved) (statFile c resolved)) (\<lambda>(cursize, mtime, mode).
         if cursize \<noteq> sn_size cur \<or> mtime \<noteq> sn_mtime cur then err (EStaleRead resolved)
         else
           bindE (mapErr (mapFSErr resolved) (atomicWrite c resolved out mode)) (\<lambda>_.
           markKnown c resolved (int (length out)) \<bind> (\<lambda>_. ok extra))))))"

definition applyEdit :: "bytes \<Rightarrow> EditItem \<Rightarrow> bytes \<Rightarrow> (goerr, bytes \<times> nat) result" where
  "applyEdit resolved e content =
     (case ApplyOnce content (ei_OldString e) (ei_NewString e) (ei_ReplaceAll e) of
        Inl x \<Rightarrow> Inl (withPath resolved x)
      | Inr (out, n) \<Rightarrow> Inr (out, n))"

definition EditTool :: "Conn \<Rightarrow> bytes \<Rightarrow> EditItem \<Rightarrow> editAck ioe" where
  "EditTool c filePath e =
     bindE (c_validate c filePath) (\<lambda>resolved.
     withLocks c 0 ''edit'' resolved (
     bindE (editFlow c resolved (applyEdit resolved e)) (\<lambda>matches.
     ok \<lparr>ea_Matches = matches, ea_Warning = RenderWarn ''new_string'' (Check (ei_NewString e))\<rparr>)))"

definition applyEdits :: "EditItem list \<Rightarrow> bytes \<Rightarrow> (goerr, bytes \<times> unit) result" where
  "applyEdits es content =
     map_sum (\<lambda>x. x) (\<lambda>out. (out, ()))
       (ApplyMany content (map (\<lambda>e. \<lparr>Old = ei_OldString e, New = ei_NewString e, ReplaceAll = ei_ReplaceAll e\<rparr>) es))"

fun warnLoop :: "nat \<Rightarrow> EditItem list \<Rightarrow> bytes list" where
  "warnLoop i [] = []"
| "warnLoop i (e # es) =
     (let w = RenderWarn (''edit #'' @ itoa (int i + 1) @ '' new_string'') (Check (ei_NewString e))
      in (if w \<noteq> [] then [w] else []) @ warnLoop (i + 1) es)"

definition MultiEdit :: "Conn \<Rightarrow> bytes \<Rightarrow> EditItem list \<Rightarrow> editAck ioe" where
  "MultiEdit c filePath es =
     bindE (c_validate c filePath) (\<lambda>resolved.
     if length es = 0 then err (PlainErr ''edits must contain at least one edit'')
     else
       withLocks c 0 ''edit'' resolved (
       bindE (editFlow c resolved (applyEdits es)) (\<lambda>_.
       ok \<lparr>ea_Matches = length es, ea_Warning = join (warnLoop 0 es) ''; ''\<rparr>)))"

section \<open>mkdir\<close>

definition mkdirOnce :: "bytes \<Rightarrow> bytes list \<Rightarrow> bytes \<Rightarrow> bytes ioe" where
  "mkdirOnce resolved base rel =
     rStat base rel \<bind> (\<lambda>r.
     case r of
       Inr info \<Rightarrow> if IsDir info then ok ''exists'' else err (ENotDir resolved)
     | Inl e \<Rightarrow>
         if \<not> isNotExist e then err e
         else
           rMkdir base rel 493 \<bind> (\<lambda>m.
           case m of
             Inr _ \<Rightarrow> ok ''created''
           | Inl e \<Rightarrow>
               if isExist e then
                 rStat base rel \<bind> (\<lambda>s.
                 case s of
                   Inr info \<Rightarrow> if IsDir info then ok ''exists'' else err (ENotDir resolved)
                 | Inl statErr \<Rightarrow> err statErr)
               else if isNotExist e then err (EParentMissing (Dir resolved))
               else err e))"

definition Mkdir :: "Conn \<Rightarrow> bytes \<Rightarrow> MkdirOutput ioe" where
  "Mkdir c dirPath =
     bindE (c_validate c dirPath) (\<lambda>resolved.
     withTimeout 1 \<bind> (\<lambda>_.
     withLocks c 1 ''mkdir'' resolved (
     bindE (mapErr (mapFSErr resolved)
       (runFSContext 1 ''mkdir'' (WithRoot (c_dirs c) resolved (mkdirOnce resolved)))) (\<lambda>status.
     ok \<lparr>mo_DirPath = resolved, mo_Status = status\<rparr>))))"

end
