(* ===== verification/ToolsRel.thy ===== *)
theory ToolsRel
  imports FileTools
begin

text \<open>
  Contracts of the tools that hold under every schedule. The interface is the locale \<open>effect_rel\<close>: a
  relation between the states before and after a call that cannot tell apart states that differ only in
  what other processes did, in locks, leases, retries and the cache of roots (\<open>auxStep\<close>). Everything a
  handler does besides mutating files and markers satisfies such a relation, so that each contract only
  looks at the calls that mutate. It is interpreted on confinement, on the effects that a predicate
  allows, and on the markers of other sessions.
\<close>

text \<open>The cache holds roots that were opened, for allowed directories.\<close>

definition rootsOk :: "bytes list \<Rightarrow> host \<Rightarrow> bool" where
  "rootsOk ds h \<longleftrightarrow> set (h_roots h) \<subseteq> set (h_opened h) \<and> fst ` set (h_opened h) \<subseteq> set ds"

definition auxStep :: "bytes list \<Rightarrow> host \<Rightarrow> host \<Rightarrow> bool" where
  "auxStep ds h h' \<longleftrightarrow> h_fxlog h' = h_fxlog h \<and> h_sess h' = h_sess h \<and>
     set (h_opened h) \<subseteq> set (h_opened h') \<and> (rootsOk ds h \<longrightarrow> rootsOk ds h')"

interpretation aux: step_rel "auxStep ds" for ds
  by unfold_locales (auto simp: auxStep_def)

lemma auxStep_modify:
  assumes "\<And>h. h_fxlog (f h) = h_fxlog h" "\<And>h. h_sess (f h) = h_sess h"
    "\<And>h. h_opened (f h) = h_opened h" "\<And>h. set (h_roots (f h)) \<subseteq> set (h_roots h)"
  shows "state_io_rel (auxStep ds) (modify f)"
  by (rule aux.rel_modify) (use assms in \<open>fastforce simp: auxStep_def rootsOk_def\<close>)

lemma aux_nextTick: "state_io_rel (auxStep ds) nextTick"
  by (auto simp: state_io_rel_def nextTick_def applyTick_def auxStep_def rootsOk_def split: list.split)

lemma aux_runOp:
  assumes "\<And>fs. snd (snd (op fs)) = []"
  shows "state_io_rel (auxStep ds) (runOp op)"
proof (rule state_io_relI)
  fix a h h' assume r: "run_state (runOp op) h = (a, h')"
  obtain v fs fx where o: "op (h_fs h) = (v, fs, fx)" by (cases "op (h_fs h)") auto
  with assms [of "h_fs h"] r have "h' = h\<lparr>h_fs := fs, h_fxlog := h_fxlog h\<rparr>" by (auto simp: runOp_def)
  then show "auxStep ds h h'" by (simp add: auxStep_def rootsOk_def)
qed

lemma aux_readonly: "(\<And>fs. snd (snd (op fs)) = []) \<Longrightarrow> state_io_rel (auxStep ds) (syscall op)"
  by (rule aux.rel_syscall [OF aux_nextTick aux_runOp])

lemma atRoot_effects: "(\<And>p fs. snd (snd (k p fs)) = []) \<Longrightarrow> snd (snd (atRoot base follow rel k fs)) = []"
  by (simp add: atRoot_def split: sum.split)

lemma atKernel_effects: "(\<And>p fs. snd (snd (k p fs)) = []) \<Longrightarrow> snd (snd (atKernel follow path k fs)) = []"
  by (simp add: atKernel_def failOp_def split: sum.split)

lemma readonly_ops:
  "snd (snd (opStat p fs)) = []" "snd (snd (opReadlink p fs)) = []" "snd (snd (opReadFile p fs)) = []"
  "snd (snd (opOpenDir p fs)) = []" "snd (snd (opOpen p fs)) = []" "snd (snd (opReadRest f fs)) = []"
  "snd (snd (okOp v fs)) = []"
  by (auto simp: opStat_def opReadlink_def opReadFile_def opOpenDir_def opOpen_def opReadRest_def
      okOp_def failOp_def split: option.split node.split)

lemma aux_calls:
  "state_io_rel (auxStep ds) (rStat base rel)" "state_io_rel (auxStep ds) (rLstat base rel)"
  "state_io_rel (auxStep ds) (rReadFile base rel)" "state_io_rel (auxStep ds) (rOpen base rel)"
  "state_io_rel (auxStep ds) (fReadRest f)" "state_io_rel (auxStep ds) (fSync f)"
  "state_io_rel (auxStep ds) (fClose f)" "state_io_rel (auxStep ds) (lstat p)"
  "state_io_rel (auxStep ds) (stat p)" "state_io_rel (auxStep ds) (readlink p)"
  "state_io_rel (auxStep ds) (OpenRoot d)"
  unfolding rStat_def rLstat_def rReadFile_def rOpen_def fReadRest_def fSync_def fClose_def lstat_def stat_def
    readlink_def OpenRoot_def
  by (intro aux_readonly atRoot_effects atKernel_effects readonly_ops)+

interpretation auxwalk: walk_rel "auxStep ds" for ds
  by unfold_locales (fact aux_calls)+

lemma aux_Validate: "state_io_rel (auxStep ds) (c_validate c raw)"
  unfolding c_validate_def by (rule auxwalk.rel_Validate)

lemma aux_state:
  "state_io_rel (auxStep ds) markSucceeded" "state_io_rel (auxStep ds) rlock"
  "state_io_rel (auxStep ds) runlock" "state_io_rel (auxStep ds) (acquire t p)"
  "state_io_rel (auxStep ds) (release t p)" "state_io_rel (auxStep ds) (withTimeout k)"
  unfolding markSucceeded_def rlock_def runlock_def acquire_def release_def withTimeout_def
  by (intro auxStep_modify; simp split: option.split)+

lemma aux_sleeps: "state_io_rel (auxStep ds) (sleepPlain d)" "state_io_rel (auxStep ds) (sleepContext ctx d)"
  unfolding sleepPlain_def sleepContext_def by (intro aux.rel_intros aux_nextTick auxStep_modify; simp)+

lemma set_update_subset: "set (AList.update k v xs) \<subseteq> insert (k, v) (set xs)"
  by (induction xs) auto

lemma aux_cacheRoot: "d \<in> set ds \<Longrightarrow> state_io_rel (auxStep ds) (cacheRoot d base)"
  unfolding cacheRoot_def
  by (rule aux.rel_modify) (use set_update_subset in \<open>fastforce simp: auxStep_def rootsOk_def\<close>)

lemma aux_resolve: "state_io_rel (auxStep ds) (resolve ds path)"
  unfolding resolve_def Let_def
  by (intro aux.rel_intros aux_calls aux_cacheRoot) (use owner_in in blast)

lemma aux_reopenLoop: "set xs \<subseteq> set ds \<Longrightarrow> state_io_rel (auxStep ds) (reopenLoop acc xs)"
proof (induction xs arbitrary: acc)
  case (Cons d xs)
  then show ?case unfolding reopenLoop.simps Let_def by (intro aux.rel_intros aux_calls aux_cacheRoot) auto
qed (simp add: aux.rel_ret)

text \<open>Without the invariant the cache may name any directory; then only the first half of \<open>auxStep\<close>
  says anything.\<close>

lemma run_ReopenAll:
  "run_state ReopenAll h =
    run_state (reopenLoop None (map fst (h_roots h)) \<bind> (\<lambda>e. case e of None \<Rightarrow> ok () | Some e \<Rightarrow> err e))
      (h\<lparr>h_stuck := h_stuck h \<or> 0 < h_lease h, h_roots := []\<rparr>)"
  by (simp add: ReopenAll_def)

lemma aux_ReopenAll: "state_io_rel (auxStep ds) ReopenAll"
proof (rule state_io_relI)
  fix a h h' assume run: "run_state ReopenAll h = (a, h')"
  let ?h1 = "h\<lparr>h_stuck := h_stuck h \<or> 0 < h_lease h, h_roots := []\<rparr>"
  let ?ds = "map fst (h_roots h) @ ds"
  have "state_io_rel (auxStep ?ds) (reopenLoop None (map fst (h_roots h)) \<bind>
      (\<lambda>e. case e of None \<Rightarrow> ok () | Some e \<Rightarrow> err e))"
    by (intro aux.rel_intros aux_reopenLoop) auto
  from state_io_relD [OF this run [unfolded run_ReopenAll]] have a: "auxStep ?ds ?h1 h'" .
  have "rootsOk ds h'" if "rootsOk ds h"
  proof -
    from that have "rootsOk ?ds ?h1" by (auto simp: rootsOk_def)
    with a have "rootsOk ?ds h'" by (simp add: auxStep_def)
    moreover from that have "set ?ds = set ds" by (fastforce simp: rootsOk_def)
    ultimately show ?thesis by (simp add: rootsOk_def)
  qed
  with a show "auxStep ds h h'" by (simp add: auxStep_def)
qed

section \<open>Running under a root\<close>

lemma run_WithRoot:
  "run_state (WithRoot ds path op) h =
    (case run_state (resolve ds path) (h\<lparr>h_lease := h_lease h + 1\<rparr>) of
       (Inl e, h1) \<Rightarrow> (Inl e, h1\<lparr>h_lease := h_lease h1 - 1\<rparr>)
     | (Inr (base, rel), h1) \<Rightarrow>
         (case run_state (op base rel) h1 of (r, h2) \<Rightarrow> (r, h2\<lparr>h_lease := h_lease h2 - 1\<rparr>)))"
  by (auto simp: WithRoot_def rlock_def runlock_def run_bindE split: prod.split sum.split)

lemma resolve_Inr:
  assumes "run_state (resolve ds path) h = (Inr (base, rel), h')"
  shows "rel = relName (owner ds path) path" "owner ds path \<in> set ds"
    "rootsOk ds h \<Longrightarrow> (owner ds path, base) \<in> set (h_opened h')"
proof -
  from assms have ne: "owner ds path \<noteq> []" by (auto simp: resolve_def split: if_splits)
  then show "owner ds path \<in> set ds" using owner_in by blast
  from assms ne show "rel = relName (owner ds path) path"
    by (auto simp: resolve_def Let_def run_bindE split: if_splits option.splits prod.splits sum.splits)
  show "(owner ds path, base) \<in> set (h_opened h')" if "rootsOk ds h"
    using assms ne that
    by (auto simp: resolve_def Let_def run_bindE rootsOk_def cacheRoot_def
        split: option.splits prod.splits sum.splits dest!: map_of_SomeD)
qed

text \<open>What the locking around a handler needs.\<close>

locale lock_rel = step_rel +
  assumes lock_tick: "state_io_rel R nextTick"
    and lock_acquire: "state_io_rel R (acquire tbl path)"
    and lock_release: "state_io_rel R (release tbl path)"
begin

lemma rel_LockContext: "state_io_rel R (LockContext ctx tbl path)"
  unfolding LockContext_def by (intro rel_intros lock_tick lock_acquire)

lemma rel_LockFile: "state_io_rel R (LockFile token path)"
  unfolding LockFile_def by (intro rel_intros lock_tick lock_acquire)

lemma rel_withLocks:
  assumes "state_io_rel R body"
  shows "state_io_rel R (withLocks c ctx stage resolved body)"
  unfolding withLocks_def by (intro rel_intros rel_LockContext rel_LockFile lock_release assms)

text \<open>The handler is refused before its body, or runs the body between related states.\<close>

lemma withLocks_split:
  assumes "run_state (withLocks c ctx stage resolved body) h = (r, h')"
  obtains (refused) "isl r" "R h h'"
  | (ran) h1 h2 where "R h h1" "run_state body h1 = (r, h2)" "R h2 h'"
proof -
  obtain r1 h1 where l: "run_state (LockContext ctx PLocks resolved) h = (r1, h1)" by fastforce
  with rel_LockContext have R1: "R h h1" by (rule state_io_relD)
  show thesis
  proof (cases r1)
    case (Inl e)
    with assms l R1 show ?thesis by (intro refused) (auto simp: withLocks_def)
  next
    case (Inr u)
    obtain h2 where f: "run_state (LockFile (c_token c) resolved) h1 = ((), h2)"
      by (metis (full_types) prod.exhaust unit.exhaust)
    with rel_LockFile R1 have R2: "R h h2" by (blast dest: state_io_relD intro: trans)
    obtain r3 h3 where b: "run_state body h2 = (r3, h3)" by fastforce
    from assms l Inr f b have tail: "run_state (release (SessLocks (c_token c)) resolved \<bind> (\<lambda>_.
        release PLocks resolved \<bind> (\<lambda>_. ret r3))) h3 = (r, h')"
      by (simp add: withLocks_def)
    then have "r = r3" by (auto split: prod.splits)
    moreover have "R h3 h'"
      using rel_bind [OF lock_release rel_bind [OF lock_release rel_ret]] tail by (rule state_io_relD)
    ultimately show ?thesis using R2 b by (intro ran) auto
  qed
qed

end

text \<open>Validation and locking together: the front of every handler that writes.\<close>

locale front_rel = walk_rel R + lock_rel R for R
begin

lemma front_split:
  assumes "run_state (bindE (c_validate c raw) (\<lambda>p. withLocks c' ctx stage p (body p))) h = (r, h')"
  obtains (refused) "isl r" "R h h'"
  | (ran) p h1 h2 h3 where "run_state (c_validate c raw) h = (Inr p, h1)" "R h h2"
      "run_state (body p) h2 = (r, h3)" "R h3 h'"
proof -
  obtain r1 h1 where v: "run_state (c_validate c raw) h = (r1, h1)" by fastforce
  with rel_Validate have R1: "R h h1" unfolding c_validate_def by (rule state_io_relD)
  show thesis
  proof (cases r1)
    case (Inl e)
    with assms v R1 show ?thesis by (intro refused) (auto simp: run_bindE)
  next
    case (Inr p)
    with assms v have "run_state (withLocks c' ctx stage p (body p)) h1 = (r, h')" by (simp add: run_bindE)
    then show ?thesis
    proof (cases rule: withLocks_split)
      case refused
      with R1 trans that(1) show ?thesis by blast
    next
      case (ran h2 h3)
      with R1 trans v Inr that(2) show ?thesis by blast
    qed
  qed
qed

end

interpretation auxlock: lock_rel "auxStep ds" for ds
  by unfold_locales (fact aux_nextTick aux_state)+

interpretation auxfront: front_rel "auxStep ds" for ds ..

locale effect_rel = step_rel +
  fixes ds :: "bytes list"
  assumes aux_step: "auxStep ds h h' \<Longrightarrow> R h h'"
begin

lemma lift: "state_io_rel (auxStep ds) m \<Longrightarrow> state_io_rel R m"
  by (auto simp: state_io_rel_def aux_step)

lemmas rel_nextTick = lift [OF aux_nextTick]
lemmas rel_calls = aux_calls [THEN lift]
lemmas rel_state = aux_state [THEN lift]
lemmas rel_sleeps = aux_sleeps [THEN lift]
lemmas rel_Validate = lift [OF aux_Validate]
lemmas rel_ReopenAll = lift [OF aux_ReopenAll]
lemmas rel_resolve = lift [OF aux_resolve]

end

sublocale effect_rel < lock_rel R
  by unfold_locales (fact rel_nextTick rel_state)+

context effect_rel
begin

lemma rel_ignore: "state_io_rel R m \<Longrightarrow> state_io_rel R (ignore m)"
  unfolding ignore_def by (intro rel_intros)

lemma rel_WithRoot:
  assumes "\<And>base. state_io_rel R (op base (relName (owner ds path) path))"
  shows "state_io_rel R (WithRoot ds path op)"
proof -
  have main: "state_io_rel R (bindE (resolve ds path) (\<lambda>(base, rel). op base rel))"
  proof (rule state_io_relI)
    fix a h h' assume run: "run_state (bindE (resolve ds path) (\<lambda>(base, rel). op base rel)) h = (a, h')"
    obtain r1 h1 where r1: "run_state (resolve ds path) h = (r1, h1)" by fastforce
    with rel_resolve have R1: "R h h1" by (auto dest: state_io_relD)
    show "R h h'"
    proof (cases r1)
      case (Inl e)
      with run r1 R1 show ?thesis by (simp add: run_bindE)
    next
      case (Inr br)
      obtain base rel where br: "br = (base, rel)" by fastforce
      with Inr r1 have "rel = relName (owner ds path) path" by (simp add: resolve_Inr)
      with run r1 Inr br have "run_state (op base (relName (owner ds path) path)) h1 = (a, h')"
        by (simp add: run_bindE)
      with assms R1 trans show ?thesis by (blast dest: state_io_relD)
    qed
  qed
  show ?thesis
    unfolding WithRoot_def by (rule rel_bind [OF rel_state(2)], rule rel_bind [OF main]) (intro rel_intros rel_state)
qed

lemma rel_retry:
  assumes "state_io_rel R op"
  shows "state_io_rel R (retryPlain op)" "state_io_rel R (runFS op)" "state_io_rel R (runFSContext ctx stage op)"
  unfolding retryPlain_def runFS_def runFSContext_def Do_def DoContext_def onRetry_def
  by (intro rel_mapErr rel_retryDo assms rel_sleeps rel_state; clarsimp simp: rel_ReopenAll)+

lemma WithRoot_Inr:
  assumes "run_state (WithRoot ds path op) h = (Inr v, h')"
  shows "\<exists>base h1 h2. R h h1 \<and> run_state (op base (relName (owner ds path) path)) h1 = (Inr v, h2) \<and> R h2 h'"
proof -
  obtain base rel h1 where r: "run_state (resolve ds path) (h\<lparr>h_lease := h_lease h + 1\<rparr>) = (Inr (base, rel), h1)"
    using assms by (auto simp: run_WithRoot split: prod.splits sum.splits)
  obtain h2 where o: "run_state (op base rel) h1 = (Inr v, h2)" "h' = h2\<lparr>h_lease := h_lease h2 - 1\<rparr>"
    using assms r by (auto simp: run_WithRoot split: prod.splits)
  have "R h (h\<lparr>h_lease := h_lease h + 1\<rparr>)" "R h2 h'"
    by (rule aux_step; simp add: auxStep_def rootsOk_def o(2))+
  with r o(1) state_io_relD [OF rel_resolve r] resolve_Inr(1) [OF r] show ?thesis by (blast intro: trans)
qed

end

section \<open>Calls that mutate\<close>

text \<open>A relation together with a condition on the result.\<close>

definition relpost :: "(host \<Rightarrow> host \<Rightarrow> bool) \<Rightarrow> 'a io \<Rightarrow> ('a \<Rightarrow> bool) \<Rightarrow> bool" where
  "relpost R m Q \<longleftrightarrow> (\<forall>h r h'. run_state m h = (r, h') \<longrightarrow> R h h' \<and> Q r)"

lemma relpost_rel: "relpost R m Q \<Longrightarrow> state_io_rel R m"
  by (auto simp: relpost_def intro: state_io_relI)

lemma relpostD: "relpost R m Q \<Longrightarrow> run_state m h = (r, h') \<Longrightarrow> R h h' \<and> Q r"
  by (simp add: relpost_def)

context step_rel
begin

lemma rp_rel: "state_io_rel R m \<Longrightarrow> relpost R m (\<lambda>_. True)"
  by (auto simp: relpost_def dest: state_io_relD)

lemma rp_bind:
  "relpost R m Q \<Longrightarrow> (\<And>x. Q x \<Longrightarrow> relpost R (f x) Q') \<Longrightarrow> relpost R (m \<bind> f) Q'"
  unfolding relpost_def by (auto split: prod.splits) (metis trans)+

lemma rp_ok: "Q (Inr x) \<Longrightarrow> relpost R (ok x) Q"
  and rp_err: "Q (Inl e) \<Longrightarrow> relpost R (err e) Q"
  and rp_ret: "Q' y \<Longrightarrow> relpost R (ret y) Q'"
  by (auto simp: relpost_def refl)

lemma rp_bindE:
  assumes "relpost R m Q" and "\<And>x. Q (Inr x) \<Longrightarrow> relpost R (f x) Q'" and "\<And>e. Q' (Inl e)"
  shows "relpost R (bindE m f) Q'"
  unfolding bindE_def
  by (rule rp_bind [OF assms(1)]) (auto intro: rp_err assms split: sum.split)

lemma rp_weaken: "relpost R m Q \<Longrightarrow> (\<And>x. Q x \<Longrightarrow> Q' x) \<Longrightarrow> relpost R m Q'"
  by (auto simp: relpost_def)

end

text \<open>The paths that a root-relative name can mean in some state of the file system.\<close>

definition mayBe :: "bytes list \<Rightarrow> bool \<Rightarrow> bytes \<Rightarrow> bytes list \<Rightarrow> bool" where
  "mayBe base follow rel p \<longleftrightarrow> (\<exists>fs. rootPath fs base follow rel = Inr p)"

lemma mayBe_below: "mayBe base follow rel p \<Longrightarrow> prefix base p"
  by (auto simp: mayBe_def dest: rootPath_below)

lemma atRoot_all:
  "(\<And>p. mayBe base follow rel p \<Longrightarrow> list_all P (snd (snd (k p fs)))) \<Longrightarrow>
    list_all P (snd (snd (atRoot base follow rel k fs)))"
  by (auto simp: atRoot_def mayBe_def split: sum.split)

text \<open>A temporary name, and a handle that was opened by it.\<close>

definition tempRes :: "bytes list \<Rightarrow> bytes \<Rightarrow> (goerr, bytes \<times> handle) result \<Rightarrow> bool" where
  "tempRes base pre r \<longleftrightarrow>
     (\<forall>t f. r = Inr (t, f) \<longrightarrow> (\<exists>s. t = pre @ hexEncode s \<and> mayBe base False t (hd_path f)))"

locale mutate_rel = effect_rel +
  fixes okFx :: "effect \<Rightarrow> bool"
  assumes fx_step: "list_all okFx fx \<Longrightarrow> R h (h\<lparr>h_fs := fs, h_fxlog := h_fxlog h @ fx\<rparr>)"
begin

lemma rel_runOp: "(\<And>fs. list_all okFx (snd (snd (op fs)))) \<Longrightarrow> state_io_rel R (runOp op)"
  by (auto simp: state_io_rel_def run_runOp intro: fx_step)

lemma rel_mutating: "(\<And>fs. list_all okFx (snd (snd (op fs)))) \<Longrightarrow> state_io_rel R (syscall op)"
  by (rule rel_syscall [OF rel_nextTick rel_runOp])

text \<open>What may come back from a call is what its operation returns in some state.\<close>

lemma rp_syscallPart:
  assumes "\<And>lim fs. list_all okFx (snd (snd (op lim fs)))"
    and "\<And>lim fs v. fst (op lim fs) = Inr v \<Longrightarrow> Q v"
  shows "relpost R (syscallPart op) (\<lambda>r. \<forall>v. r = Inr v \<longrightarrow> Q v)"
proof -
  have o: "relpost R (runOp (op lim)) (\<lambda>r. \<forall>v. r = Inr v \<longrightarrow> Q v)" for lim
    using assms by (auto simp: relpost_def run_runOp map_sum_def intro!: fx_step split: sum.splits)
  have f: "relpost R (failErrno e) (\<lambda>r. \<forall>v. r = Inr v \<longrightarrow> Q v)" for e
    by (simp add: relpost_def failErrno_def refl)
  show ?thesis
    unfolding syscallPart_def
    by (rule rp_bind [OF rp_rel [OF rel_nextTick]])
      (auto intro: o f rp_bind [OF rp_rel [OF relpost_rel [OF o]]] split: fault.split)
qed

lemma rel_rRemove:
  "(\<And>p. mayBe base False rel p \<Longrightarrow> okFx (FxRemove p)) \<Longrightarrow> state_io_rel R (rRemove base rel)"
  unfolding rRemove_def
  by (intro rel_mutating atRoot_all) (auto simp: opRemove_def failOp_def split: option.split node.split)

lemma rel_rChmod:
  "(\<And>p. mayBe base True rel p \<Longrightarrow> okFx (FxChmod p)) \<Longrightarrow> state_io_rel R (rChmod base rel mode)"
  unfolding rChmod_def
  by (intro rel_mutating atRoot_all) (auto simp: opChmod_def failOp_def split: option.split node.split)

lemma rel_rMkdir:
  "(\<And>p. mayBe base False rel p \<Longrightarrow> okFx (FxMkdir p)) \<Longrightarrow> state_io_rel R (rMkdir base rel mode)"
  unfolding rMkdir_def
  by (intro rel_mutating atRoot_all) (auto simp: opMkdir_def failOp_def split: option.split)

lemma rel_rRename:
  "(\<And>p q d. mayBe base False old p \<Longrightarrow> mayBe base False new q \<Longrightarrow> okFx (FxRename p q d)) \<Longrightarrow>
    state_io_rel R (rRename base old new)"
  unfolding rRename_def atRoot2_def
  by (intro rel_mutating atRoot_all)
    (auto simp: opRename_def failOp_def okOp_def split: option.split node.split)

lemma rel_rLink:
  "(\<And>p q d. mayBe base False old p \<Longrightarrow> mayBe base False new q \<Longrightarrow> okFx (FxLink p q d)) \<Longrightarrow>
    state_io_rel R (rLink base old new)"
  unfolding rLink_def atRoot2_def
  by (intro rel_mutating atRoot_all) (auto simp: opLink_def failOp_def split: option.split node.split)

lemma rp_rCreateExcl:
  assumes "\<And>p. mayBe base False rel p \<Longrightarrow> okFx (FxCreate p)"
  shows "relpost R (rCreateExcl base rel mode) (\<lambda>r. \<forall>f. r = Inr f \<longrightarrow> mayBe base False rel (hd_path f))"
  unfolding rCreateExcl_def syscall_def
proof (rule rp_syscallPart)
  fix fs
  show "list_all okFx (snd (snd (atRoot base False rel (opCreateExcl mode) fs)))"
    using assms by (intro atRoot_all) (auto simp: opCreateExcl_def failOp_def split: option.split)
next
  fix fs v
  assume "fst (atRoot base False rel (opCreateExcl mode) fs) = Inr v"
  then show "mayBe base False rel (hd_path v)"
    by (auto simp: atRoot_def opCreateExcl_def failOp_def mayBe_def split: sum.splits option.splits)
qed

lemma rel_fWrite:
  assumes "\<And>d. prefix d data \<Longrightarrow> okFx (FxWrite (hd_path f) d)"
  shows "state_io_rel R (fWrite f data)"
  unfolding fWrite_def
  by (intro rel_syscallPart rel_nextTick rel_runOp)
    (simp add: opWrite_def Let_def assms take_is_prefix split: option.split)

lemma rp_tempLoop:
  assumes "\<And>s p. mayBe base False (pre @ hexEncode s) p \<Longrightarrow> okFx (FxCreate p)"
  shows "relpost R (tempLoop base pre e n) (tempRes base pre)"
proof (induction n arbitrary: e)
  case (Suc n)
  show ?case
    unfolding tempLoop.simps
  proof (rule rp_bind)
    show "relpost R randomSuffix (\<lambda>suf. \<exists>s. suf = hexEncode s)"
      unfolding randomSuffix_def by (rule rp_bind [OF rp_rel [OF rel_nextTick]]) (auto intro: rp_ret)
  next
    fix suf assume "\<exists>s. suf = hexEncode s"
    then obtain s where s: "suf = hexEncode s" ..
    show "relpost R (rCreateExcl base (pre @ suf) 384 \<bind> case_sum (\<lambda>e. if \<not> isExist e then err e
        else tempLoop base pre e n) (\<lambda>f. ok (pre @ suf, f))) (tempRes base pre)"
      unfolding s
    proof (rule rp_bind [OF rp_rCreateExcl [OF assms]])
      fix r :: "(goerr, handle) result"
      assume r: "\<forall>f. r = Inr f \<longrightarrow> mayBe base False (pre @ hexEncode s) (hd_path f)"
      show "relpost R (case r of Inl e \<Rightarrow> if \<not> isExist e then err e else tempLoop base pre e n
          | Inr f \<Rightarrow> ok (pre @ hexEncode s, f)) (tempRes base pre)"
      proof (cases r)
        case (Inl x)
        have "relpost R (err x) (tempRes base pre)" by (rule rp_err) (simp add: tempRes_def)
        then show ?thesis using Suc.IH by (simp add: Inl)
      next
        case (Inr f)
        with r have "tempRes base pre (Inr (pre @ hexEncode s, f))" by (auto simp: tempRes_def)
        then show ?thesis by (simp add: Inr rp_ok)
      qed
    qed
  qed
qed (auto intro!: rp_err simp: tempRes_def)

lemma rel_atomicWriteOnce:
  fixes rel
  defines "pre \<equiv> tempDirPrefix (Dir rel)"
  assumes tmp: "\<And>s p. mayBe base False (pre @ hexEncode s) p \<Longrightarrow>
      okFx (FxCreate p) \<and> okFx (FxRemove p) \<and> (\<forall>d. prefix d data \<longrightarrow> okFx (FxWrite p d))"
    and chmod: "\<And>s p. mayBe base True (pre @ hexEncode s) p \<Longrightarrow> okFx (FxChmod p)"
    and ren: "\<And>s p q d. mayBe base False (pre @ hexEncode s) p \<Longrightarrow> mayBe base False rel q \<Longrightarrow> okFx (FxRename p q d)"
  shows "state_io_rel R (atomicWriteOnce data mode base rel)"
  unfolding atomicWriteOnce_def createTempIn_def pre_def [symmetric]
proof (rule relpost_rel, rule rp_bindE [OF rp_tempLoop])
  show "okFx (FxCreate p)" if "mayBe base False (pre @ hexEncode s) p" for s p
    using tmp [OF that] by simp
next
  fix tf :: "bytes \<times> handle"
  assume a: "tempRes base pre (Inr tf)"
  obtain t f where tf: "tf = (t, f)" by fastforce
  with a obtain s where s: "t = pre @ hexEncode s" "mayBe base False t (hd_path f)"
    by (auto simp: tempRes_def)
  have w: "state_io_rel R (fWrite f data)" using tmp s by (intro rel_fWrite) auto
  have c: "state_io_rel R (rChmod base t mode)" using chmod s by (intro rel_rChmod) auto
  have rn: "state_io_rel R (rRename base t rel)" using ren s by (intro rel_rRename) auto
  have rm: "state_io_rel R (rRemove base t)" using tmp s by (intro rel_rRemove) auto
  have "state_io_rel R (fillAndRename base t rel f data mode)"
    unfolding fillAndRename_def by (intro rel_intros rel_ignore rel_calls w c rn)
  then have "state_io_rel R (fillAndRename base t rel f data mode \<bind>
      (\<lambda>r. case r of Inl e \<Rightarrow> ignore (rRemove base t) \<bind> (\<lambda>_. err e) | Inr _ \<Rightarrow> ok ()))"
    by (intro rel_intros rel_ignore rm)
  then show "relpost R (case tf of (tmpRel, f) \<Rightarrow> fillAndRename base tmpRel rel f data mode \<bind>
      (\<lambda>r. case r of Inl e \<Rightarrow> ignore (rRemove base tmpRel) \<bind> (\<lambda>_. err e) | Inr _ \<Rightarrow> ok ())) (\<lambda>_. True)"
    unfolding tf prod.case by (rule rp_rel)
qed simp

end

section \<open>Handlers\<close>

text \<open>The interface of the handler bodies: what they call besides mutating operations.\<close>

locale handler_rel = step_rel +
  fixes ds :: "bytes list"
  assumes body_ReopenAll: "state_io_rel R ReopenAll"
    and body_sleepPlain: "state_io_rel R (sleepPlain d)"
    and body_sleepContext: "state_io_rel R (sleepContext ctx d)"
    and body_markSucceeded: "state_io_rel R markSucceeded"
    and body_rStat: "state_io_rel R (WithRoot ds p rStat)"
    and body_snapOnce: "state_io_rel R (WithRoot ds p (snapOnce p))"
    and body_statTarget: "state_io_rel R (WithRoot ds p (statTarget p))"
begin

lemma body_retry:
  assumes "state_io_rel R op"
  shows "state_io_rel R (retryPlain op)" "state_io_rel R (runFS op)" "state_io_rel R (runFSContext ctx stage op)"
  unfolding retryPlain_def runFS_def runFSContext_def Do_def DoContext_def onRetry_def
  by (intro rel_mapErr rel_retryDo assms body_sleepPlain body_sleepContext body_markSucceeded;
      clarsimp simp: body_ReopenAll)+

lemma retry_Inr:
  assumes "state_io_rel R op"
  shows "run_state (retryPlain op) h = (Inr v, h') \<Longrightarrow> \<exists>h1 h2. R h h1 \<and> run_state op h1 = (Inr v, h2) \<and> R h2 h'"
    "run_state (runFS op) h = (Inr v, h') \<Longrightarrow> \<exists>h1 h2. R h h1 \<and> run_state op h1 = (Inr v, h2) \<and> R h2 h'"
    "run_state (runFSContext ctx stage op) h = (Inr v, h') \<Longrightarrow>
       \<exists>h1 h2. R h h1 \<and> run_state op h1 = (Inr v, h2) \<and> R h2 h'"
proof -
  have hk: "state_io_rel R (f k)" if "onRetry = Some f" for f k
    using that body_ReopenAll by (auto simp: onRetry_def)
  have "\<exists>h1 h2. R h h1 \<and> run_state op h1 = (Inr v, h2) \<and> R h2 h'"
    if "run_state (Do onRetry op) h = (Inr v, h')"
    using assms body_sleepPlain hk body_markSucceeded that [unfolded Do_def] by (rule retryDo_Inr)
  moreover have "\<exists>h1 h2. R h h1 \<and> run_state op h1 = (Inr v, h2) \<and> R h2 h'"
    if "run_state (DoContext (Some ctx) onRetry op) h = (Inr v, h')"
    using assms body_sleepContext hk body_markSucceeded that [unfolded DoContext_def] by (rule retryDo_Inr)
  ultimately show "run_state (retryPlain op) h = (Inr v, h') \<Longrightarrow> \<exists>h1 h2. R h h1 \<and> run_state op h1 = (Inr v, h2) \<and> R h2 h'"
    "run_state (runFS op) h = (Inr v, h') \<Longrightarrow> \<exists>h1 h2. R h h1 \<and> run_state op h1 = (Inr v, h2) \<and> R h2 h'"
    "run_state (runFSContext ctx stage op) h = (Inr v, h') \<Longrightarrow>
       \<exists>h1 h2. R h h1 \<and> run_state op h1 = (Inr v, h2) \<and> R h2 h'"
    by (auto simp: retryPlain_def runFS_def runFSContext_def run_mapErr split: sum.splits prod.splits)
qed

lemma body_ignore: "state_io_rel R m \<Longrightarrow> state_io_rel R (ignore m)"
  unfolding ignore_def by (intro rel_intros)

lemma rel_case_Status:
  "state_io_rel R m1 \<Longrightarrow> state_io_rel R m2 \<Longrightarrow> state_io_rel R m3 \<Longrightarrow>
    state_io_rel R (case st of StatusUnknown \<Rightarrow> m1 | StatusMatch \<Rightarrow> m2 | StatusStale \<Rightarrow> m3)"
  by (simp split: Status.split)

lemma rel_readSnap:
  assumes "c_dirs c = ds"
  shows "state_io_rel R (readSnap c resolved)"
  unfolding readSnap_def assms by (intro rel_intros body_retry body_snapOnce)

lemma rel_statFile:
  assumes "c_dirs c = ds"
  shows "state_io_rel R (statFile c resolved)"
  unfolding statFile_def assms by (intro rel_intros body_retry body_rStat)

lemma rel_markKnown:
  assumes "c_dirs c = ds" and "\<And>n t. state_io_rel R (sessMarkRead c resolved n t)"
  shows "state_io_rel R (markKnown c resolved n')"
  unfolding markKnown_def Let_def assms(1)
  by (intro rel_intros body_retry assms(2) body_rStat)

lemma rel_readLocked:
  assumes "c_dirs c = ds" and "\<And>n t. state_io_rel R (sessMarkRead c resolved n t)"
  shows "state_io_rel R (readLocked c resolved offset limit)"
  unfolding readLocked_def by (intro rel_intros rel_readSnap assms)

lemma rel_writeGate:
  assumes "c_dirs c = ds" and "\<And>m. state_io_rel R (WithRoot ds resolved (claimOnce resolved m))"
  shows "state_io_rel R (writeGate c resolved)"
  unfolding writeGate_def sessCompare_def assms(1)
  by (intro rel_intros rel_case_Status body_retry body_statTarget rel_statFile assms; assumption)

lemma rel_writeLocked:
  assumes "c_dirs c = ds" and "\<And>m. state_io_rel R (WithRoot ds resolved (claimOnce resolved m))"
    and "\<And>d m. state_io_rel R (WithRoot ds resolved (atomicWriteOnce d m))"
    and "state_io_rel R (WithRoot ds resolved rRemove)"
    and "\<And>n t. state_io_rel R (sessMarkRead c resolved n t)"
  shows "state_io_rel R (writeLocked c resolved content)"
  unfolding writeLocked_def atomicWrite_def assms(1)
  by (intro rel_intros rel_writeGate body_retry body_ignore rel_markKnown assms)

lemma rel_editFlow:
  assumes "c_dirs c = ds" and "\<And>d m. state_io_rel R (WithRoot ds resolved (atomicWriteOnce d m))"
    and "\<And>n t. state_io_rel R (sessMarkRead c resolved n t)"
  shows "state_io_rel R (editFlow c resolved f)"
  unfolding editFlow_def sessCompare_def atomicWrite_def assms(1)
  by (intro rel_intros rel_case_Status rel_readSnap rel_statFile body_retry rel_markKnown assms)

end

text \<open>Every relation of effects is one: the bodies only add what \<open>auxStep\<close> ignores.\<close>

sublocale effect_rel < handler_rel R ds
proof unfold_locales
  show "state_io_rel R (WithRoot ds p rStat)" for p
    by (intro rel_WithRoot rel_calls)
  show "state_io_rel R (WithRoot ds p (snapOnce p))" for p
    by (rule rel_WithRoot) (unfold snapOnce_def, intro rel_intros rel_calls)
  show "state_io_rel R (WithRoot ds p (statTarget p))" for p
    by (rule rel_WithRoot) (unfold statTarget_def, intro rel_intros rel_calls)
qed (fact rel_ReopenAll rel_sleeps rel_state)+

context effect_rel
begin

lemma rel_Read:
  assumes "c_dirs c = ds" and "\<And>p n t. state_io_rel R (sessMarkRead c p n t)"
  shows "state_io_rel R (Read c inp)"
  unfolding Read_def Let_def
  by (intro rel_intros rel_Validate rel_withLocks rel_readLocked assms)

lemma rel_handlers:
  assumes "c_dirs c = ds"
    and "\<And>p m. state_io_rel R (WithRoot ds p (claimOnce p m))"
    and "\<And>p d m. state_io_rel R (WithRoot ds p (atomicWriteOnce d m))"
    and "\<And>p. state_io_rel R (WithRoot ds p rRemove)"
    and "\<And>p. state_io_rel R (WithRoot ds p (mkdirOnce p))"
    and "\<And>p n t. state_io_rel R (sessMarkRead c p n t)"
  shows "state_io_rel R (Write c path content)" "state_io_rel R (EditTool c path e)"
    "state_io_rel R (MultiEdit c path es)" "state_io_rel R (Mkdir c path)"
  unfolding Write_def EditTool_def MultiEdit_def Mkdir_def assms(1)
  by (intro rel_intros rel_Validate rel_withLocks rel_writeLocked rel_editFlow rel_retry rel_state assms)+

end

context mutate_rel
begin

lemma rel_claimOnce:
  assumes "\<And>p. mayBe base False rel p \<Longrightarrow> okFx (FxCreate p)"
  shows "state_io_rel R (claimOnce resolved mode base rel)"
  unfolding claimOnce_def
  by (intro rel_intros rel_calls relpost_rel [OF rp_rCreateExcl] assms)

lemma rel_mkdirOnce:
  assumes "\<And>p. mayBe base False rel p \<Longrightarrow> okFx (FxMkdir p)"
  shows "state_io_rel R (mkdirOnce resolved base rel)"
  unfolding mkdirOnce_def
  by (intro rel_intros rel_calls rel_rMkdir assms)

end

section \<open>Confinement\<close>

text \<open>Below a root that was opened for an allowed directory.\<close>

definition fxBelow :: "(bytes \<times> bytes list) set \<Rightarrow> effect \<Rightarrow> bool" where
  "fxBelow opened e \<longleftrightarrow> (\<forall>p \<in> set (fxPaths e). \<exists>(d, base) \<in> opened. prefix base p)"

definition confinedTo :: "bytes list \<Rightarrow> bytes list set \<Rightarrow> host \<Rightarrow> host \<Rightarrow> bool" where
  "confinedTo ds B h h' \<longleftrightarrow>
     (rootsOk ds h \<and> B \<subseteq> snd ` set (h_opened h) \<longrightarrow>
      rootsOk ds h' \<and> set (h_opened h) \<subseteq> set (h_opened h') \<and>
      (\<exists>fx. h_fxlog h' = h_fxlog h @ fx \<and> (\<forall>e \<in> set fx. fxBelow (set (h_opened h')) e)))"

lemma fxBelow_mono: "fxBelow A e \<Longrightarrow> A \<subseteq> B \<Longrightarrow> fxBelow B e"
  unfolding fxBelow_def by (meson subsetD)

lemma confinedTo_refl: "confinedTo ds B h h"
  by (simp add: confinedTo_def)

lemma confinedTo_trans:
  assumes "confinedTo ds B h h1" and "confinedTo ds B h1 h2"
  shows "confinedTo ds B h h2"
  unfolding confinedTo_def
proof
  assume pre: "rootsOk ds h \<and> B \<subseteq> snd ` set (h_opened h)"
  with assms(1) obtain fx1 where 1: "rootsOk ds h1" "set (h_opened h) \<subseteq> set (h_opened h1)"
    "h_fxlog h1 = h_fxlog h @ fx1" "\<forall>e \<in> set fx1. fxBelow (set (h_opened h1)) e"
    unfolding confinedTo_def by blast
  with pre have "B \<subseteq> snd ` set (h_opened h1)" by blast
  with 1(1) assms(2) obtain fx2 where 2: "rootsOk ds h2" "set (h_opened h1) \<subseteq> set (h_opened h2)"
    "h_fxlog h2 = h_fxlog h1 @ fx2" "\<forall>e \<in> set fx2. fxBelow (set (h_opened h2)) e"
    unfolding confinedTo_def by blast
  have "\<forall>e \<in> set (fx1 @ fx2). fxBelow (set (h_opened h2)) e"
    using 1(4) 2(2,4) fxBelow_mono by (simp add: ball_Un) blast
  with 1 2 show "rootsOk ds h2 \<and> set (h_opened h) \<subseteq> set (h_opened h2) \<and>
      (\<exists>fx. h_fxlog h2 = h_fxlog h @ fx \<and> (\<forall>e \<in> set fx. fxBelow (set (h_opened h2)) e))"
    by auto
qed

lemma confinedTo_aux: "auxStep ds h h1 \<Longrightarrow> confinedTo ds B h h1"
  by (auto simp: confinedTo_def auxStep_def)

lemma confinedTo_fx:
  assumes "list_all (\<lambda>e. \<forall>p \<in> set (fxPaths e). prefix base p) fx"
  shows "confinedTo ds {base} h (h\<lparr>h_fs := fs, h_fxlog := h_fxlog h @ fx\<rparr>)"
  unfolding confinedTo_def
proof
  assume pre: "rootsOk ds h \<and> {base} \<subseteq> snd ` set (h_opened h)"
  then obtain d where "(d, base) \<in> set (h_opened h)" by auto
  with assms have "\<forall>e \<in> set fx. fxBelow (set (h_opened h)) e"
    unfolding fxBelow_def list_all_iff by blast
  with pre show "rootsOk ds (h\<lparr>h_fs := fs, h_fxlog := h_fxlog h @ fx\<rparr>) \<and>
      set (h_opened h) \<subseteq> set (h_opened (h\<lparr>h_fs := fs, h_fxlog := h_fxlog h @ fx\<rparr>)) \<and>
      (\<exists>fx'. h_fxlog (h\<lparr>h_fs := fs, h_fxlog := h_fxlog h @ fx\<rparr>) = h_fxlog h @ fx' \<and>
        (\<forall>e \<in> set fx'. fxBelow (set (h_opened (h\<lparr>h_fs := fs, h_fxlog := h_fxlog h @ fx\<rparr>))) e))"
    by (simp add: rootsOk_def)
qed

interpretation conf: mutate_rel "confinedTo ds {base}" ds "\<lambda>e. \<forall>p \<in> set (fxPaths e). prefix base p" for ds base
  by unfold_locales (fact confinedTo_refl, erule confinedTo_trans, assumption, erule confinedTo_aux, erule confinedTo_fx)

interpretation scope: effect_rel "confinedTo ds {}" ds for ds
  by unfold_locales (fact confinedTo_refl, erule confinedTo_trans, assumption, erule confinedTo_aux)

text \<open>An operation that stays below the root it is given is confined when it runs under \<open>WithRoot\<close>.\<close>

lemma confined_WithRoot:
  assumes "\<And>base. state_io_rel (confinedTo ds {base}) (op base (relName (owner ds path) path))"
  shows "state_io_rel (confinedTo ds {}) (WithRoot ds path op)"
proof -
  have main: "state_io_rel (confinedTo ds {}) (bindE (resolve ds path) (\<lambda>(base, rel). op base rel))"
  proof (rule state_io_relI)
    fix a h h' assume run: "run_state (bindE (resolve ds path) (\<lambda>(base, rel). op base rel)) h = (a, h')"
    obtain r1 h1 where r1: "run_state (resolve ds path) h = (r1, h1)" by fastforce
    with scope.rel_resolve have R1: "confinedTo ds {} h h1" by (auto dest: state_io_relD)
    show "confinedTo ds {} h h'"
    proof (cases r1)
      case (Inl e)
      with run r1 R1 show ?thesis by (simp add: run_bindE)
    next
      case (Inr br)
      obtain base rel where br: "br = (base, rel)" by fastforce
      note res = resolve_Inr [OF r1 [unfolded Inr br]]
      from run r1 Inr br res(1) have o: "run_state (op base (relName (owner ds path) path)) h1 = (a, h')"
        by (simp add: run_bindE)
      from state_io_relD [OF assms o] have R2: "confinedTo ds {base} h1 h'" .
      show ?thesis
      proof (cases "rootsOk ds h")
        case True
        with res(3) have "base \<in> snd ` set (h_opened h1)" by force
        with R2 have "confinedTo ds {} h1 h'" by (simp add: confinedTo_def)
        with R1 show ?thesis by (rule confinedTo_trans)
      qed (simp add: confinedTo_def)
    qed
  qed
  show ?thesis
    unfolding WithRoot_def
    by (rule scope.rel_bind [OF scope.rel_state(2)], rule scope.rel_bind [OF main])
      (intro scope.rel_intros scope.rel_state)
qed

lemma confined_ops:
  "state_io_rel (confinedTo ds {}) (WithRoot ds p (claimOnce p' m))"
  "state_io_rel (confinedTo ds {}) (WithRoot ds p (atomicWriteOnce d m))"
  "state_io_rel (confinedTo ds {}) (WithRoot ds p rRemove)"
  "state_io_rel (confinedTo ds {}) (WithRoot ds p (mkdirOnce p'))"
  by (intro confined_WithRoot conf.rel_claimOnce conf.rel_atomicWriteOnce conf.rel_rRemove conf.rel_mkdirOnce;
      auto dest: mayBe_below)+

lemma confined_mark: "state_io_rel (confinedTo ds B) (sessMarkRead c p n t)"
  unfolding sessMarkRead_def state_io_rel_def
  by (auto simp: confinedTo_def rootsOk_def)

section \<open>The effects a predicate allows\<close>

definition fxAll :: "(effect \<Rightarrow> bool) \<Rightarrow> host \<Rightarrow> host \<Rightarrow> bool" where
  "fxAll P h h' \<longleftrightarrow> (\<exists>fx. h_fxlog h' = h_fxlog h @ fx \<and> list_all P fx)"

interpretation fxs: mutate_rel "fxAll P" ds P for P ds
proof unfold_locales
  show "fxAll P h h" for h by (simp add: fxAll_def)
  show "fxAll P h1 h3" if "fxAll P h1 h2" "fxAll P h2 h3" for h1 h2 h3
  proof -
    from that obtain a b where "h_fxlog h2 = h_fxlog h1 @ a" "list_all P a" "h_fxlog h3 = h_fxlog h2 @ b" "list_all P b"
      unfolding fxAll_def by blast
    then show ?thesis unfolding fxAll_def by (intro exI [of _ "a @ b"]) simp
  qed
  show "fxAll P h h'" if "auxStep ds h h'" for h h'
    using that by (simp add: fxAll_def auxStep_def)
  show "fxAll P h (h\<lparr>h_fs := fs, h_fxlog := h_fxlog h @ fx\<rparr>)" if "list_all P fx" for h fs fx
    using that by (simp add: fxAll_def)
qed

lemma fxAll_mark: "state_io_rel (fxAll P) (sessMarkRead c p n t)"
  by (simp add: sessMarkRead_def state_io_rel_def fxAll_def)

section \<open>Other sessions\<close>

definition othersSame :: "bytes \<Rightarrow> host \<Rightarrow> host \<Rightarrow> bool" where
  "othersSame token h h' \<longleftrightarrow> (\<forall>t. t \<noteq> token \<longrightarrow> h_sess h' t = h_sess h t)"

interpretation others: mutate_rel "othersSame token" ds "\<lambda>_. True" for token ds
  by unfold_locales (auto simp: othersSame_def auxStep_def)

lemma others_mark: "state_io_rel (othersSame (c_token c)) (sessMarkRead c p n t)"
  by (simp add: sessMarkRead_def state_io_rel_def othersSame_def)

lemma others_ops:
  "state_io_rel (othersSame token) (WithRoot ds p (claimOnce p' m))"
  "state_io_rel (othersSame token) (WithRoot ds p (atomicWriteOnce d m))"
  "state_io_rel (othersSame token) (WithRoot ds p rRemove)"
  "state_io_rel (othersSame token) (WithRoot ds p (mkdirOnce p'))"
  by (intro others.rel_WithRoot others.rel_claimOnce others.rel_atomicWriteOnce others.rel_rRemove
      others.rel_mkdirOnce; simp)+

end
