(* ===== verification/ToolsLocks.thy ===== *)
theory ToolsLocks
  imports ToolsRel
begin

text \<open>
  Lock discipline of the handlers: no lock and no lease outlives a call, the session lock is taken inside
  the process lock, and a call never waits for something it holds itself (\<open>h_stuck\<close>), in particular never
  reopens the roots under its own lease. The relations here are interpretations of \<open>step_rel\<close> and
  \<open>handler_rel\<close>; they ignore files and markers.
\<close>

definition lockSame :: "host \<Rightarrow> host \<Rightarrow> bool" where
  "lockSame h h' \<longleftrightarrow> h_held h' = h_held h \<and> h_lease h' = h_lease h \<and> h_stuck h' = h_stuck h"

interpretation lk: step_rel lockSame
  by unfold_locales (auto simp: lockSame_def)

lemma lk_modify:
  "(\<And>h. h_held (f h) = h_held h) \<Longrightarrow> (\<And>h. h_lease (f h) = h_lease h) \<Longrightarrow> (\<And>h. h_stuck (f h) = h_stuck h) \<Longrightarrow>
    state_io_rel lockSame (modify f)"
  by (rule lk.rel_modify) (simp add: lockSame_def)

lemma lk_nextTick: "state_io_rel lockSame nextTick"
  by (auto simp: state_io_rel_def nextTick_def applyTick_def lockSame_def split: list.split)

lemma lk_runOp: "state_io_rel lockSame (runOp op)"
  by (simp add: state_io_rel_def run_runOp lockSame_def)

lemma lk_syscall: "state_io_rel lockSame (syscall op)" "state_io_rel lockSame (syscallPart op')"
  by (intro lk.rel_syscall lk.rel_syscallPart lk_nextTick lk_runOp)+

lemma lk_calls:
  "state_io_rel lockSame (rStat base rel)" "state_io_rel lockSame (rLstat base rel)"
  "state_io_rel lockSame (rReadFile base rel)" "state_io_rel lockSame (rOpen base rel)"
  "state_io_rel lockSame (rCreateExcl base rel mode)" "state_io_rel lockSame (rChmod base rel mode)"
  "state_io_rel lockSame (rRename base rel rel')" "state_io_rel lockSame (rLink base rel rel')"
  "state_io_rel lockSame (rRemove base rel)" "state_io_rel lockSame (rMkdir base rel mode)"
  "state_io_rel lockSame (fWrite f data)" "state_io_rel lockSame (fReadRest f)"
  "state_io_rel lockSame (fSync f)" "state_io_rel lockSame (fClose f)"
  "state_io_rel lockSame (lstat p)" "state_io_rel lockSame (stat p)" "state_io_rel lockSame (readlink p)"
  "state_io_rel lockSame (OpenRoot d)"
  unfolding rStat_def rLstat_def rReadFile_def rOpen_def rCreateExcl_def rChmod_def rRename_def rLink_def
    rRemove_def rMkdir_def fWrite_def fReadRest_def fSync_def fClose_def lstat_def stat_def readlink_def
    OpenRoot_def
  by (rule lk_syscall)+

lemma lk_ignore: "state_io_rel lockSame m \<Longrightarrow> state_io_rel lockSame (ignore m)"
  unfolding ignore_def by (intro lk.rel_intros)

lemma lk_state:
  "state_io_rel lockSame markSucceeded" "state_io_rel lockSame (cacheRoot d base)"
  "state_io_rel lockSame (sessMarkRead c p n t)" "state_io_rel lockSame (sessForget c p)"
  "state_io_rel lockSame (withTimeout k)"
  unfolding markSucceeded_def cacheRoot_def sessMarkRead_def sessForget_def withTimeout_def
  by (intro lk_modify; simp split: option.split)+

lemma lk_sleeps: "state_io_rel lockSame (sleepPlain d)" "state_io_rel lockSame (sleepContext ctx d)"
  unfolding sleepPlain_def sleepContext_def by (intro lk.rel_intros lk_nextTick lk_modify; simp)+

lemma lk_resolve: "state_io_rel lockSame (resolve ds path)"
  unfolding resolve_def Let_def by (intro lk.rel_intros lk_calls lk_state)

interpretation lkwalk: walk_rel lockSame
  by unfold_locales (fact lk_calls)+

lemma lk_Validate: "state_io_rel lockSame (c_validate c raw)"
  unfolding c_validate_def by (rule lkwalk.rel_Validate)

lemma lk_tempLoop: "state_io_rel lockSame (tempLoop base pre e n)"
proof (induction n arbitrary: e)
  case (Suc n)
  then show ?case
    unfolding tempLoop.simps randomSuffix_def by (intro lk.rel_intros lk_nextTick lk_calls)
qed (simp add: lk.rel_err)

lemma lk_ops:
  "state_io_rel lockSame (claimOnce p m base rel)" "state_io_rel lockSame (atomicWriteOnce d m base rel)"
  "state_io_rel lockSame (mkdirOnce p base rel)" "state_io_rel lockSame (snapOnce p base rel)"
  "state_io_rel lockSame (statTarget p base rel)"
  unfolding claimOnce_def atomicWriteOnce_def createTempIn_def fillAndRename_def mkdirOnce_def snapOnce_def
    statTarget_def
  by (intro lk.rel_intros lk_calls lk_ignore lk_tempLoop)+

text \<open>\<open>WithRoot\<close> gives its lease back.\<close>

lemma lk_WithRoot:
  assumes "\<And>base rel. state_io_rel lockSame (op base rel)"
  shows "state_io_rel lockSame (WithRoot ds path op)"
proof (rule state_io_relI)
  fix a h h' assume run: "run_state (WithRoot ds path op) h = (a, h')"
  have "state_io_rel lockSame (bindE (resolve ds path) (\<lambda>(base, rel). op base rel))"
    by (intro lk.rel_intros lk_resolve assms)
  moreover obtain r h1 where r: "run_state (bindE (resolve ds path) (\<lambda>(base, rel). op base rel))
      (h\<lparr>h_lease := h_lease h + 1\<rparr>) = (r, h1)" by fastforce
  ultimately have "lockSame (h\<lparr>h_lease := h_lease h + 1\<rparr>) h1" by (rule state_io_relD)
  moreover have "h' = h1\<lparr>h_lease := h_lease h1 - 1\<rparr>"
    using run r by (auto simp: WithRoot_def rlock_def runlock_def)
  ultimately show "lockSame h h'" by (simp add: lockSame_def)
qed

text \<open>Reopening waits for the leases, so it is only safe without one.\<close>

definition leaseFree :: "host \<Rightarrow> host \<Rightarrow> bool" where
  "leaseFree h h' \<longleftrightarrow> h_held h' = h_held h \<and> h_lease h' = h_lease h \<and> (h_lease h = 0 \<longrightarrow> h_stuck h' = h_stuck h)"

lemma lk_leaseFree: "state_io_rel lockSame m \<Longrightarrow> state_io_rel leaseFree m"
  by (auto simp: state_io_rel_def lockSame_def leaseFree_def)

lemma leaseFree_ReopenAll: "state_io_rel leaseFree ReopenAll"
proof (rule state_io_relI)
  fix a h h' assume run: "run_state ReopenAll h = (a, h')"
  have "state_io_rel lockSame (reopenLoop acc xs)" for acc xs
  proof (induction xs arbitrary: acc)
    case (Cons d xs)
    then show ?case unfolding reopenLoop.simps Let_def by (intro lk.rel_intros lk_calls lk_state)
  qed (simp add: lk.rel_ret)
  then have "state_io_rel lockSame (reopenLoop None (map fst (h_roots h)) \<bind>
      (\<lambda>e. case e of None \<Rightarrow> ok () | Some e \<Rightarrow> err e))"
    by (intro lk.rel_intros)
  from state_io_relD [OF this run [unfolded run_ReopenAll]] show "leaseFree h h'"
    by (simp add: lockSame_def leaseFree_def)
qed

interpretation lf: handler_rel leaseFree ds for ds
proof unfold_locales
  show "leaseFree h h" for h by (simp add: leaseFree_def)
  show "leaseFree h1 h3" if "leaseFree h1 h2" "leaseFree h2 h3" for h1 h2 h3
    using that by (simp add: leaseFree_def)
  show "state_io_rel leaseFree ReopenAll" by (rule leaseFree_ReopenAll)
  show "state_io_rel leaseFree (WithRoot ds p (snapOnce p))" "state_io_rel leaseFree (WithRoot ds p (statTarget p))"
    "state_io_rel leaseFree (WithRoot ds p rStat)" for p
    by (intro lk_leaseFree lk_WithRoot lk_ops lk_calls)+
qed (intro lk_leaseFree lk_sleeps lk_state)+

lemma lf_ops:
  "state_io_rel leaseFree (WithRoot ds p (claimOnce p m))" "state_io_rel leaseFree (WithRoot ds p (atomicWriteOnce d m))"
  "state_io_rel leaseFree (WithRoot ds p rRemove)" "state_io_rel leaseFree (WithRoot ds p (mkdirOnce p))"
  "state_io_rel leaseFree (sessMarkRead c p n t)"
  by (intro lk_leaseFree lk_WithRoot lk_ops lk_calls lk_state)+

text \<open>A whole handler starts and ends with nothing held.\<close>

definition handsFree :: "host \<Rightarrow> host \<Rightarrow> bool" where
  "handsFree h h' \<longleftrightarrow> (h_held h = [] \<and> h_lease h = 0 \<longrightarrow> h_held h' = [] \<and> h_lease h' = 0 \<and> h_stuck h' = h_stuck h)"

interpretation hf: step_rel handsFree
  by unfold_locales (auto simp: handsFree_def)

lemma lk_handsFree: "state_io_rel lockSame m \<Longrightarrow> state_io_rel handsFree m"
  by (auto simp: state_io_rel_def lockSame_def handsFree_def)

lemma run_acquire: "run_state (acquire t p) h =
    ((), h\<lparr>h_stuck := h_stuck h \<or> (t, p) \<in> set (h_held h), h_held := (t, p) # h_held h\<rparr>)"
  by (simp add: acquire_def)

lemma handsFree_withLocks:
  assumes "state_io_rel leaseFree body"
  shows "state_io_rel handsFree (withLocks c ctx stage resolved body)"
proof (rule state_io_relI)
  fix a h h' assume run: "run_state (withLocks c ctx stage resolved body) h = (a, h')"
  obtain t h1 where t: "run_state nextTick h = (t, h1)" by fastforce
  from state_io_relD [OF lk_nextTick this] have l1: "lockSame h h1" .
  show "handsFree h h'"
  proof (cases "ctxErrAt (Some ctx) h1 = None \<or> t_fault t = NoFault")
    case False
    with run t have "h' = h1" by (auto simp: withLocks_def LockContext_def)
    with l1 show ?thesis by (simp add: handsFree_def lockSame_def)
  next
    case True
    let ?h2 = "h1\<lparr>h_stuck := h_stuck h1 \<or> (PLocks, resolved) \<in> set (h_held h1), h_held := (PLocks, resolved) # h_held h1\<rparr>"
    obtain t3 h3 where t3: "run_state nextTick ?h2 = (t3, h3)" by fastforce
    from state_io_relD [OF lk_nextTick this] have l3: "lockSame ?h2 h3" .
    let ?sl = "(SessLocks (c_token c), resolved)"
    let ?h4 = "h3\<lparr>h_stuck := h_stuck h3 \<or> ?sl \<in> set (h_held h3), h_held := ?sl # h_held h3\<rparr>"
    obtain r h5 where b: "run_state body ?h4 = (r, h5)" by fastforce
    from state_io_relD [OF assms this] have l5: "leaseFree ?h4 h5" .
    have "h' = h5\<lparr>h_held := remove1 (PLocks, resolved) (remove1 ?sl (h_held h5))\<rparr>"
      using run t t3 b True
      by (auto simp: withLocks_def LockContext_def LockFile_def run_acquire release_def split: option.splits)
    with l1 l3 l5 show ?thesis by (auto simp: handsFree_def lockSame_def leaseFree_def)
  qed
qed

lemma handsFree_Read: "state_io_rel handsFree (Read c inp)"
  unfolding Read_def Let_def
  by (intro hf.rel_intros lk_handsFree [OF lk_Validate] handsFree_withLocks
      lf.rel_readLocked [where ds = "c_dirs c", OF HOL.refl] lf_ops)

lemma handsFree_Write: "state_io_rel handsFree (Write c path content)"
  unfolding Write_def
  by (intro hf.rel_intros lk_handsFree [OF lk_Validate] handsFree_withLocks
      lf.rel_writeLocked [where ds = "c_dirs c", OF HOL.refl] lf_ops)

lemma handsFree_edit: "state_io_rel handsFree (EditTool c path e)" "state_io_rel handsFree (MultiEdit c path es)"
  unfolding EditTool_def MultiEdit_def
  by (intro hf.rel_intros lk_handsFree [OF lk_Validate] handsFree_withLocks lf.rel_bindE lf.rel_ok
      lf.rel_editFlow [where ds = "c_dirs c", OF HOL.refl] lf_ops)+

lemma handsFree_Mkdir: "state_io_rel handsFree (Mkdir c path)"
  unfolding Mkdir_def
  by (intro hf.rel_intros lk_handsFree [OF lk_Validate] lk_handsFree [OF lk_state(5)] handsFree_withLocks
      lf.rel_bindE lf.rel_ok lf.rel_mapErr lf.body_retry lf_ops)

end
