(* ===== verification/ToolsGate.thy ===== *)
theory ToolsGate
  imports ToolsLocks
begin

text \<open>
  The read-before-write gate. First: which handler changes which marker, namely at most the marker of
  the validated path in the caller's own session, and only when the handler succeeds. Second: which
  effects the bodies of \<open>write\<close> and \<open>edit\<close> can have, and what must be known of the markers before any
  of them. Both hold under every schedule.
\<close>

section \<open>Markers change only on success\<close>

definition sessKeep :: "host \<Rightarrow> host \<Rightarrow> bool" where
  "sessKeep h h' \<longleftrightarrow> h_sess h' = h_sess h"

interpretation keep: mutate_rel sessKeep ds "\<lambda>_. True" for ds
  by unfold_locales (auto simp: sessKeep_def auxStep_def)

lemma keep_ops:
  "state_io_rel sessKeep (WithRoot ds p (claimOnce p' m))"
  "state_io_rel sessKeep (WithRoot ds p (atomicWriteOnce d m))"
  "state_io_rel sessKeep (WithRoot ds p rRemove)"
  "state_io_rel sessKeep (WithRoot ds p (mkdirOnce p'))"
  by (intro keep.rel_WithRoot keep.rel_claimOnce keep.rel_atomicWriteOnce keep.rel_rRemove
      keep.rel_mkdirOnce; simp)+

text \<open>The session after the marker of \<open>p\<close> was set, for the session of \<open>c\<close>.\<close>

definition sessSet :: "Conn \<Rightarrow> bytes \<Rightarrow> int \<Rightarrow> int \<Rightarrow> (bytes \<Rightarrow> markers) \<Rightarrow> bytes \<Rightarrow> markers" where
  "sessSet c p n t s = s(c_token c := MarkRead p n t (s (c_token c)))"

definition marksAtMost :: "Conn \<Rightarrow> bytes \<Rightarrow> 'a ioe \<Rightarrow> bool" where
  "marksAtMost c p m \<longleftrightarrow>
     (\<forall>h r h'. run_state m h = (r, h') \<longrightarrow>
       h_sess h' = h_sess h \<or> (\<exists>n t v. r = Inr v \<and> h_sess h' = sessSet c p n t (h_sess h)))"

lemma marksAtMostD:
  "marksAtMost c p m \<Longrightarrow> run_state m h = (r, h') \<Longrightarrow>
    h_sess h' = h_sess h \<or> (\<exists>n t v. r = Inr v \<and> h_sess h' = sessSet c p n t (h_sess h))"
  by (simp add: marksAtMost_def)

lemma ma_keep: "state_io_rel sessKeep m \<Longrightarrow> marksAtMost c p m"
  unfolding marksAtMost_def by (auto dest: state_io_relD simp: sessKeep_def)

lemma ma_err: "marksAtMost c p (err e)"
  by (rule ma_keep) (rule keep.rel_err)

lemma ma_bind:
  assumes "state_io_rel sessKeep m" and "\<And>x. marksAtMost c p (f x)"
  shows "marksAtMost c p (m \<bind> f)"
  unfolding marksAtMost_def
proof (intro allI impI)
  fix h r h' assume run: "run_state (m \<bind> f) h = (r, h')"
  obtain x h1 where m: "run_state m h = (x, h1)" by fastforce
  with assms(1) have "h_sess h1 = h_sess h" by (auto dest: state_io_relD simp: sessKeep_def)
  moreover from run m have "run_state (f x) h1 = (r, h')" by simp
  note marksAtMostD [OF assms(2) this]
  ultimately show "h_sess h' = h_sess h \<or> (\<exists>n t v. r = Inr v \<and> h_sess h' = sessSet c p n t (h_sess h))"
    by simp
qed

lemma ma_bindE:
  "state_io_rel sessKeep m \<Longrightarrow> (\<And>x. marksAtMost c p (f x)) \<Longrightarrow> marksAtMost c p (bindE m f)"
  unfolding bindE_def by (rule ma_bind) (auto intro: ma_err split: sum.split)

lemma ma_map: "marksAtMost c p m \<Longrightarrow> marksAtMost c p (bindE m (\<lambda>x. ok (f x)))"
  by (fastforce simp: marksAtMost_def run_bindE split: prod.splits sum.splits)

lemma ma_splits:
  "marksAtMost c p m \<Longrightarrow> marksAtMost c p m' \<Longrightarrow> marksAtMost c p (if b then m else m')"
  "marksAtMost c p m1 \<Longrightarrow> marksAtMost c p m2 \<Longrightarrow> marksAtMost c p m3 \<Longrightarrow>
    marksAtMost c p (case st of StatusUnknown \<Rightarrow> m1 | StatusMatch \<Rightarrow> m2 | StatusStale \<Rightarrow> m3)"
  "(\<And>x y. marksAtMost c p (g x y)) \<Longrightarrow> marksAtMost c p (case_prod g xy)"
  "(\<And>x. marksAtMost c p (f x)) \<Longrightarrow> (\<And>y. marksAtMost c p (f' y)) \<Longrightarrow> marksAtMost c p (case_sum f f' s)"
  by (simp_all split: Status.split prod.split sum.split)

lemma ma_mark: "marksAtMost c p (sessMarkRead c p n t \<bind> (\<lambda>_. ok v))"
  by (simp add: marksAtMost_def sessMarkRead_def sessSet_def) blast

lemma ma_markKnown: "marksAtMost c p (markKnown c p n \<bind> (\<lambda>_. ok v))"
proof -
  have "markKnown c p n \<bind> (\<lambda>_. ok v) = runFS (WithRoot (c_dirs c) p rStat) \<bind> (\<lambda>r.
      (case (case r of Inl e \<Rightarrow> (n, zeroTime) | Inr st \<Rightarrow> (fi_size st, fi_mtime st)) of
        (sz, mtime) \<Rightarrow> sessMarkRead c p sz mtime \<bind> (\<lambda>_. ok v)))"
    by (rule state.expand) (auto simp: fun_eq_iff markKnown_def split: prod.split)
  then show ?thesis
    by (simp only:) (intro ma_bind ma_splits ma_mark keep.rel_retry(2) keep.body_rStat)
qed

lemma ma_withLocks:
  assumes "marksAtMost c p m"
  shows "marksAtMost c p (withLocks c' ctx stage resolved m)"
proof -
  have rel: "marksAtMost c p (m \<bind> (\<lambda>res. release a b \<bind> (\<lambda>_. release a' b' \<bind> (\<lambda>_. ret res))))" for a b a' b'
    using assms by (fastforce simp: marksAtMost_def release_def split: prod.splits)
  show ?thesis
    unfolding withLocks_def LockContext_def LockFile_def
    by (intro ma_bind ma_splits ma_err rel keep.rel_bind keep.rel_case_option keep.rel_if keep.rel_ok
        keep.rel_err keep.rel_nextTick keep.rel_state keep.rel_gets)
qed

lemma ma_bodies:
  "marksAtMost c p (readLocked c p offset limit)"
  "marksAtMost c p (writeLocked c p content)"
  "marksAtMost c p (editFlow c p f)"
proof -
  note rels = keep.rel_retry keep.rel_readSnap [OF HOL.refl] keep.rel_statFile [OF HOL.refl]
    keep.rel_writeGate [OF HOL.refl] keep.rel_liftR keep.rel_gets keep.rel_mapErr keep_ops keep.rel_if keep.rel_ret
    keep.rel_ignore
  show "marksAtMost c p (readLocked c p offset limit)"
    unfolding readLocked_def by (intro ma_bindE ma_mark rels)
  show "marksAtMost c p (writeLocked c p content)"
    unfolding writeLocked_def atomicWrite_def by (intro ma_bindE ma_bind ma_splits ma_markKnown ma_err rels)
  show "marksAtMost c p (editFlow c p f)"
    unfolding editFlow_def sessCompare_def atomicWrite_def
    by (intro ma_bindE ma_bind ma_splits ma_markKnown ma_err rels)
qed

section \<open>Which names an operation touches\<close>

text \<open>Without following a last link, a relative name leads to a path with the same last component.\<close>

lemma rootWalk_last:
  assumes "rootWalk fs base False links at cs = Inr q" and "cs \<noteq> []" and "okComp (last cs)"
  shows "q \<noteq> [] \<and> last q = last cs"
  using assms
proof (induction fs base False links at cs rule: rootWalk.induct)
  case (2 fs base links at c cs)
  show ?case
  proof (cases "cs = []")
    case True
    with 2(5,7) show ?thesis by (auto simp: okComp_def split: option.splits node.splits if_splits)
  next
    case False
    with 2 show ?thesis by (auto split: option.splits node.splits if_splits)
  qed
qed simp

lemma mayBe_last:
  assumes "mayBe base False (pre @ c) p" and "okComp c" and "pre = [] \<or> (\<exists>pre'. pre = pre' @ [slash])"
  shows "p \<noteq> [] \<and> last p = c"
proof -
  from assms(2) have "slash \<notin> set c" by (simp add: okComp_def)
  with assms(3) have l: "last (split (pre @ c) [slash]) = c" "split (pre @ c) [slash] \<noteq> []"
    by (auto simp: split_char_append split_char_id)
  from assms(1) obtain fs where "rootPath fs base False (pre @ c) = Inr p" by (auto simp: mayBe_def)
  then obtain q where q: "rootWalk fs base False rootMaxSymlinks [] (split (pre @ c) [slash]) = Inr q" "p = base @ q"
    by (auto simp: rootPath_def split: sum.splits)
  from rootWalk_last [OF q(1) l(2)] l(1) assms(2) q(2) show ?thesis by simp
qed

text \<open>The last component of the relative name of a validated path is its base name.\<close>

lemma relName_last:
  assumes "canonPath d" "canonPath p" "withinPrefix d p" "p \<noteq> d"
  shows "\<exists>pre. relName d p = pre @ Base p \<and> okComp (Base p) \<and> (pre = [] \<or> (\<exists>pre'. pre = pre' @ [slash]))"
proof -
  obtain ds where ds: "list_all okComp ds" "d = absPath ds" "pathComps d = ds" using assms(1) by (rule canonPathE)
  obtain ps where ps: "list_all okComp ps" "p = absPath ps" "pathComps p = ps" using assms(2) by (rule canonPathE)
  from assms(1-3) ds ps obtain zs where zs: "ps = ds @ zs" by (auto simp: pool.inside_iff prefix_def)
  with assms(4) ds ps have "zs \<noteq> []" by auto
  then obtain ys c where ys: "zs = ys @ [c]" by (cases zs rule: rev_cases) auto
  have "relName d p = join (ys @ [c]) [slash]"
    using assms ds ps zs ys by (simp add: relName_canon)
  also have "\<dots> = (if ys = [] then [] else join ys [slash] @ [slash]) @ c"
    by (simp add: join_append)
  finally have "relName d p = (if ys = [] then [] else join ys [slash] @ [slash]) @ c" .
  moreover have "Base p = c" "okComp c"
    using ps zs ys Base_absPath [of "ds @ ys" c] by simp_all
  ultimately show ?thesis by auto
qed

definition tempName :: "bytes list \<Rightarrow> bool" where
  "tempName p \<longleftrightarrow> p \<noteq> [] \<and> hasPrefix (last p) tempPrefix"

lemma hexEncode_no_slash: "slash \<notin> set (hexEncode b)"
proof -
  have "hexLower k \<noteq> slash" if "k < 16" for k
  proof -
    have "hexLower k \<in> set ''0123456789abcdef''" using that by (simp add: hexLower_def del: list.set)
    then show ?thesis by (auto simp: slash_def)
  qed
  moreover have "(of_char c :: nat) div 16 < 16" for c :: char
    using nat_of_char_less_256 [of c] by (simp add: less_mult_imp_div_less)
  moreover have "(of_char c :: nat) mod 16 < 16" for c :: char by simp
  ultimately show ?thesis unfolding hexEncode_def by (auto, (metis)+)
qed

lemma tempName_mayBe:
  assumes "mayBe base False (tempDirPrefix d @ hexEncode b) p"
  shows "tempName p"
proof -
  let ?c = "tempPrefix @ hexEncode b"
  have "okComp ?c"
    using hexEncode_no_slash [of b] by (simp add: okComp_def tempPrefix_def dot_def dotdot_def slash_def)
  moreover obtain pre where "tempDirPrefix d @ hexEncode b = pre @ ?c" "pre = [] \<or> (\<exists>pre'. pre = pre' @ [slash])"
    by (cases "d \<noteq> dot \<and> d \<noteq> [slash]") (auto simp: tempDirPrefix_def)
  ultimately have "p \<noteq> [] \<and> last p = ?c" using assms mayBe_last by metis
  then show ?thesis by (simp add: tempName_def)
qed

text \<open>A path that the tools may write: clean, inside an allowed directory and not one of them.\<close>

definition writable :: "Conn \<Rightarrow> bytes \<Rightarrow> bool" where
  "writable c p \<longleftrightarrow> list_all canonPath (c_dirs c) \<and> canonPath p \<and> p \<notin> set (c_dirs c)"

lemma mayBe_target:
  assumes "writable c p" and "mayBe base False (relName (owner (c_dirs c) p) p) q"
    and "owner (c_dirs c) p \<noteq> []"
  shows "q \<noteq> [] \<and> last q = Base p"
proof -
  from owner_in [OF assms(3)] have o: "owner (c_dirs c) p \<in> set (c_dirs c)" "withinPrefix (owner (c_dirs c) p) p"
    by auto
  with assms(1) have "canonPath (owner (c_dirs c) p)" "canonPath p" "p \<noteq> owner (c_dirs c) p"
    by (auto simp: writable_def list_all_iff)
  from relName_last [OF this(1,2) o(2) this(3)] assms(2) mayBe_last show ?thesis by metis
qed

section \<open>Effects of publishing\<close>

text \<open>The effects of replacing a file named \<open>t\<close> by \<open>out\<close>: temporary names are created, written with a
  part of \<open>out\<close>, removed and renamed onto a name \<open>t\<close>. The mode is set through the temporary name, which
  follows a link that another process put there.\<close>

fun publishFx :: "bytes \<Rightarrow> bytes \<Rightarrow> effect \<Rightarrow> bool" where
  "publishFx t out (FxCreate p) = tempName p"
| "publishFx t out (FxWrite p d) = (tempName p \<and> prefix d out)"
| "publishFx t out (FxRename p q d) = (tempName p \<and> q \<noteq> [] \<and> last q = t)"
| "publishFx t out (FxRemove p) = tempName p"
| "publishFx t out (FxChmod p) = True"
| "publishFx t out _ = False"

text \<open>The effects of claiming the name \<open>t\<close>, and of giving it up.\<close>

fun claimFx :: "bytes \<Rightarrow> effect \<Rightarrow> bool" where
  "claimFx t (FxCreate p) = (p \<noteq> [] \<and> last p = t)"
| "claimFx t _ = False"

fun unclaimFx :: "bytes \<Rightarrow> effect \<Rightarrow> bool" where
  "unclaimFx t (FxRemove p) = (p \<noteq> [] \<and> last p = t)"
| "unclaimFx t _ = False"

text \<open>Without an owner an operation does not run.\<close>

lemma WithRoot_rel_owner:
  assumes "owner (c_dirs c) p \<noteq> [] \<Longrightarrow> state_io_rel (fxAll P) (WithRoot (c_dirs c) p op)"
  shows "state_io_rel (fxAll P) (WithRoot (c_dirs c) p op)"
proof (cases "owner (c_dirs c) p = []")
  case True
  then have "resolve (c_dirs c) p = err (PlainErr (''cifsops: path '' @ p @ '' is outside every pooled root''))"
    by (simp add: resolve_def)
  then have "bindE (resolve (c_dirs c) p) (\<lambda>(base, rel). op base rel) =
      err (PlainErr (''cifsops: path '' @ p @ '' is outside every pooled root''))"
    by (simp add: bindE_def err_def ret_def)
  then show ?thesis
    unfolding WithRoot_def by (simp only:) (intro fxs.rel_bind fxs.rel_state fxs.rel_err fxs.rel_ret)
qed (use assms in simp)

lemma fx_atomicWrite:
  assumes "writable c p"
  shows "state_io_rel (fxAll (publishFx (Base p) out)) (atomicWrite c p out mode)"
  unfolding atomicWrite_def
  by (rule fxs.rel_retry, rule WithRoot_rel_owner, rule fxs.rel_WithRoot, rule fxs.rel_atomicWriteOnce)
    (use assms mayBe_target tempName_mayBe in auto)

lemma fx_claim:
  assumes "writable c p"
  shows "state_io_rel (fxAll (claimFx (Base p))) (retryPlain (WithRoot (c_dirs c) p (claimOnce p mode)))"
  by (rule fxs.rel_retry, rule WithRoot_rel_owner, rule fxs.rel_WithRoot, rule fxs.rel_claimOnce)
    (use assms mayBe_target in auto)

lemma fx_unclaim:
  assumes "writable c p"
  shows "state_io_rel (fxAll (unclaimFx (Base p))) (retryPlain (WithRoot (c_dirs c) p rRemove))"
  by (rule fxs.rel_retry, rule WithRoot_rel_owner, rule fxs.rel_WithRoot, rule fxs.rel_rRemove)
    (use assms mayBe_target in auto)

section \<open>The gates\<close>

lemma fxAll_False: "fxAll (\<lambda>_. False) h h' \<longleftrightarrow> h_fxlog h' = h_fxlog h"
  by (auto simp: fxAll_def list_all_iff)

lemma fxAll_from: "h_fxlog h1 = h_fxlog h \<Longrightarrow> fxAll P h1 h' \<Longrightarrow> fxAll P h h'"
  by (simp add: fxAll_def)

text \<open>Reading has no effect on files or markers.\<close>

lemma readSnap_keeps:
  assumes "run_state (readSnap c p) h = (r, h')"
  shows "h_fxlog h' = h_fxlog h" "h_sess h' = h_sess h"
  using state_io_relD [OF fxs.rel_readSnap [OF HOL.refl, of "\<lambda>_. False"] assms]
    state_io_relD [OF keep.rel_readSnap [OF HOL.refl] assms]
  by (simp_all add: fxAll_False sessKeep_def)

lemma statFile_keeps:
  assumes "run_state (statFile c p) h = (r, h')"
  shows "h_fxlog h' = h_fxlog h" "h_sess h' = h_sess h"
  using state_io_relD [OF fxs.rel_statFile [OF HOL.refl, of "\<lambda>_. False"] assms]
    state_io_relD [OF keep.rel_statFile [OF HOL.refl] assms]
  by (simp_all add: fxAll_False sessKeep_def)

text \<open>What \<open>editFlow\<close> does once the marker has matched and the edit was computed.\<close>

definition editRest :: "Conn \<Rightarrow> bytes \<Rightarrow> snap \<Rightarrow> bytes \<Rightarrow> 'a \<Rightarrow> 'a ioe" where
  "editRest c resolved cur out extra =
     bindE (mapErr (mapFSErr resolved) (statFile c resolved)) (\<lambda>(cursize, mtime, mode).
     if cursize \<noteq> sn_size cur \<or> mtime \<noteq> sn_mtime cur then err (EStaleRead resolved)
     else
       bindE (mapErr (mapFSErr resolved) (atomicWrite c resolved out mode)) (\<lambda>_.
       markKnown c resolved (int (length out)) \<bind> (\<lambda>_. ok extra)))"

lemma fx_editRest:
  assumes "writable c p"
  shows "state_io_rel (fxAll (publishFx (Base p) out)) (editRest c p cur out x)"
  unfolding editRest_def
  by (intro fxs.rel_bindE fxs.rel_mapErr fxs.rel_statFile [OF HOL.refl] fxs.rel_case_prod fxs.rel_if fxs.rel_err fxs.rel_bind
      fxs.rel_markKnown [OF HOL.refl] fxs.rel_ok fx_atomicWrite assms fxAll_mark)

lemma editRest_result: "run_state (editRest c p cur out x) h = (Inr v, h') \<Longrightarrow> v = x"
  by (auto simp: editRest_def run_bindE split: prod.splits sum.splits if_splits)

lemma editFlow_rest:
  "editFlow c p f = bindE (readSnap c p) (\<lambda>cur.
     sessCompare c p (sn_size cur) (sn_mtime cur) \<bind> (\<lambda>status.
     case status of
       StatusUnknown \<Rightarrow> err (EStaleReadNeverRead p)
     | StatusStale \<Rightarrow> err (EStaleRead p)
     | StatusMatch \<Rightarrow> bindE (liftR (f (sn_content cur))) (\<lambda>(out, x). editRest c p cur out x)))"
  by (simp only: editFlow_def editRest_def)

text \<open>\<open>editFlow\<close> fails without effects, or the marker matched the snapshot it read, and it publishes what
  was computed from this snapshot.\<close>

lemma editFlow_gate:
  assumes "run_state (editFlow c p f) h = (r, h')"
  shows "(isl r \<and> h_fxlog h' = h_fxlog h) \<or>
    (\<exists>cur h1 out x. run_state (readSnap c p) h = (Inr cur, h1) \<and>
      Compare p (sn_size cur) (sn_mtime cur) (h_sess h (c_token c)) = StatusMatch \<and>
      f (sn_content cur) = Inr (out, x) \<and> run_state (editRest c p cur out x) h1 = (r, h') \<and>
      h_fxlog h1 = h_fxlog h \<and> h_sess h1 = h_sess h)"
proof -
  obtain r1 h1 where s: "run_state (readSnap c p) h = (r1, h1)" by fastforce
  note k = readSnap_keeps [OF s]
  show ?thesis
  proof (cases r1)
    case (Inl e)
    with assms s k show ?thesis by (auto simp: editFlow_def run_bindE)
  next
    case (Inr cur)
    let ?st = "Compare p (sn_size cur) (sn_mtime cur) (h_sess h (c_token c))"
    have run: "run_state (case ?st of
         StatusUnknown \<Rightarrow> err (EStaleReadNeverRead p)
       | StatusStale \<Rightarrow> err (EStaleRead p)
       | StatusMatch \<Rightarrow> bindE (liftR (f (sn_content cur))) (\<lambda>(out, x). editRest c p cur out x)) h1 = (r, h')"
      using assms s Inr k(2)
      by (simp add: editFlow_rest run_bindE [of "readSnap c p"] sessCompare_def)
    show ?thesis
    proof (cases ?st)
      case StatusMatch
      show ?thesis
      proof (cases "f (sn_content cur)")
        case (Inl e)
        with run StatusMatch k show ?thesis by (auto simp: run_bindE)
      next
        case (Inr ox)
        with run StatusMatch k s \<open>r1 = Inr cur\<close> show ?thesis by (cases ox) (auto simp: run_bindE)
      qed
    qed (use run k in auto)
  qed
qed

lemma run_syscall_Inr:
  assumes "run_state (syscall op) h = (Inr v, h')"
  obtains t h1 where "run_state nextTick h = (t, h1)" "t_fault t = NoFault" "run_state (runOp op) h1 = (Inr v, h')"
proof -
  obtain t h1 where t: "run_state nextTick h = (t, h1)" by fastforce
  with assms have "t_fault t = NoFault" "run_state (runOp op) h1 = (Inr v, h')"
    by (auto simp: syscall_def syscallPart_def failErrno_def split: fault.splits prod.splits)
  with t that show ?thesis by blast
qed

lemma nextTick_keeps:
  assumes "run_state nextTick h = (t, h')"
  shows "h_fxlog h' = h_fxlog h" "h_sess h' = h_sess h"
  using state_io_relD [OF fxs.rel_nextTick [of "\<lambda>_. False"] assms] state_io_relD [OF keep.rel_nextTick assms]
  by (simp_all add: fxAll_False sessKeep_def)

lemma rCreateExcl_Inr:
  assumes "run_state (rCreateExcl base rel mode) h = (Inr f, h')"
  shows "h_fxlog h' = h_fxlog h @ [FxCreate (hd_path f)]"
  using assms unfolding rCreateExcl_def
  by (rule run_syscall_Inr)
    (auto simp: run_runOp atRoot_def opCreateExcl_def failOp_def nextTick_keeps map_sum_def
      split: sum.splits option.splits)

lemma fxAll_length: "fxAll P h h' \<Longrightarrow> length (h_fxlog h) \<le> length (h_fxlog h')"
  by (auto simp: fxAll_def)

lemma claimOnce_Inr:
  assumes "run_state (claimOnce p mode base rel) h = (Inr v, h')"
  shows "length (h_fxlog h) < length (h_fxlog h')"
proof -
  obtain f h1 where f: "run_state (rCreateExcl base rel mode) h = (Inr f, h1)" "run_state (fClose f) h1 = (Inr v, h')"
    using assms by (auto simp: claimOnce_def split: prod.splits sum.splits if_splits)
  have "length (h_fxlog h1) \<le> length (h_fxlog h')"
    using state_io_relD [OF fxs.rel_calls(7) f(2)] by (rule fxAll_length)
  with rCreateExcl_Inr [OF f(1)] show ?thesis by simp
qed

text \<open>A claim that succeeded has created the name.\<close>

lemma claim_Inr:
  assumes "writable c p" and "run_state (retryPlain (WithRoot (c_dirs c) p (claimOnce p mode))) h = (Inr v, h')"
  shows "h_fxlog h' \<noteq> h_fxlog h"
proof -
  have rel: "state_io_rel (fxAll (claimFx (Base p))) (WithRoot (c_dirs c) p (claimOnce p mode))"
    by (rule WithRoot_rel_owner, rule fxs.rel_WithRoot, rule fxs.rel_claimOnce)
      (use assms(1) mayBe_target in auto)
  from fxs.retry_Inr(1) [OF rel assms(2)] obtain h1 h2 where 1: "fxAll (claimFx (Base p)) h h1"
    "run_state (WithRoot (c_dirs c) p (claimOnce p mode)) h1 = (Inr v, h2)" "fxAll (claimFx (Base p)) h2 h'" by blast
  from fxs.WithRoot_Inr [OF 1(2)] obtain base h3 h4 where 2: "fxAll (claimFx (Base p)) h1 h3"
    "run_state (claimOnce p mode base (relName (owner (c_dirs c) p) p)) h3 = (Inr v, h4)"
    "fxAll (claimFx (Base p)) h4 h2" by blast
  from fxAll_length [OF 1(1)] fxAll_length [OF 2(1)] claimOnce_Inr [OF 2(2)] fxAll_length [OF 2(3)]
    fxAll_length [OF 1(3)]
  show ?thesis by auto
qed

lemma writeGate_gate:
  assumes "writable c p" and "run_state (writeGate c p) h = (r, h')"
  shows "(h_fxlog h' = h_fxlog h \<and>
      (isl r \<or> (\<exists>n t m. r = Inr (False, m) \<and> Compare p n t (h_sess h (c_token c)) = StatusMatch))) \<or>
    (fxAll (claimFx (Base p)) h h' \<and> h_fxlog h' \<noteq> h_fxlog h \<and> (isl r \<or> r = Inr (True, 420)))"
proof -
  let ?stat = "mapErr (mapFSErr p) (retryPlain (WithRoot (c_dirs c) p (statTarget p)))"
  obtain r1 h1 where s: "run_state ?stat h = (r1, h1)" by fastforce
  have "state_io_rel (fxAll (\<lambda>_. False)) ?stat" "state_io_rel sessKeep ?stat"
    by (intro fxs.rel_mapErr fxs.rel_retry fxs.body_statTarget keep.rel_mapErr keep.rel_retry keep.body_statTarget)+
  from this [THEN state_io_relD, OF s] have k: "h_fxlog h1 = h_fxlog h" "h_sess h1 = h_sess h"
    by (simp_all add: fxAll_False sessKeep_def)
  show ?thesis
  proof (cases r1)
    case (Inl e)
    with assms(2) s k show ?thesis by (auto simp: writeGate_def run_bindE)
  next
    case (Inr target)
    show ?thesis
    proof (cases target)
      case None
      let ?claim = "mapErr (mapFSErr p) (retryPlain (WithRoot (c_dirs c) p (claimOnce p 420)))"
      obtain r2 h2 where cl: "run_state ?claim h1 = (r2, h2)" by fastforce
      with assms(2) s Inr None have r: "h' = h2" "isl r2 \<Longrightarrow> isl r" "\<not> isl r2 \<Longrightarrow> r = Inr (True, 420)"
        by (auto simp: writeGate_def run_bindE split: sum.splits)
      from cl have fx: "fxAll (claimFx (Base p)) h1 h2"
        using fxs.rel_mapErr [OF fx_claim [OF assms(1)]] by (rule state_io_relD [rotated])
      have "h_fxlog h2 \<noteq> h_fxlog h1" if "\<not> isl r2"
        using that cl claim_Inr [OF assms(1)] by (auto simp: run_mapErr split: sum.splits prod.splits)
      with r fx k show ?thesis by (auto simp: fxAll_def)
    next
      case (Some info)
      obtain r2 h2 where st: "run_state (mapErr (mapFSErr p) (statFile c p)) h1 = (r2, h2)" by fastforce
      then have "h_fxlog h2 = h_fxlog h1"
        using statFile_keeps by (fastforce simp: run_mapErr split: prod.splits sum.splits)
      with assms(2) s Inr Some k st show ?thesis
        by (auto simp: writeGate_def run_bindE sessCompare_def split: Status.splits sum.splits if_splits)
    qed
  qed
qed

definition writeRest :: "Conn \<Rightarrow> bytes \<Rightarrow> bytes \<Rightarrow> bool \<Rightarrow> nat \<Rightarrow> writeAck ioe" where
  "writeRest c resolved content claimed mode =
     atomicWrite c resolved content mode \<bind> (\<lambda>r.
     case r of
       Inl e \<Rightarrow>
         (if claimed then ignore (retryPlain (WithRoot (c_dirs c) resolved rRemove)) else ret ()) \<bind> (\<lambda>_.
         err (mapFSErr resolved e))
     | Inr _ \<Rightarrow>
         markKnown c resolved (int (length content)) \<bind> (\<lambda>_.
         ok \<lparr>wa_BytesWritten = int (length content), wa_Warning = RenderWarn ''content'' (Check content)\<rparr>))"

lemma writeLocked_rest:
  "writeLocked c p content = bindE (writeGate c p) (\<lambda>(claimed, mode). writeRest c p content claimed mode)"
  by (simp only: writeLocked_def writeRest_def)

text \<open>All effects of a write: publishing, and for a new file claiming its name and giving it up again.\<close>

definition writeFx :: "bytes \<Rightarrow> bytes \<Rightarrow> effect \<Rightarrow> bool" where
  "writeFx t out e \<longleftrightarrow> claimFx t e \<or> publishFx t out e \<or> unclaimFx t e"

lemma fxAll_mono: "fxAll P h h' \<Longrightarrow> (\<And>e. P e \<Longrightarrow> Q e) \<Longrightarrow> fxAll Q h h'"
  unfolding fxAll_def by (meson list.pred_mono_strong)

lemma fx_rel_mono: "state_io_rel (fxAll P) m \<Longrightarrow> (\<And>e. P e \<Longrightarrow> Q e) \<Longrightarrow> state_io_rel (fxAll Q) m"
  unfolding state_io_rel_def using fxAll_mono by blast

lemma fx_writeRest:
  assumes "writable c p"
  shows "state_io_rel (fxAll (publishFx (Base p) content)) (writeRest c p content False mode)"
    "state_io_rel (fxAll (writeFx (Base p) content)) (writeRest c p content True mode)"
proof -
  have w: "state_io_rel (fxAll (writeFx (Base p) content)) (atomicWrite c p content mode)"
    by (rule fx_rel_mono [OF fx_atomicWrite [OF assms]]) (simp add: writeFx_def)
  have u: "state_io_rel (fxAll (writeFx (Base p) content)) (retryPlain (WithRoot (c_dirs c) p rRemove))"
    by (rule fx_rel_mono [OF fx_unclaim [OF assms]]) (simp add: writeFx_def)
  show "state_io_rel (fxAll (publishFx (Base p) content)) (writeRest c p content False mode)"
    unfolding writeRest_def if_False
    by (intro fxs.rel_bind fxs.rel_case_sum fxs.rel_err fxs.rel_ret fxs.rel_markKnown [OF HOL.refl] fxs.rel_ok
      fx_atomicWrite assms fxAll_mark)
  show "state_io_rel (fxAll (writeFx (Base p) content)) (writeRest c p content True mode)"
    unfolding writeRest_def if_True
    by (intro fxs.rel_bind fxs.rel_case_sum fxs.rel_err fxs.rel_ignore fxs.rel_markKnown [OF HOL.refl] fxs.rel_ok
      w u fxAll_mark)
qed

text \<open>A write fails without effects, or the marker of the file matched what it found, or it created the
  file itself, exclusively, as its first effect.\<close>

lemma writeLocked_gate:
  assumes "writable c p" and "run_state (writeLocked c p content) h = (r, h')"
  shows "(isl r \<and> h_fxlog h' = h_fxlog h) \<or>
    (\<exists>n t. Compare p n t (h_sess h (c_token c)) = StatusMatch \<and> fxAll (publishFx (Base p) content) h h') \<or>
    (\<exists>q fx. h_fxlog h' = h_fxlog h @ FxCreate q # fx \<and> q \<noteq> [] \<and> last q = Base p \<and>
      list_all (writeFx (Base p) content) fx)"
proof -
  obtain r1 h1 where g: "run_state (writeGate c p) h = (r1, h1)" by fastforce
  note gate = writeGate_gate [OF assms(1) g]
  show ?thesis
  proof (cases "h_fxlog h1 = h_fxlog h")
    case True
    show ?thesis
    proof (cases r1)
      case (Inl e)
      with assms(2) g True show ?thesis by (auto simp: writeLocked_rest run_bindE)
    next
      case (Inr cm)
      with gate True obtain n t m where m: "cm = (False, m)" "Compare p n t (h_sess h (c_token c)) = StatusMatch"
        by auto
      with assms(2) g Inr have "run_state (writeRest c p content False m) h1 = (r, h')"
        by (simp add: writeLocked_rest run_bindE)
      from fxAll_from [OF True state_io_relD [OF fx_writeRest(1) [OF assms(1)] this]] m(2) show ?thesis by blast
    qed
  next
    case False
    with gate have cl: "fxAll (claimFx (Base p)) h h1" "isl r1 \<or> r1 = Inr (True, 420)" by auto
    then obtain fx where fx: "h_fxlog h1 = h_fxlog h @ fx" "list_all (claimFx (Base p)) fx"
      by (auto simp: fxAll_def)
    with False obtain e fx1 where e: "fx = e # fx1" by (cases fx) auto
    with fx(2) obtain q where q: "e = FxCreate q" "q \<noteq> []" "last q = Base p" by (cases e) auto
    have "fxAll (writeFx (Base p) content) h1 h'"
    proof (cases r1)
      case (Inl x)
      with assms(2) g show ?thesis by (auto simp: writeLocked_rest run_bindE fxAll_def)
    next
      case (Inr cm)
      with cl(2) assms(2) g have "run_state (writeRest c p content True 420) h1 = (r, h')"
        by (simp add: writeLocked_rest run_bindE)
      with fx_writeRest(2) [OF assms(1)] show ?thesis by (rule state_io_relD)
    qed
    then obtain fx2 where fx2: "h_fxlog h' = h_fxlog h1 @ fx2" "list_all (writeFx (Base p) content) fx2"
      by (auto simp: fxAll_def)
    have "list_all (writeFx (Base p) content) fx1"
      using fx(2) e by (auto simp: list_all_iff writeFx_def)
    with fx2 fx(1) e q show ?thesis
      by (intro disjI2 exI [of _ q] exI [of _ "fx1 @ fx2"]) simp
  qed
qed

section \<open>From the bodies to the handlers\<close>

text \<open>Validation changes neither files nor markers, and what it returns may be written unless it is an
  allowed directory itself.\<close>

lemma c_validate_keeps:
  assumes "run_state (c_validate c raw) h = (r, h')"
  shows "h_fxlog h' = h_fxlog h" "h_sess h' = h_sess h"
  using state_io_relD [OF fxs.rel_Validate [of "\<lambda>_. False"] assms] state_io_relD [OF keep.rel_Validate assms]
  by (simp_all add: fxAll_False sessKeep_def)

lemma c_validate_writable:
  assumes "run_state (c_validate c raw) h = (Inr p, h')" and "list_all canonPath (c_dirs c)" and "p \<notin> set (c_dirs c)"
  shows "writable c p"
  using Validate_inScope [of "c_guard c" "c_env c" raw h p h'] assms
  by (simp add: c_validate_def c_dirs_def AllowedDirs_def writable_def inScope_def)

lemma run_validated:
  assumes "run_state (bindE (c_validate c raw) f) h = (r, h')"
  obtains (rejected) "isl r" "h_fxlog h' = h_fxlog h" "h_sess h' = h_sess h"
  | (accepted) p h1 where "run_state (c_validate c raw) h = (Inr p, h1)" "run_state (f p) h1 = (r, h')"
      "h_fxlog h1 = h_fxlog h" "h_sess h1 = h_sess h"
proof -
  obtain r1 h1 where v: "run_state (c_validate c raw) h = (r1, h1)" by fastforce
  note k = c_validate_keeps [OF v]
  show thesis
  proof (cases r1)
    case (Inl e)
    with assms v k show ?thesis by (intro rejected) (auto simp: run_bindE)
  next
    case (Inr p)
    with assms v k show ?thesis by (intro accepted [of p h1]) (auto simp: run_bindE)
  qed
qed

lemma run_validated_locks:
  assumes "run_state (bindE (c_validate c raw) (\<lambda>p. withLocks c ctx stage p (body p))) h = (r, h')"
  obtains (refused) "isl r" "h_fxlog h' = h_fxlog h" "h_sess h' = h_sess h"
  | (ran) p h1 h2 h3 where "run_state (c_validate c raw) h = (Inr p, h1)" "h_fxlog h2 = h_fxlog h"
      "h_sess h2 = h_sess h" "run_state (body p) h2 = (r, h3)" "h_fxlog h' = h_fxlog h3" "h_sess h' = h_sess h3"
  using assms
  by (cases rule: auxfront.front_split [where ds = "[]", consumes 1, case_names refused ran])
    (use that in \<open>auto simp: auxStep_def\<close>)

end
