(* ===== verification/AbsFs.thy ===== *)
theory AbsFs
  imports HostFs
begin

text \<open>
  The abstract file system: a partial map from paths to directories, files with their bytes, and links.
  Inodes, modes and times are abstracted away. The well-formedness invariant says that files have
  allocated inodes; every operation keeps it and has a simple effect on the abstraction.
\<close>

datatype entry = VDir | VFile bytes | VLink bytes

definition entryOf :: "fsys \<Rightarrow> node \<Rightarrow> entry" where
  "entryOf fs n = (case n of NDir i \<Rightarrow> VDir | NFile i \<Rightarrow> VFile (i_data (fs_inodes fs i)) | NLink t \<Rightarrow> VLink t)"

definition absFs :: "fsys \<Rightarrow> bytes list \<Rightarrow> entry option" where
  "absFs fs p = map_option (entryOf fs) (nodeAt fs p)"

definition wfFs :: "fsys \<Rightarrow> bool" where
  "wfFs fs \<longleftrightarrow> (\<forall>p i. nodeAt fs p = Some (NFile i) \<longrightarrow> i < fs_next fs)"

lemma wfFsD: "wfFs fs \<Longrightarrow> nodeAt fs p = Some (NFile i) \<Longrightarrow> i < fs_next fs"
  by (simp add: wfFs_def)

lemma absFs_VDir: "absFs fs p = Some VDir \<longleftrightarrow> (\<exists>i. nodeAt fs p = Some (NDir i))"
  by (cases "nodeAt fs p") (auto simp: absFs_def entryOf_def split: node.splits)

lemma absFs_VFile: "absFs fs p = Some (VFile d) \<longleftrightarrow> (\<exists>i. nodeAt fs p = Some (NFile i) \<and> i_data (fs_inodes fs i) = d)"
  by (cases "nodeAt fs p") (auto simp: absFs_def entryOf_def split: node.splits)

lemma absFs_VLink: "absFs fs p = Some (VLink t) \<longleftrightarrow> nodeAt fs p = Some (NLink t)"
  by (cases "nodeAt fs p") (auto simp: absFs_def entryOf_def split: node.splits)

lemma absFs_None: "absFs fs p = None \<longleftrightarrow> nodeAt fs p = None"
  by (simp add: absFs_def)

lemma absFs_Nil [simp]: "absFs fs [] = Some VDir"
  by (simp add: absFs_VDir)

lemma entryOf_update:
  "entryOf (fs\<lparr>fs_clock := k\<rparr>) = entryOf fs" "entryOf (fs\<lparr>fs_next := j\<rparr>) = entryOf fs"
  "entryOf (setNode p n fs) = entryOf fs" "entryOf (delNode p fs) = entryOf fs"
  by (simp_all add: fun_eq_iff entryOf_def split: node.split)

lemma absFs_clock [simp]: "absFs (fs\<lparr>fs_clock := k\<rparr>) = absFs fs"
  by (simp add: fun_eq_iff absFs_def entryOf_update)

lemma wfFs_clock [simp]: "wfFs (fs\<lparr>fs_clock := k\<rparr>) = wfFs fs"
  by (simp add: wfFs_def)

text \<open>Directories, and being reached through directories only, can be read off the abstraction.\<close>

lemma dirsAbove_abs: "dirsAbove fs cs \<longleftrightarrow> list_all okComp cs \<and> (\<forall>k < length cs. absFs fs (take k cs) = Some VDir)"
  by (simp add: dirsAbove_def absFs_VDir)

lemma realDir_abs: "realDir fs cs \<longleftrightarrow> dirsAbove fs cs \<and> absFs fs cs = Some VDir"
  by (simp add: realDir_def absFs_VDir)

text \<open>Inodes that no name refers to do not show.\<close>

lemma absFs_inode:
  assumes "\<And>q. nodeAt fs q \<noteq> Some (NFile i)"
  shows "absFs (fs\<lparr>fs_inodes := (fs_inodes fs)(i := x)\<rparr>) = absFs fs"
proof
  fix p show "absFs (fs\<lparr>fs_inodes := (fs_inodes fs)(i := x)\<rparr>) p = absFs fs p"
    using assms [of p] by (cases "nodeAt fs p") (auto simp: absFs_def entryOf_def split: node.split)
qed

lemma absFs_inode_same:
  assumes "i_data x = i_data (fs_inodes fs i)"
  shows "absFs (fs\<lparr>fs_inodes := (fs_inodes fs)(i := x)\<rparr>) = absFs fs"
proof
  fix p show "absFs (fs\<lparr>fs_inodes := (fs_inodes fs)(i := x)\<rparr>) p = absFs fs p"
    using assms by (cases "nodeAt fs p") (auto simp: absFs_def entryOf_def split: node.split)
qed

text \<open>A file with a name of its own.\<close>

definition ownFile :: "fsys \<Rightarrow> bytes list \<Rightarrow> nat \<Rightarrow> bytes \<Rightarrow> bool" where
  "ownFile fs q i d \<longleftrightarrow> q \<noteq> [] \<and> nodeAt fs q = Some (NFile i) \<and> (\<forall>q'. nodeAt fs q' = Some (NFile i) \<longrightarrow> q' = q) \<and>
     i_data (fs_inodes fs i) = d"

lemma ownFile_clock [simp]: "ownFile (fs\<lparr>fs_clock := k\<rparr>) q i d = ownFile fs q i d"
  by (simp add: ownFile_def)

lemma absFs_setNode: "p \<noteq> [] \<Longrightarrow> absFs (setNode p n fs) = (absFs fs)(p \<mapsto> entryOf fs n)"
  by (simp add: fun_eq_iff absFs_def entryOf_update)

lemma absFs_delNode: "p \<noteq> [] \<Longrightarrow> absFs (delNode p fs) = (absFs fs)(p := None)"
  by (simp add: fun_eq_iff absFs_def entryOf_update)

lemma absFs_ownFile:
  assumes "ownFile fs q i d"
  shows "absFs (fs\<lparr>fs_inodes := (fs_inodes fs)(i := x)\<rparr>) = (absFs fs)(q \<mapsto> VFile (i_data x))"
proof
  fix p show "absFs (fs\<lparr>fs_inodes := (fs_inodes fs)(i := x)\<rparr>) p = ((absFs fs)(q \<mapsto> VFile (i_data x))) p"
  proof (cases "p = q")
    case True
    with assms show ?thesis by (simp add: absFs_def entryOf_def ownFile_def)
  next
    case False
    with assms have "nodeAt fs p \<noteq> Some (NFile i)" by (auto simp: ownFile_def)
    with False show ?thesis by (cases "nodeAt fs p") (auto simp: absFs_def entryOf_def split: node.split)
  qed
qed

lemma wfFs_setNode: "p \<noteq> [] \<Longrightarrow> wfFs fs \<Longrightarrow> (\<And>i. n = NFile i \<Longrightarrow> i < fs_next fs) \<Longrightarrow> wfFs (setNode p n fs)"
  by (simp add: wfFs_def)

lemma wfFs_delNode: "p \<noteq> [] \<Longrightarrow> wfFs fs \<Longrightarrow> wfFs (delNode p fs)"
  by (simp add: wfFs_def)

lemma wfFs_inodes: "wfFs (fs\<lparr>fs_inodes := f\<rparr>) = wfFs fs"
  by (simp add: wfFs_def)

lemma nodeAt_newInode [simp]: "nodeAt (newInode m fs) = nodeAt fs"
  by (simp add: newInode_def fun_eq_iff)

lemma newInode_abs:
  assumes "wfFs fs"
  shows "absFs (newInode m fs) = absFs fs" "wfFs (newInode m fs)"
    "entryOf (newInode m fs) (NFile (fs_next fs)) = VFile []" "entryOf (newInode m fs) (NDir k) = VDir"
    "fs_next (newInode m fs) = Suc (fs_next fs)" "\<And>p. nodeAt fs p \<noteq> Some (NFile (fs_next fs))"
proof -
  show fresh: "nodeAt fs p \<noteq> Some (NFile (fs_next fs))" for p using assms wfFsD by blast
  show "absFs (newInode m fs) = absFs fs"
    using absFs_inode [of fs "fs_next fs"] fresh
    by (simp add: newInode_def absFs_def entryOf_update fun_eq_iff)
  show "wfFs (newInode m fs)" using assms by (auto simp: wfFs_def newInode_def less_SucI)
qed (simp_all add: entryOf_def newInode_def)

section \<open>Operations\<close>

lemma opCreateExcl_abs:
  assumes "opCreateExcl mode q fs = (Inr f, fs', fx)" and "wfFs fs"
  shows "absFs fs q = None" "absFs fs' = (absFs fs)(q \<mapsto> VFile [])" "wfFs fs'" "ownFile fs' q (hd_ino f) []"
    "hd_path f = q" "hd_pos f = 0" "hd_ino f = fs_next fs"
proof -
  from assms(1) have n: "nodeAt fs q = None" "f = \<lparr>hd_ino = fs_next fs, hd_path = q, hd_pos = 0\<rparr>"
    "fs' = setNode q (NFile (fs_next fs)) (newInode mode fs)"
    by (auto simp: opCreateExcl_def failOp_def split: option.splits)
  then have q: "q \<noteq> []" by auto
  note ni = newInode_abs [OF assms(2)]
  show "absFs fs q = None" using n by (simp add: absFs_None)
  show "absFs fs' = (absFs fs)(q \<mapsto> VFile [])" by (simp add: n(3) absFs_setNode [OF q] ni)
  show "wfFs fs'" unfolding n(3) by (rule wfFs_setNode) (use q ni in auto)
  show "ownFile fs' q (hd_ino f) []" using n(2,3) q ni(6) by (simp add: ownFile_def newInode_def)
  show "hd_path f = q" "hd_pos f = 0" "hd_ino f = fs_next fs" by (simp_all add: n(2))
qed

lemma opMkdir_abs:
  assumes "opMkdir mode q fs = (Inr u, fs', fx)" and "wfFs fs"
  shows "absFs fs q = None" "absFs fs' = (absFs fs)(q \<mapsto> VDir)" "wfFs fs'"
proof -
  from assms(1) have n: "nodeAt fs q = None" "fs' = setNode q (NDir (fs_next fs)) (newInode mode fs)"
    by (auto simp: opMkdir_def failOp_def split: option.splits)
  then have q: "q \<noteq> []" by auto
  note ni = newInode_abs [OF assms(2)]
  show "absFs fs q = None" using n by (simp add: absFs_None)
  show "absFs fs' = (absFs fs)(q \<mapsto> VDir)" by (simp add: n(2) absFs_setNode [OF q] ni)
  show "wfFs fs'" unfolding n(2) by (rule wfFs_setNode) (use q ni in auto)
qed

text \<open>Writing to a fresh handle of a file with one name.\<close>

lemma opWrite_abs:
  assumes "ownFile fs q (hd_ino f) []" and "hd_pos f = 0" and "opWrite f data lim fs = (r, fs', fx)"
  shows "\<exists>d. prefix d data \<and> (lim = None \<longrightarrow> d = data) \<and> r = Inr (f\<lparr>hd_pos := length d\<rparr>) \<and>
    absFs fs' = (absFs fs)(q \<mapsto> VFile d) \<and> ownFile fs' q (hd_ino f) d \<and> wfFs fs' = wfFs fs \<and>
    nodeAt fs' = nodeAt fs \<and> fs_next fs' = fs_next fs"
proof -
  define d where "d = (case lim of None \<Rightarrow> data | Some n \<Rightarrow> take n data)"
  have old: "i_data (fs_inodes fs (hd_ino f)) = []" using assms(1) by (simp add: ownFile_def)
  define ino where "ino = fs_inodes fs (hd_ino f)\<lparr>i_data := d, i_mtime := fs_clock fs\<rparr>"
  have w: "r = Inr (f\<lparr>hd_pos := length d\<rparr>)" "fs' = fs\<lparr>fs_inodes := (fs_inodes fs)(hd_ino f := ino)\<rparr>"
    using assms(2,3) old by (auto simp: opWrite_def Let_def d_def ino_def)
  have "absFs fs' = (absFs fs)(q \<mapsto> VFile d)"
    unfolding w(2) absFs_ownFile [OF assms(1)] by (simp add: ino_def)
  moreover have "ownFile fs' q (hd_ino f) d" using assms(1) by (simp add: w(2) ownFile_def ino_def)
  moreover have "prefix d data" by (simp add: d_def take_is_prefix split: option.split)
  moreover have "lim = None \<longrightarrow> d = data" by (simp add: d_def)
  ultimately show ?thesis using w(1) by (intro exI [of _ d]) (simp add: w(2) wfFs_inodes fun_eq_iff)
qed

lemma opChmod_cases:
  assumes "opChmod mode p fs = (r, fs', fx)"
  obtains "fs' = fs" | i where "fs' = fs\<lparr>fs_inodes := (fs_inodes fs)(i := (fs_inodes fs i)\<lparr>i_mode := mode\<rparr>)\<rparr>"
  using assms by (auto simp: opChmod_def failOp_def split: option.splits node.splits)

lemma opChmod_abs:
  assumes "opChmod mode p fs = (r, fs', fx)"
  shows "absFs fs' = absFs fs" "wfFs fs' = wfFs fs" "ownFile fs' q i d = ownFile fs q i d"
    "nodeAt fs' = nodeAt fs" "fs_next fs' = fs_next fs"
  by (rule opChmod_cases [OF assms]; simp add: absFs_inode_same wfFs_inodes ownFile_def fun_eq_iff)+

lemma opRename_abs:
  assumes "ownFile fs p i d" and "q \<noteq> []" and "q \<noteq> p" and "opRename p q fs = (r, fs', fx)"
  shows "if absFs fs q = Some VDir then isl r \<and> fs' = fs
    else r = Inr () \<and> absFs fs' = (absFs fs)(p := None, q \<mapsto> VFile d) \<and> (wfFs fs \<longrightarrow> wfFs fs') \<and>
      nodeAt fs' = (nodeAt fs)(p := None, q \<mapsto> NFile i) \<and> fs_inodes fs' = fs_inodes fs \<and> fs_next fs' = fs_next fs"
proof -
  from assms(1) have p: "p \<noteq> []" "nodeAt fs p = Some (NFile i)" "nodeAt fs q \<noteq> Some (NFile i)"
    using assms(3) by (auto simp: ownFile_def)
  have e: "entryOf fs (NFile i) = VFile d" using assms(1) by (simp add: entryOf_def ownFile_def)
  show ?thesis
  proof (cases "absFs fs q = Some VDir")
    case True
    with assms(2,4) p show ?thesis by (auto simp: absFs_VDir opRename_def failOp_def)
  next
    case False
    then have "nodeAt fs q \<noteq> Some (NDir j)" for j by (simp add: absFs_VDir)
    with assms(2,4) p have f: "r = Inr ()" "fs' = setNode q (NFile i) (delNode p fs)"
      by (auto simp: opRename_def split: option.splits node.splits)
    have "absFs fs' = (absFs fs)(p := None, q \<mapsto> VFile d)"
      by (simp add: f(2) absFs_setNode [OF assms(2)] absFs_delNode [OF p(1)] entryOf_update e)
    moreover have "wfFs fs \<longrightarrow> wfFs fs'"
      using p assms(2) wfFsD by (auto simp: f(2) intro!: wfFs_setNode wfFs_delNode)
    ultimately show ?thesis using False f assms(2) p by (auto simp: fun_eq_iff)
  qed
qed

lemma opRemove_abs:
  assumes "opRemove p fs = (r, fs', fx)"
  shows "fs' = fs \<or> (p \<noteq> [] \<and> fs' = delNode p fs)"
  using assms by (auto simp: opRemove_def failOp_def split: if_splits option.splits node.splits)

end
