(* ===== verification/SoleWriter.thy ===== *)
theory SoleWriter
  imports ToolsGate AbsFs
begin

text \<open>
  The tools as the only writer: no other process changes the file system, but every system call may still
  fail, before or after it took effect, and every context may end at any time. Under these schedules an
  open root is the real directory it was opened for, and a replaced file has either its old or its whole
  new content. The locale \<open>fs_rel\<close> is the interface: a relation of file systems that does not see the
  clock, with an invariant; reading keeps any such relation.
\<close>

definition sole :: "bytes list \<Rightarrow> host \<Rightarrow> bool" where
  "sole ds h \<longleftrightarrow> (\<forall>t \<in> set (h_sched h). t_env t = (\<lambda>fs. fs)) \<and> list_all canonPath ds \<and>
     list_all (\<lambda>d. realDir (h_fs h) (pathComps d)) ds \<and>
     list_all (\<lambda>(d, base). d \<in> set ds \<and> base = pathComps d) (h_roots h)"

text \<open>Nothing but the clock, the schedule and the bookkeeping of the process has changed.\<close>

definition sameFiles :: "fsys \<Rightarrow> fsys \<Rightarrow> bool" where
  "sameFiles fs fs' \<longleftrightarrow> (\<exists>k. fs' = fs\<lparr>fs_clock := k\<rparr>)"

lemma sameFiles_refl [simp]: "sameFiles fs fs"
  unfolding sameFiles_def by (rule exI [of _ "fs_clock fs"]) simp

lemma sameFiles_trans: "sameFiles a b \<Longrightarrow> sameFiles b c \<Longrightarrow> sameFiles a c"
  by (auto simp: sameFiles_def)

lemma sameFiles_simps:
  assumes "sameFiles fs fs'"
  shows "nodeAt fs' = nodeAt fs" "absFs fs' = absFs fs" "wfFs fs' = wfFs fs" "realDir fs' = realDir fs"
    "dirsAbove fs' = dirsAbove fs" "fs_inodes fs' = fs_inodes fs" "fs_next fs' = fs_next fs"
    "ownFile fs' = ownFile fs" "infoOf fs' = infoOf fs"
  using assms by (auto simp: sameFiles_def fun_eq_iff infoOf_def split: node.split)

text \<open>A tick of another process's making none.\<close>

lemma sole_tick:
  assumes "run_state nextTick h = (t, h')" and "sole ds h"
  shows "sole ds h' \<and> sameFiles (h_fs h) (h_fs h') \<and> h_sess h' = h_sess h \<and> h_roots h' = h_roots h"
proof -
  have env: "t_env t = (\<lambda>fs. fs)" "\<forall>t \<in> set (h_sched h'). t_env t = (\<lambda>fs. fs)"
    using assms by (auto simp: nextTick_def sole_def quietTick_def applyTick_def split: list.splits)
  have h': "h_fs h' = t_env t ((h_fs h)\<lparr>fs_clock := fs_clock (h_fs h) + 1\<rparr>)" "h_sess h' = h_sess h" "h_roots h' = h_roots h"
    using assms(1) by (auto simp: nextTick_def applyTick_def split: list.splits)
  then have s: "sameFiles (h_fs h) (h_fs h')" by (auto simp: sameFiles_def env(1))
  with env h' assms(2) show ?thesis by (simp add: sole_def sameFiles_simps [OF s])
qed

text \<open>The three ways a system call can go.\<close>

lemma sole_syscallPart:
  assumes "run_state (syscallPart op) h = (r, h')" and "sole ds h"
  obtains (failed) e where "r = Inl e" "sole ds h'" "sameFiles (h_fs h) (h_fs h')" "h_sess h' = h_sess h"
  | (applied) h1 lim r1 fs' fx where "sole ds h1" "sameFiles (h_fs h) (h_fs h1)" "h_sess h1 = h_sess h"
      "op lim (h_fs h1) = (r1, fs', fx)" "h' = h1\<lparr>h_fs := fs', h_fxlog := h_fxlog h1 @ fx\<rparr>"
      "isl r \<or> (\<exists>v. r = Inr v \<and> r1 = Inr v \<and> lim = None)" "isl r1 \<longrightarrow> isl r"
proof -
  obtain t h1 where t: "run_state nextTick h = (t, h1)" by fastforce
  note s = sole_tick [OF t assms(2)]
  have run: "run_state (case t_fault t of
       NoFault \<Rightarrow> runOp (op None)
     | FailBefore e \<Rightarrow> failErrno e
     | FailAfter e n \<Rightarrow> runOp (op (Some n)) \<bind> (\<lambda>_. failErrno e)) h1 = (r, h')"
    using assms(1) t by (simp add: syscallPart_def)
  show thesis
  proof (cases "t_fault t")
    case NoFault
    obtain r1 fs' fx where o: "op None (h_fs h1) = (r1, fs', fx)" using prod_cases3 by blast
    with run NoFault show ?thesis
      by (intro applied [of h1 None r1 fs' fx]) (use s in \<open>auto simp: run_runOp map_sum_def split: sum.splits\<close>)
  next
    case (FailBefore e)
    with run s show ?thesis by (intro failed) (auto simp: failErrno_def)
  next
    case (FailAfter e n)
    obtain r1 fs' fx where o: "op (Some n) (h_fs h1) = (r1, fs', fx)" using prod_cases3 by blast
    with run FailAfter show ?thesis
      by (intro applied [of h1 "Some n" r1 fs' fx]) (use s in \<open>auto simp: run_runOp failErrno_def\<close>)
  qed
qed

lemmas sole_syscall [consumes 2, case_names failed applied] =
  sole_syscallPart [where op = "\<lambda>_. op" for op, folded syscall_def]

text \<open>Files below a real root are found where they are.\<close>

lemma rootPath_real:
  assumes "canonPath d" "canonPath p" "withinPrefix d p" "dirsAbove fs (pathComps p)"
    and "\<And>t. nodeAt fs (pathComps p) = Some (NLink t) \<Longrightarrow> \<not> follow"
  shows "rootPath fs (pathComps d) follow (relName d p) = Inr (pathComps p)"
proof -
  from assms(1-3) obtain zs where zs: "pathComps p = pathComps d @ zs" by (auto simp: pool.inside_iff prefix_def)
  from assms(2) have ok: "list_all okComp (pathComps p)" by (simp add: canonPath_def)
  show ?thesis
  proof (cases "p = d")
    case True
    then have "relName d p = dot" by (simp add: relName_def)
    with True show ?thesis
      by (simp add: rootPath_def split_char_id dot_def slash_def)
  next
    case False
    then have ne: "zs \<noteq> []" using zs assms(1,2) by (auto simp: canonPath_def)
    have rel: "relName d p = join zs [slash]"
      using False assms zs by (simp add: relName_canon)
    have "split (join zs [slash]) [slash] = zs"
      using ne ok zs by (simp add: split_join_char okComp_no_slash)
    moreover have "rootWalk fs (pathComps d) follow rootMaxSymlinks [] zs = Inr ([] @ zs)"
    proof (rule rootWalk_plain)
      show "\<exists>i. nodeAt fs (pathComps d @ [] @ take k zs) = Some (NDir i)" if "k < length zs" for k
      proof -
        have "length (pathComps d) + k < length (pathComps p)" using that zs by simp
        with assms(4) have "\<exists>i. nodeAt fs (take (length (pathComps d) + k) (pathComps p)) = Some (NDir i)"
          by (auto simp: dirsAbove_def)
        then show ?thesis by (simp add: zs)
      qed
    qed (use ok zs assms(5) in auto)
    ultimately show ?thesis by (simp add: rootPath_def rel zs)
  qed
qed

section \<open>Relations of file systems\<close>

text \<open>While the tools are the only writer and the files satisfy \<open>I\<close>, they keep \<open>I\<close> and relate by \<open>F\<close>.\<close>

definition under :: "(fsys \<Rightarrow> bool) \<Rightarrow> (fsys \<Rightarrow> fsys \<Rightarrow> bool) \<Rightarrow> bytes list \<Rightarrow> host \<Rightarrow> host \<Rightarrow> bool" where
  "under I F ds h h' \<longleftrightarrow>
     (sole ds h \<and> I (h_fs h) \<longrightarrow> sole ds h' \<and> I (h_fs h') \<and> F (h_fs h) (h_fs h'))"

lemma underD: "under I F ds h h' \<Longrightarrow> sole ds h \<Longrightarrow> I (h_fs h) \<Longrightarrow> sole ds h' \<and> I (h_fs h') \<and> F (h_fs h) (h_fs h')"
  by (simp add: under_def)

locale fs_rel =
  fixes I :: "fsys \<Rightarrow> bool" and F :: "fsys \<Rightarrow> fsys \<Rightarrow> bool"
  assumes F_refl: "F fs fs"
    and F_trans: "F fs1 fs2 \<Longrightarrow> F fs2 fs3 \<Longrightarrow> F fs1 fs3"
    and F_same: "sameFiles fs fs' \<Longrightarrow> F fs fs'"
    and I_same: "sameFiles fs fs' \<Longrightarrow> I fs \<Longrightarrow> I fs'"
begin

lemma under_refl: "under I F ds h h"
  by (simp add: under_def F_refl)

lemma under_trans: "under I F ds h1 h2 \<Longrightarrow> under I F ds h2 h3 \<Longrightarrow> under I F ds h1 h3"
  using F_trans by (auto simp: under_def)

lemma under_same: "(sole ds h \<Longrightarrow> sole ds h' \<and> sameFiles (h_fs h) (h_fs h')) \<Longrightarrow> under I F ds h h'"
  using F_same I_same by (auto simp: under_def)

lemma under_modify:
  assumes "\<And>h. h_fs (f h) = h_fs h" "\<And>h. h_sched (f h) = h_sched h" "\<And>h. set (h_roots (f h)) \<subseteq> set (h_roots h)"
  shows "state_io_rel (under I F ds) (modify f)"
proof (rule state_io_relI)
  fix a h h' assume "run_state (modify f) h = (a, h')"
  then have h': "h' = f h" by simp
  show "under I F ds h h'"
  proof (rule under_same)
    assume "sole ds h"
    with assms [of h] show "sole ds h' \<and> sameFiles (h_fs h) (h_fs h')"
      by (auto simp: sole_def h' list_all_iff)
  qed
qed

text \<open>A call that reads.\<close>

lemma under_readonly:
  assumes "\<And>fs. fst (snd (op fs)) = fs"
  shows "state_io_rel (under I F ds) (syscall op)"
proof (rule state_io_relI, rule under_same)
  fix a h h' assume run: "run_state (syscall op) h = (a, h')" and s: "sole ds h"
  from run s show "sole ds h' \<and> sameFiles (h_fs h) (h_fs h')"
  proof (cases rule: sole_syscall)
    case (applied h1 lim r1 fs' fx)
    with assms [of "h_fs h1"] show ?thesis by (simp add: sole_def)
  qed simp
qed

end

lemma atRoot_keeps: "(\<And>p fs. fst (snd (k p fs)) = fs) \<Longrightarrow> fst (snd (atRoot base follow rel k fs)) = fs"
  by (simp add: atRoot_def split: sum.split)

lemma atKernel_keeps: "(\<And>p fs. fst (snd (k p fs)) = fs) \<Longrightarrow> fst (snd (atKernel follow path k fs)) = fs"
  by (simp add: atKernel_def failOp_def split: sum.split)

lemma readonly_keeps:
  "fst (snd (opStat p fs)) = fs" "fst (snd (opReadlink p fs)) = fs" "fst (snd (opReadFile p fs)) = fs"
  "fst (snd (opOpenDir p fs)) = fs" "fst (snd (opOpen p fs)) = fs" "fst (snd (opReadRest f fs)) = fs"
  "fst (snd (okOp v fs)) = fs"
  by (auto simp: opStat_def opReadlink_def opReadFile_def opOpenDir_def opOpen_def opReadRest_def
      okOp_def failOp_def split: option.split node.split)

text \<open>Opening an allowed directory gives that directory.\<close>

lemma OpenRoot_sole:
  assumes "run_state (OpenRoot d) h = (Inr base, h')" and "sole ds h" and "d \<in> set ds"
  shows "base = pathComps d"
proof -
  from assms(1) [unfolded OpenRoot_def] assms(2) show ?thesis
  proof (cases rule: sole_syscall)
    case (applied h1 lim r1 fs' fx)
    from applied(1) assms(3) have d: "canonPath d" "realDir (h_fs h1) (pathComps d)" by (auto simp: sole_def list_all_iff)
    then have "kernelPath (h_fs h1) True d = Inr (pathComps d)"
      using kernelPath_plain [of "h_fs h1" "pathComps d" True] by (auto simp: realDir_def canonPath_def)
    with applied(4,6) d(2) show ?thesis
      by (auto simp: atKernel_def opOpenDir_def okOp_def realDir_def)
  qed simp
qed

context fs_rel
begin

lemma under_calls:
  "state_io_rel (under I F ds) (rStat base rel)" "state_io_rel (under I F ds) (rLstat base rel)"
  "state_io_rel (under I F ds) (rReadFile base rel)" "state_io_rel (under I F ds) (rOpen base rel)"
  "state_io_rel (under I F ds) (fReadRest f)" "state_io_rel (under I F ds) (fSync f)"
  "state_io_rel (under I F ds) (fClose f)" "state_io_rel (under I F ds) (lstat p)"
  "state_io_rel (under I F ds) (stat p)" "state_io_rel (under I F ds) (readlink p)"
  "state_io_rel (under I F ds) (OpenRoot d)"
  unfolding rStat_def rLstat_def rReadFile_def rOpen_def fReadRest_def fSync_def fClose_def lstat_def stat_def
    readlink_def OpenRoot_def
  by (intro under_readonly atRoot_keeps atKernel_keeps readonly_keeps)+

lemma under_nextTick: "state_io_rel (under I F ds) nextTick"
  by (rule state_io_relI, rule under_same) (auto dest: sole_tick)

end

sublocale fs_rel < step_rel "under I F ds" for ds
  by unfold_locales (fact under_refl, erule under_trans, assumption)

context fs_rel
begin

lemma under_state:
  "state_io_rel (under I F ds) markSucceeded" "state_io_rel (under I F ds) rlock"
  "state_io_rel (under I F ds) runlock" "state_io_rel (under I F ds) (acquire t p)"
  "state_io_rel (under I F ds) (release t p)" "state_io_rel (under I F ds) (withTimeout k)"
  "state_io_rel (under I F ds) (sessMarkRead c p n m)" "state_io_rel (under I F ds) (sessForget c p)"
  unfolding markSucceeded_def rlock_def runlock_def acquire_def release_def withTimeout_def sessMarkRead_def
    sessForget_def
  by (intro under_modify; simp split: option.split)+

lemma under_sleeps: "state_io_rel (under I F ds) (sleepPlain d)" "state_io_rel (under I F ds) (sleepContext ctx d)"
  unfolding sleepPlain_def sleepContext_def by (intro rel_intros under_nextTick under_modify; simp)+

text \<open>A freshly opened root may be cached.\<close>

lemma under_open:
  assumes "d \<in> set ds" and "\<And>base. state_io_rel (under I F ds) (k base)"
    and "\<And>e. state_io_rel (under I F ds) (k' e)"
  shows "state_io_rel (under I F ds) (OpenRoot d \<bind> case_sum k' (\<lambda>base. cacheRoot d base \<bind> (\<lambda>_. k base)))"
proof (rule state_io_relI)
  fix a h h' assume run: "run_state (OpenRoot d \<bind> case_sum k' (\<lambda>base. cacheRoot d base \<bind> (\<lambda>_. k base))) h = (a, h')"
  obtain r h1 where o: "run_state (OpenRoot d) h = (r, h1)" by fastforce
  have u1: "under I F ds h h1" using under_calls(11) o by (rule state_io_relD)
  show "under I F ds h h'"
  proof (cases r)
    case (Inl e)
    with run o have "run_state (k' e) h1 = (a, h')" by simp
    with assms(3) have "under I F ds h1 h'" by (rule state_io_relD)
    with u1 show ?thesis by (rule under_trans)
  next
    case (Inr base)
    let ?h2 = "h1\<lparr>h_roots := AList.update d base (h_roots h1), h_opened := (d, base) # h_opened h1\<rparr>"
    from run o Inr have k: "run_state (k base) ?h2 = (a, h')" by (simp add: cacheRoot_def)
    have "under I F ds h ?h2"
      unfolding under_def
    proof
      assume pre: "sole ds h \<and> I (h_fs h)"
      with u1 have u: "sole ds h1" "I (h_fs h1)" "F (h_fs h) (h_fs h1)" by (auto simp: under_def)
      have "base = pathComps d" using o pre assms(1) by (auto simp: Inr dest: OpenRoot_sole)
      with u(1) assms(1) have "sole ds ?h2"
        using set_update_subset [of d base "h_roots h1"] by (fastforce simp: sole_def list_all_iff)
      with u show "sole ds ?h2 \<and> I (h_fs ?h2) \<and> F (h_fs h) (h_fs ?h2)" by simp
    qed
    with state_io_relD [OF assms(2) k] show ?thesis by (rule under_trans [rotated])
  qed
qed

lemma under_resolve: "state_io_rel (under I F ds) (resolve ds path)"
proof (cases "owner ds path = []")
  case False
  then have "owner ds path \<in> set ds" using owner_in by blast
  with False show ?thesis
    unfolding resolve_def Let_def bindE_def
    by (simp only: if_False)
      (intro rel_bind rel_gets rel_case_option rel_ok under_open rel_err)
qed (simp add: resolve_def rel_err)

lemma under_reopenLoop: "set xs \<subseteq> set ds \<Longrightarrow> state_io_rel (under I F ds) (reopenLoop acc xs)"
proof (induction xs arbitrary: acc)
  case (Cons d xs)
  then show ?case unfolding reopenLoop.simps Let_def by (intro under_open) auto
qed (simp add: rel_ret)

lemma under_ReopenAll: "state_io_rel (under I F ds) ReopenAll"
proof (rule state_io_relI)
  fix a h h' assume run: "run_state ReopenAll h = (a, h')"
  let ?h1 = "h\<lparr>h_stuck := h_stuck h \<or> 0 < h_lease h, h_roots := []\<rparr>"
  show "under I F ds h h'"
    unfolding under_def
  proof
    assume pre: "sole ds h \<and> I (h_fs h)"
    then have "set (map fst (h_roots h)) \<subseteq> set ds" by (auto simp: sole_def list_all_iff)
    then have "state_io_rel (under I F ds) (reopenLoop None (map fst (h_roots h)) \<bind>
        (\<lambda>e. case e of None \<Rightarrow> ok () | Some e \<Rightarrow> err e))"
      by (intro rel_bind under_reopenLoop rel_case_option rel_ok rel_err)
    from state_io_relD [OF this run [unfolded run_ReopenAll]] have "under I F ds ?h1 h'" .
    moreover from pre have "sole ds ?h1 \<and> I (h_fs ?h1)" by (simp add: sole_def)
    ultimately show "sole ds h' \<and> I (h_fs h') \<and> F (h_fs h) (h_fs h')" by (simp add: under_def)
  qed
qed

end

text \<open>The root that an operation gets, and the name below it.\<close>

lemma resolve_sole:
  assumes "run_state (resolve ds path) h = (Inr (base, rel), h')" and "sole ds h"
  shows "owner ds path \<noteq> []" "base = pathComps (owner ds path)" "rel = relName (owner ds path) path"
proof -
  show ne: "owner ds path \<noteq> []" using assms(1) by (auto simp: resolve_def)
  then have o: "owner ds path \<in> set ds" using owner_in by blast
  show "rel = relName (owner ds path) path" using resolve_Inr(1) [OF assms(1)] .
  show "base = pathComps (owner ds path)"
  proof (cases "map_of (h_roots h) (owner ds path)")
    case None
    with assms(1) ne obtain h1 where "run_state (OpenRoot (owner ds path)) h = (Inr base, h1)"
      by (auto simp: resolve_def Let_def run_bindE split: prod.splits sum.splits)
    with assms(2) o show ?thesis by (rule OpenRoot_sole [rotated -1, rotated -1])
  next
    case (Some b)
    with assms(2) have "b = pathComps (owner ds path)"
      by (auto simp: sole_def list_all_iff dest!: map_of_SomeD)
    with assms(1) ne Some show ?thesis by (simp add: resolve_def Let_def)
  qed
qed

context fs_rel
begin

lemma under_WithRoot:
  assumes "owner ds path \<noteq> [] \<Longrightarrow>
    state_io_rel (under I F ds) (op (pathComps (owner ds path)) (relName (owner ds path) path))"
  shows "state_io_rel (under I F ds) (WithRoot ds path op)"
proof -
  have main: "state_io_rel (under I F ds) (bindE (resolve ds path) (\<lambda>(base, rel). op base rel))"
  proof (rule state_io_relI)
    fix a h h' assume run: "run_state (bindE (resolve ds path) (\<lambda>(base, rel). op base rel)) h = (a, h')"
    obtain r h1 where r: "run_state (resolve ds path) h = (r, h1)" by fastforce
    have u1: "under I F ds h h1" using under_resolve r by (rule state_io_relD)
    show "under I F ds h h'"
    proof (cases r)
      case (Inl e)
      with run r u1 show ?thesis by (simp add: run_bindE)
    next
      case (Inr br)
      obtain base rel where br: "br = (base, rel)" by fastforce
      show ?thesis
      proof (cases "sole ds h")
        case True
        note rs = resolve_sole [OF r [unfolded Inr br] True]
        from run r Inr br rs
        have "run_state (op (pathComps (owner ds path)) (relName (owner ds path) path)) h1 = (a, h')"
          by (simp add: run_bindE)
        with assms [OF rs(1)] have "under I F ds h1 h'" by (rule state_io_relD)
        with u1 show ?thesis by (rule under_trans)
      qed (simp add: under_def)
    qed
  qed
  show ?thesis
    unfolding WithRoot_def
    by (rule rel_bind [OF under_state(2)], rule rel_bind [OF main]) (intro rel_intros under_state)
qed

end

sublocale fs_rel < handler_rel "under I F ds" ds for ds
proof unfold_locales
  show "state_io_rel (under I F ds) (WithRoot ds p rStat)" for p
    by (intro under_WithRoot under_calls)
  show "state_io_rel (under I F ds) (WithRoot ds p (snapOnce p))" for p
    by (rule under_WithRoot) (unfold snapOnce_def, intro rel_intros under_calls)
  show "state_io_rel (under I F ds) (WithRoot ds p (statTarget p))" for p
    by (rule under_WithRoot) (unfold statTarget_def, intro rel_intros under_calls)
qed (fact under_ReopenAll under_sleeps under_state)+

sublocale fs_rel < walk_rel "under I F ds" for ds
  by unfold_locales (fact under_calls)+

sublocale fs_rel < lock_rel "under I F ds" for ds
  by unfold_locales (fact under_nextTick under_state)+

sublocale fs_rel < front_rel "under I F ds" for ds ..

text \<open>The finest such relation: the files stay as they are.\<close>

interpretation same: fs_rel "\<lambda>_. True" sameFiles
  by unfold_locales (auto intro: sameFiles_trans)

lemma same_step: "state_io_rel (under (\<lambda>_. True) sameFiles ds) m \<Longrightarrow> run_state m h = (r, h') \<Longrightarrow> sole ds h \<Longrightarrow>
    sole ds h' \<and> sameFiles (h_fs h) (h_fs h')"
  using state_io_relD underD by fastforce

text \<open>An operation under a root, taken apart.\<close>

lemma WithRoot_sole:
  assumes "run_state (WithRoot ds path op) h = (r, h')" and "sole ds h"
  obtains (noroot) "isl r" "sole ds h'" "sameFiles (h_fs h) (h_fs h')"
  | (ran) h1 h2 where "sole ds h1" "sameFiles (h_fs h) (h_fs h1)" "owner ds path \<noteq> []"
      "run_state (op (pathComps (owner ds path)) (relName (owner ds path) path)) h1 = (r, h2)"
      "h' = h2\<lparr>h_lease := h_lease h2 - 1\<rparr>"
proof -
  let ?h0 = "h\<lparr>h_lease := h_lease h + 1\<rparr>"
  obtain r1 h1 where r1: "run_state (resolve ds path) ?h0 = (r1, h1)" by fastforce
  have s0: "sole ds ?h0" using assms(2) by (simp add: sole_def)
  from same_step [OF same.under_resolve r1 s0] have s1: "sole ds h1" "sameFiles (h_fs h) (h_fs h1)" by simp_all
  show thesis
  proof (cases r1)
    case (Inl e)
    with assms(1) r1 s1 show ?thesis by (intro noroot) (auto simp: run_WithRoot sole_def)
  next
    case (Inr br)
    obtain base rel where br: "br = (base, rel)" by fastforce
    note rs = resolve_sole [OF r1 [unfolded Inr br] s0]
    obtain r2 h2 where o: "run_state (op base rel) h1 = (r2, h2)" by fastforce
    with assms(1) r1 Inr br have "r = r2" "h' = h2\<lparr>h_lease := h_lease h2 - 1\<rparr>" by (auto simp: run_WithRoot)
    with o rs s1 show ?thesis by (intro ran [of h1 h2]) auto
  qed
qed

end
