(* ===== verification/Atomic.thy ===== *)
theory Atomic
  imports SoleWriter
begin

text \<open>
  Atomicity of \<open>atomicWrite\<close> (\<open>write.go\<close>) when the tools are the only writer: triples over the effect
  monad, under a condition \<open>S\<close> that every host on the way meets, whose conditions speak of the file system,
  one rule per construct and one per system call, and the triple of the whole operation. With \<open>sole\<close> for \<open>S\<close>
  faults are part of every triple.
\<close>

definition tripleOn :: "(host \<Rightarrow> bool) \<Rightarrow> (fsys \<Rightarrow> bool) \<Rightarrow> 'a io \<Rightarrow> ('a \<Rightarrow> fsys \<Rightarrow> bool) \<Rightarrow> bool" where
  "tripleOn S P m Q \<longleftrightarrow> (\<forall>h r h'. S h \<and> P (h_fs h) \<and> run_state m h = (r, h') \<longrightarrow> S h' \<and> Q r (h_fs h'))"

abbreviation triple :: "bytes list \<Rightarrow> (fsys \<Rightarrow> bool) \<Rightarrow> 'a io \<Rightarrow> ('a \<Rightarrow> fsys \<Rightarrow> bool) \<Rightarrow> bool" where
  "triple ds \<equiv> tripleOn (sole ds)"

lemma tripleI:
  "(\<And>h r h'. S h \<Longrightarrow> P (h_fs h) \<Longrightarrow> run_state m h = (r, h') \<Longrightarrow> S h' \<and> Q r (h_fs h')) \<Longrightarrow> tripleOn S P m Q"
  unfolding tripleOn_def by blast

lemma tripleD:
  "tripleOn S P m Q \<Longrightarrow> run_state m h = (r, h') \<Longrightarrow> S h \<Longrightarrow> P (h_fs h) \<Longrightarrow> S h' \<and> Q r (h_fs h')"
  by (simp add: tripleOn_def)

lemma triple_conseq:
  "tripleOn S P m Q \<Longrightarrow> (\<And>fs. P' fs \<Longrightarrow> P fs) \<Longrightarrow> (\<And>r fs. Q r fs \<Longrightarrow> Q' r fs) \<Longrightarrow> tripleOn S P' m Q'"
  unfolding tripleOn_def by blast

lemma triple_bind [triple_rules]:
  "tripleOn S P m Q \<Longrightarrow> (\<And>x. tripleOn S (Q x) (f x) Q') \<Longrightarrow> tripleOn S P (m \<bind> f) Q'"
proof (rule tripleI)
  fix h r h'
  assume a: "tripleOn S P m Q" "\<And>x. tripleOn S (Q x) (f x) Q'" "S h" "P (h_fs h)" "run_state (m \<bind> f) h = (r, h')"
  obtain x h1 where m: "run_state m h = (x, h1)" by fastforce
  with a(5) have f: "run_state (f x) h1 = (r, h')" by simp
  from tripleD [OF a(1) m a(3,4)] tripleD [OF a(2) f] show "S h' \<and> Q' r (h_fs h')" by blast
qed

lemma triple_ret [triple_rules]:
  "(\<And>fs. P fs \<Longrightarrow> Q x fs) \<Longrightarrow> tripleOn S P (ret x) Q"
  "(\<And>fs. P fs \<Longrightarrow> Q' (Inr y) fs) \<Longrightarrow> tripleOn S P (ok y) Q'"
  "(\<And>fs. P fs \<Longrightarrow> Q'' (Inl e) fs) \<Longrightarrow> tripleOn S P (err e) Q''"
  by (simp_all add: tripleOn_def)

lemma triple_case_sum [triple_rules]:
  "(\<And>e. r = Inl e \<Longrightarrow> tripleOn S P (f e) Q) \<Longrightarrow> (\<And>x. r = Inr x \<Longrightarrow> tripleOn S P (g x) Q) \<Longrightarrow>
    tripleOn S P (case_sum f g r) Q"
  by (cases r) auto

lemma triple_bindE [triple_rules]:
  assumes "tripleOn S P m Q" and "\<And>x. tripleOn S (Q (Inr x)) (f x) Q'" and "\<And>e fs. Q (Inl e) fs \<Longrightarrow> Q' (Inl e) fs"
  shows "tripleOn S P (bindE m f) Q'"
  unfolding bindE_def
proof (rule triple_bind [OF assms(1)])
  show "tripleOn S (Q r) (case r of Inl e \<Rightarrow> err e | Inr x \<Rightarrow> f x) Q'" for r
    by (cases r) (auto intro: triple_ret assms)
qed

lemma triple_ignore [triple_rules]:
  "tripleOn S P m (\<lambda>_. Q) \<Longrightarrow> tripleOn S P (ignore m) (\<lambda>_. Q)"
  unfolding ignore_def by (rule triple_bind) (auto intro: triple_ret)

lemma triple_bind_sum:
  "tripleOn S P m (\<lambda>r fs. case r of Inl e \<Rightarrow> Q1 e fs | Inr x \<Rightarrow> Q2 x fs) \<Longrightarrow>
    (\<And>e. tripleOn S (Q1 e) (f e) Q) \<Longrightarrow> (\<And>x. tripleOn S (Q2 x) (g x) Q) \<Longrightarrow>
    tripleOn S P (m \<bind> case_sum f g) Q"
  by (erule triple_bind) (auto intro: triple_case_sum split: sum.split)

lemma triple_ex: "(\<And>b. tripleOn S (P b) m Q) \<Longrightarrow> tripleOn S (\<lambda>fs. \<exists>b. P b fs) m Q"
  unfolding tripleOn_def by blast

lemma triple_pure: "(B \<Longrightarrow> tripleOn S P m Q) \<Longrightarrow> tripleOn S (\<lambda>fs. B \<and> P fs) m Q"
  unfolding tripleOn_def by blast

text \<open>A condition that does not see the clock is kept by calls that only read.\<close>

definition clockFree :: "(fsys \<Rightarrow> bool) \<Rightarrow> bool" where
  "clockFree P \<longleftrightarrow> (\<forall>fs fs'. sameFiles fs fs' \<longrightarrow> P fs \<longrightarrow> P fs')"

lemma triple_readonly:
  assumes "clockFree P" and "\<And>fs. fst (snd (op fs)) = fs"
  shows "triple ds P (syscall op) (\<lambda>_. P)"
proof (rule tripleI)
  fix h r h' assume s: "sole ds h" and P: "P (h_fs h)" and run: "run_state (syscall op) h = (r, h')"
  from run s show "sole ds h' \<and> P (h_fs h')"
  proof (cases rule: sole_syscall)
    case failed
    with assms(1) P show ?thesis by (auto simp: clockFree_def)
  next
    case (applied h1 lim r1 fs' fx)
    with assms(1) P assms(2) [of "h_fs h1"] show ?thesis by (auto simp: clockFree_def sole_def)
  qed
qed

text \<open>A call that mutates: what its operation does in some state that satisfies the condition. The result may
  be an error although the operation was applied.\<close>

lemma triple_mutating:
  assumes "clockFree P"
    and "\<And>fs. P fs \<Longrightarrow> Q (Inl undefined) fs"
    and "\<And>fs e e'. Q (Inl e) fs \<Longrightarrow> Q (Inl e') fs"
    and "\<And>fs lim r fs' fx. P fs \<Longrightarrow> op lim fs = (r, fs', fx) \<Longrightarrow>
      (\<forall>p. absFs fs p = Some VDir \<longrightarrow> absFs fs' p = Some VDir) \<and> (\<forall>e. Q (Inl e) fs') \<and>
      (\<forall>v. r = Inr v \<and> lim = None \<longrightarrow> Q (Inr v) fs')"
  shows "triple ds P (syscallPart op) Q"
proof (rule tripleI)
  fix h r h' assume s: "sole ds h" and P: "P (h_fs h)" and run: "run_state (syscallPart op) h = (r, h')"
  from run s show "sole ds h' \<and> Q r (h_fs h')"
  proof (cases rule: sole_syscallPart)
    case (failed e)
    with assms(1) P have "P (h_fs h')" by (auto simp: clockFree_def)
    with failed assms(2,3) show ?thesis by blast
  next
    case (applied h1 lim r1 fs' fx)
    with assms(1) P have P1: "P (h_fs h1)" by (auto simp: clockFree_def)
    note o = assms(4) [OF P1 applied(4)]
    have "realDir (h_fs h1) (pathComps d) \<Longrightarrow> realDir fs' (pathComps d)" for d
      using o by (auto simp: realDir_abs dirsAbove_abs)
    with applied(1,5) have "sole ds h'" by (auto simp: sole_def list_all_iff)
    moreover have "Q r fs'"
      using applied(6) o by (cases r) auto
    ultimately show ?thesis by (simp add: applied(5))
  qed
qed

lemmas triple_mutating' = triple_mutating [where op = "\<lambda>_. op" for op, folded syscall_def]

section \<open>The temporary name\<close>

lemma Dir_join:
  assumes "list_all okComp (ys @ [c])"
  shows "Dir (join (ys @ [c]) [slash]) = (if ys = [] then dot else join ys [slash])"
proof (cases "ys = []")
  case True
  with assms show ?thesis
    by (simp add: Dir_def uptoLastSlash_def okComp_def takeWhile_dropWhile_id dropWhile_eq_Nil_conv Clean_def)
next
  case False
  from assms have c: "slash \<notin> set c" "list_all okComp ys" by (auto simp: okComp_def)
  have j: "join (ys @ [c]) [slash] = join ys [slash] @ slash # c" using False by (simp add: join_append)
  have "Clean (join ys [slash] @ [slash]) = join ys [slash]"
  proof -
    have "split (join ys [slash] @ [slash]) [slash] = ys @ [[]]"
      using split_char_append [of "join ys [slash]" slash "[]"] False c by (simp add: split_join_char okComp_no_slash)
    moreover have "\<not> isAbs (join ys [slash] @ [slash])"
    proof -
      obtain y ys' where "ys = y # ys'" using False by (cases ys) auto
      with c(2) have "\<exists>a y'. join ys [slash] = a # y' \<and> a \<noteq> slash"
        by (cases y) (auto simp: okComp_def join_Cons, (cases ys', auto simp: join_Cons)+)
      then show ?thesis by auto
    qed
    moreover have "cleanStack False [] (ys @ [[]]) = ys"
      using c(2) cleanStack_filter [of False "[]" "ys @ [[]]"] cleanStack_id [of ys False "[]"]
      by (simp add: filter_okComp)
    ultimately show ?thesis using False by (simp add: Clean_def del: isAbs_iff)
  qed
  with False c show ?thesis by (simp add: Dir_def j)
qed

text \<open>The place of a file: an allowed directory that owns it, and its path components.\<close>

definition placed :: "bytes list \<Rightarrow> bytes \<Rightarrow> bool" where
  "placed ds p \<longleftrightarrow> list_all canonPath ds \<and> canonPath p \<and> p \<notin> set ds \<and> owner ds p \<noteq> []"

definition tempPath :: "bytes list \<Rightarrow> bytes \<Rightarrow> bytes list" where
  "tempPath cs b = butlast cs @ [tempPrefix @ hexEncode b]"

definition tempIn :: "bytes list \<Rightarrow> bytes list \<Rightarrow> bool" where
  "tempIn dir q \<longleftrightarrow> q \<noteq> [] \<and> butlast q = dir \<and> hasPrefix (last q) tempPrefix"

lemma tempIn_tempPath [simp]: "tempIn (butlast cs) (tempPath cs b)"
  by (simp add: tempIn_def tempPath_def)

lemma okComp_temp: "okComp (tempPrefix @ hexEncode b)"
  using hexEncode_no_slash [of b] by (simp add: okComp_def tempPrefix_def dot_def dotdot_def slash_def)

lemma placedE:
  assumes "placed ds p"
  obtains d ys c where "d = owner ds p" "d \<in> set ds" "canonPath d" "withinPrefix d p" "p \<noteq> d" "canonPath p"
    "pathComps p = pathComps d @ ys @ [c]" "list_all okComp (pathComps p)" "relName d p = join (ys @ [c]) [slash]"
proof -
  from assms have ne: "owner ds p \<noteq> []" by (simp add: placed_def)
  from owner_in [OF ne] have o: "owner ds p \<in> set ds" "withinPrefix (owner ds p) p" by auto
  with assms have c: "canonPath (owner ds p)" "canonPath p" "p \<noteq> owner ds p" by (auto simp: placed_def list_all_iff)
  from c o obtain zs where zs: "pathComps p = pathComps (owner ds p) @ zs" by (auto simp: pool.inside_iff prefix_def)
  with c have "zs \<noteq> []" by (auto simp: canonPath_def)
  then obtain ys x where ys: "zs = ys @ [x]" by (cases zs rule: rev_cases) auto
  have "relName (owner ds p) p = join (ys @ [x]) [slash]"
    using c o zs ys by (simp add: relName_canon)
  with o c zs ys that show ?thesis by (auto simp: canonPath_def)
qed

lemma temp_relName:
  fixes b
  assumes "placed ds p"
  defines "t \<equiv> absPath (tempPath (pathComps p) b)"
  shows "tempDirPrefix (Dir (relName (owner ds p) p)) @ hexEncode b = relName (owner ds p) t"
    "canonPath t" "withinPrefix (owner ds p) t" "pathComps t = tempPath (pathComps p) b"
proof -
  from assms(1) obtain d ys c where d: "d = owner ds p" "canonPath d" "withinPrefix d p" "p \<noteq> d" "canonPath p"
    "pathComps p = pathComps d @ ys @ [c]" "list_all okComp (pathComps p)" "relName d p = join (ys @ [c]) [slash]"
    by (rule placedE)
  let ?x = "tempPrefix @ hexEncode b"
  have tp: "tempPath (pathComps p) b = pathComps d @ ys @ [?x]"
    using d(6) by (simp add: tempPath_def butlast_append)
  have ok: "list_all okComp (pathComps d @ ys @ [?x])" "list_all okComp (ys @ [c])" "list_all okComp ys"
    using d(6,7) okComp_temp by auto
  from ok show ct: "canonPath t" "pathComps t = tempPath (pathComps p) b" by (simp_all add: t_def tp)
  with d(2) show wt: "withinPrefix (owner ds p) t" by (simp add: pool.inside_iff tp flip: d(1))
  have "length (pathComps t) > length (pathComps d)" by (simp add: ct(2) tp)
  then have "t \<noteq> d" by auto
  then have "relName d t = join (ys @ [?x]) [slash]"
    using d(1,2) ct wt by (simp add: relName_canon tp)
  moreover have "join ys [slash] \<noteq> dot \<and> join ys [slash] \<noteq> [slash]" if "ys \<noteq> []"
  proof -
    have "split (join ys [slash]) [slash] = ys" using that ok(3) by (simp add: split_join_char okComp_no_slash)
    moreover have "split dot [slash] = [dot]" "split [slash] [slash] = [[], []]"
      by (simp_all add: dot_def split_char_id slash_def) (simp add: split_char_Cons)
    ultimately show ?thesis using ok(3) by (auto simp: okComp_def)
  qed
  ultimately show "tempDirPrefix (Dir (relName (owner ds p) p)) @ hexEncode b = relName (owner ds p) t"
    using d(8) Dir_join [OF ok(2)] by (simp add: tempDirPrefix_def join_append flip: d(1))
qed

text \<open>Where the system calls on the file and on its temporary names end up.\<close>

lemma placed_rootPath:
  assumes "placed ds p" and "dirsAbove fs (pathComps p)"
  shows "rootPath fs (pathComps (owner ds p)) False (relName (owner ds p) p) = Inr (pathComps p)"
    "rootPath fs (pathComps (owner ds p)) False (tempDirPrefix (Dir (relName (owner ds p) p)) @ hexEncode b) =
      Inr (tempPath (pathComps p) b)"
    "\<forall>t. nodeAt fs (tempPath (pathComps p) b) \<noteq> Some (NLink t) \<Longrightarrow>
      rootPath fs (pathComps (owner ds p)) True (tempDirPrefix (Dir (relName (owner ds p) p)) @ hexEncode b) =
      Inr (tempPath (pathComps p) b)"
proof -
  from assms(1) obtain d ys c where d: "d = owner ds p" "canonPath d" "withinPrefix d p" "p \<noteq> d" "canonPath p"
    "pathComps p = pathComps d @ ys @ [c]" "list_all okComp (pathComps p)"
    by (rule placedE)
  show "rootPath fs (pathComps (owner ds p)) False (relName (owner ds p) p) = Inr (pathComps p)"
    using rootPath_real [OF d(2,5,3) assms(2)] by (simp add: d(1))
  note t = temp_relName [OF assms(1), of b]
  have "realDir fs (butlast (pathComps p))"
    using assms(2) d(6) dirsAbove_snoc [of fs "pathComps d @ ys" c] by (simp add: butlast_append)
  then have da: "dirsAbove fs (pathComps (absPath (tempPath (pathComps p) b)))"
    by (simp only: t(4)) (simp add: tempPath_def dirsAbove_snoc okComp_temp)
  from rootPath_real [OF _ t(2,3) this] d(1,2) show
    "rootPath fs (pathComps (owner ds p)) False (tempDirPrefix (Dir (relName (owner ds p) p)) @ hexEncode b) =
      Inr (tempPath (pathComps p) b)"
    "\<forall>t. nodeAt fs (tempPath (pathComps p) b) \<noteq> Some (NLink t) \<Longrightarrow>
      rootPath fs (pathComps (owner ds p)) True (tempDirPrefix (Dir (relName (owner ds p) p)) @ hexEncode b) =
      Inr (tempPath (pathComps p) b)"
    by (simp_all add: t)
qed

section \<open>What publishing may change\<close>

definition tidy :: "bytes list \<Rightarrow> fsys \<Rightarrow> bool" where
  "tidy cs fs \<longleftrightarrow> wfFs fs \<and> dirsAbove fs cs \<and> \<not> tempIn (butlast cs) cs"

text \<open>Directories stay; besides temporary files in its directory only the file itself changes, to something
  in \<open>A\<close>.\<close>

definition published :: "bytes list \<Rightarrow> entry option set \<Rightarrow> fsys \<Rightarrow> fsys \<Rightarrow> bool" where
  "published cs A fs fs' \<longleftrightarrow>
     (\<forall>q. absFs fs q = Some VDir \<longrightarrow> absFs fs' q = Some VDir) \<and>
     (\<forall>q. q \<noteq> cs \<and> \<not> tempIn (butlast cs) q \<longrightarrow> absFs fs' q = absFs fs q) \<and>
     (absFs fs' cs = absFs fs cs \<or> absFs fs' cs \<in> A)"

lemma tidy_keepDirs:
  assumes "tidy cs fs" "wfFs fs'" "\<And>q. absFs fs q = Some VDir \<Longrightarrow> absFs fs' q = Some VDir"
  shows "tidy cs fs'"
  using assms by (auto simp: tidy_def dirsAbove_abs)

interpretation pub: fs_rel "tidy cs" "published cs A" for cs A
proof unfold_locales
  show "published cs A fs fs" for fs by (simp add: published_def)
  show "published cs A fs1 fs3" if "published cs A fs1 fs2" "published cs A fs2 fs3" for fs1 fs2 fs3
    using that by (auto simp: published_def)
  show "published cs A fs fs'" "tidy cs fs \<Longrightarrow> tidy cs fs'" if "sameFiles fs fs'" for fs fs'
    by (simp_all add: published_def tidy_def sameFiles_simps [OF that])
qed

text \<open>The condition that holds throughout, and the condition while the temporary file is held.\<close>

definition pubFrom :: "bytes list \<Rightarrow> entry option set \<Rightarrow> fsys \<Rightarrow> fsys \<Rightarrow> bool" where
  "pubFrom cs A fs0 fs \<longleftrightarrow> tidy cs fs \<and> published cs A fs0 fs"

definition holding :: "bytes list \<Rightarrow> entry option set \<Rightarrow> fsys \<Rightarrow> bytes \<Rightarrow> nat \<Rightarrow> bytes \<Rightarrow> fsys \<Rightarrow> bool" where
  "holding cs A fs0 b i d fs \<longleftrightarrow> pubFrom cs A fs0 fs \<and> ownFile fs (tempPath cs b) i d"

lemma pubFrom_clockFree: "clockFree (pubFrom cs A fs0)" "clockFree (holding cs A fs0 b i d)"
  by (auto simp: clockFree_def pubFrom_def holding_def sameFiles_simps intro: pub.I_same pub.F_trans pub.F_same)

lemma tidy_temp: "tidy cs fs \<Longrightarrow> tempPath cs b \<noteq> cs"
  unfolding tidy_def by (metis tempIn_tempPath)

lemma pubFrom_temp:
  assumes "pubFrom cs A fs0 fs" and "wfFs fs'" and "absFs fs' = (absFs fs)(tempPath cs b := e)"
    and "absFs fs (tempPath cs b) \<noteq> Some VDir"
  shows "pubFrom cs A fs0 fs'"
proof -
  have ne: "tempPath cs b \<noteq> cs" using assms(1) tidy_temp by (auto simp: pubFrom_def)
  have d: "absFs fs q = Some VDir \<Longrightarrow> absFs fs' q = Some VDir" for q using assms(3,4) by auto
  have "published cs A fs fs'" unfolding published_def using d ne by (auto simp: assms(3))
  with assms(1) have "published cs A fs0 fs'" using pub.F_trans by (auto simp: pubFrom_def)
  moreover have "tidy cs fs'" using assms(1,2) d by (auto simp: pubFrom_def intro: tidy_keepDirs)
  ultimately show ?thesis by (simp add: pubFrom_def)
qed

lemma pubFrom_target:
  assumes "pubFrom cs A fs0 fs" and "wfFs fs'" and "absFs fs' = (absFs fs)(tempPath cs b := None, cs := e)"
    and "absFs fs (tempPath cs b) \<noteq> Some VDir" "absFs fs cs \<noteq> Some VDir" "e \<in> A"
  shows "pubFrom cs A fs0 fs'"
proof -
  have d: "absFs fs q = Some VDir \<Longrightarrow> absFs fs' q = Some VDir" for q using assms(3-5) by auto
  have "published cs A fs fs'" unfolding published_def using d assms(6) by (auto simp: assms(3))
  with assms(1) have "published cs A fs0 fs'" using pub.F_trans by (auto simp: pubFrom_def)
  moreover have "tidy cs fs'" using assms(1,2) d by (auto simp: pubFrom_def intro: tidy_keepDirs)
  ultimately show ?thesis by (simp add: pubFrom_def)
qed

lemma holding_pubFrom: "holding cs A fs0 b i d fs \<Longrightarrow> pubFrom cs A fs0 fs"
  by (simp add: holding_def)

lemma ownFile_abs: "ownFile fs q i d \<Longrightarrow> absFs fs q = Some (VFile d)"
  by (auto simp: ownFile_def absFs_VFile)

section \<open>The triples of the system calls\<close>

abbreviation "rootOf ds p \<equiv> pathComps (owner ds p)"
abbreviation "relOf ds p \<equiv> relName (owner ds p) p"
abbreviation "tempRel ds p b \<equiv> tempDirPrefix (Dir (relName (owner ds p) p)) @ hexEncode b"

lemma pubFrom_dirs: "pubFrom cs A fs0 fs \<Longrightarrow> dirsAbove fs cs" "pubFrom cs A fs0 fs \<Longrightarrow> wfFs fs"
  by (simp_all add: pubFrom_def tidy_def)

lemma triple_create:
  assumes "placed ds p"
  shows "triple ds (pubFrom (pathComps p) A fs0) (rCreateExcl (rootOf ds p) (tempRel ds p b) mode)
    (\<lambda>r fs. case r of Inl e \<Rightarrow> pubFrom (pathComps p) A fs0 fs
       | Inr f \<Rightarrow> hd_path f = tempPath (pathComps p) b \<and> hd_pos f = 0 \<and> holding (pathComps p) A fs0 b (hd_ino f) [] fs)"
  (is "triple ds ?P _ ?Q")
  unfolding rCreateExcl_def
proof (rule triple_mutating')
  fix fs r fs' fx
  assume P: "?P fs" and o: "atRoot (rootOf ds p) False (tempRel ds p b) (opCreateExcl mode) fs = (r, fs', fx)"
  then have c: "opCreateExcl mode (tempPath (pathComps p) b) fs = (r, fs', fx)"
    by (simp add: atRoot_def placed_rootPath [OF assms pubFrom_dirs(1) [OF P]])
  show "(\<forall>q. absFs fs q = Some VDir \<longrightarrow> absFs fs' q = Some VDir) \<and> (\<forall>e. ?Q (Inl e) fs') \<and>
      (\<forall>v. r = Inr v \<and> lim = None \<longrightarrow> ?Q (Inr v) fs')" for lim :: "nat option"
  proof (cases r)
    case (Inl e)
    with c have "fs' = fs" by (auto simp: opCreateExcl_def failOp_def split: option.splits)
    with P Inl show ?thesis by simp
  next
    case (Inr f)
    note a = opCreateExcl_abs [OF c [unfolded Inr] pubFrom_dirs(2) [OF P]]
    have "pubFrom (pathComps p) A fs0 fs'" using P a(1-3) by (intro pubFrom_temp [OF P]) auto
    with a Inr show ?thesis by (auto simp: holding_def)
  qed
qed (simp_all add: pubFrom_clockFree)

lemma triple_write:
  "triple ds (\<lambda>fs. holding cs A fs0 b (hd_ino f) [] fs \<and> hd_pos f = 0) (fWrite f data)
    (\<lambda>r fs. case r of Inl e \<Rightarrow> \<exists>d. holding cs A fs0 b (hd_ino f) d fs
       | Inr f' \<Rightarrow> holding cs A fs0 b (hd_ino f) data fs)"
  (is "triple ds ?P _ ?Q")
  unfolding fWrite_def
proof (rule triple_mutating)
  fix fs lim r fs' fx
  assume P: "?P fs" and o: "opWrite f data lim fs = (r, fs', fx)"
  from P have own: "ownFile fs (tempPath cs b) (hd_ino f) []" and pos: "hd_pos f = 0" and pub: "pubFrom cs A fs0 fs"
    by (auto simp: holding_def)
  from opWrite_abs [OF own pos o] obtain d where d: "lim = None \<longrightarrow> d = data" "r = Inr (f\<lparr>hd_pos := length d\<rparr>)"
    "absFs fs' = (absFs fs)(tempPath cs b \<mapsto> VFile d)" "ownFile fs' (tempPath cs b) (hd_ino f) d" "wfFs fs' = wfFs fs"
    by blast
  have "pubFrom cs A fs0 fs'"
    using pubFrom_dirs(2) [OF pub] d(3,5) ownFile_abs [OF own] by (intro pubFrom_temp [OF pub]) auto
  with d have h: "holding cs A fs0 b (hd_ino f) d fs'" by (simp add: holding_def)
  show "(\<forall>q. absFs fs q = Some VDir \<longrightarrow> absFs fs' q = Some VDir) \<and> (\<forall>e. ?Q (Inl e) fs') \<and>
      (\<forall>v. r = Inr v \<and> lim = None \<longrightarrow> ?Q (Inr v) fs')"
    using h d ownFile_abs [OF own] by auto
qed (auto simp: pubFrom_clockFree clockFree_def intro: pubFrom_clockFree(2) [unfolded clockFree_def, rule_format])

lemma triple_chmod:
  assumes "placed ds p"
  shows "triple ds (holding (pathComps p) A fs0 b i d) (rChmod (rootOf ds p) (tempRel ds p b) mode)
    (\<lambda>_. holding (pathComps p) A fs0 b i d)"
  unfolding rChmod_def
proof (rule triple_mutating')
  fix fs r fs' fx
  assume P: "holding (pathComps p) A fs0 b i d fs"
    and o: "atRoot (rootOf ds p) True (tempRel ds p b) (opChmod mode) fs = (r, fs', fx)"
  from P have pub: "pubFrom (pathComps p) A fs0 fs" and own: "ownFile fs (tempPath (pathComps p) b) i d"
    by (auto simp: holding_def)
  from own have "\<forall>t. nodeAt fs (tempPath (pathComps p) b) \<noteq> Some (NLink t)" by (simp add: ownFile_def)
  with o have "opChmod mode (tempPath (pathComps p) b) fs = (r, fs', fx)"
    by (simp add: atRoot_def placed_rootPath(3) [OF assms pubFrom_dirs(1) [OF pub]])
  note c = opChmod_abs [OF this]
  have "holding (pathComps p) A fs0 b i d fs'"
    using P c pubFrom_dirs(2) [OF pub]
    by (auto simp: holding_def pubFrom_def tidy_def dirsAbove_abs published_def)
  with c show "(\<forall>q. absFs fs q = Some VDir \<longrightarrow> absFs fs' q = Some VDir) \<and>
      (\<forall>e. holding (pathComps p) A fs0 b i d fs') \<and>
      (\<forall>v. r = Inr v \<and> lim = None \<longrightarrow> holding (pathComps p) A fs0 b i d fs')" for lim :: "nat option"
    by simp
qed (simp_all add: pubFrom_clockFree)

text \<open>After the rename, successful or not, the temporary name is no directory.\<close>

definition renamed :: "bytes list \<Rightarrow> entry option set \<Rightarrow> fsys \<Rightarrow> bytes \<Rightarrow> fsys \<Rightarrow> bool" where
  "renamed cs A fs0 b fs \<longleftrightarrow> pubFrom cs A fs0 fs \<and> absFs fs (tempPath cs b) \<noteq> Some VDir"

lemma holding_renamed: "holding cs A fs0 b i d fs \<Longrightarrow> renamed cs A fs0 b fs"
  using ownFile_abs by (fastforce simp: holding_def renamed_def)

lemma triple_rename:
  assumes "placed ds p" and "Some (VFile d) \<in> A"
  shows "triple ds (holding (pathComps p) A fs0 b i d) (rRename (rootOf ds p) (tempRel ds p b) (relOf ds p))
    (\<lambda>r fs. renamed (pathComps p) A fs0 b fs \<and> (r = Inr () \<longrightarrow> absFs fs (pathComps p) = Some (VFile d)))"
  (is "triple ds ?P _ ?Q")
  unfolding rRename_def
proof (rule triple_mutating')
  fix fs r fs' fx
  assume P: "?P fs" and o: "atRoot2 (rootOf ds p) (tempRel ds p b) (relOf ds p) opRename fs = (r, fs', fx)"
  let ?q = "tempPath (pathComps p) b" and ?cs = "pathComps p"
  from P have pub: "pubFrom ?cs A fs0 fs" and own: "ownFile fs ?q i d" by (auto simp: holding_def)
  have c: "opRename ?q ?cs fs = (r, fs', fx)"
    using o by (simp add: atRoot2_def atRoot_def placed_rootPath [OF assms(1) pubFrom_dirs(1) [OF pub]])
  from assms(1) have ne: "?cs \<noteq> []" by (rule placedE) simp
  have "tidy ?cs fs" using pub by (simp add: pubFrom_def)
  then have "?cs \<noteq> ?q" using tidy_temp by metis
  note rn = opRename_abs [OF own ne this c]
  show "(\<forall>q. absFs fs q = Some VDir \<longrightarrow> absFs fs' q = Some VDir) \<and> (\<forall>e. ?Q (Inl e) fs') \<and>
      (\<forall>v. r = Inr v \<and> lim = None \<longrightarrow> ?Q (Inr v) fs')" for lim :: "nat option"
  proof (cases "absFs fs ?cs = Some VDir")
    case True
    with rn holding_renamed [OF P] show ?thesis by auto
  next
    case False
    with rn have a: "absFs fs' = (absFs fs)(?q := None, ?cs \<mapsto> VFile d)" "wfFs fs'"
      using pubFrom_dirs(2) [OF pub] by auto
    have "pubFrom ?cs A fs0 fs'"
      using a False assms(2) ownFile_abs [OF own] by (intro pubFrom_target [OF pub]) auto
    with a False ownFile_abs [OF own] show ?thesis by (auto simp: renamed_def)
  qed
qed (simp_all add: pubFrom_clockFree holding_renamed)

lemma triple_remove:
  assumes "placed ds p"
  shows "triple ds (renamed (pathComps p) A fs0 b) (rRemove (rootOf ds p) (tempRel ds p b)) (\<lambda>_. pubFrom (pathComps p) A fs0)"
  unfolding rRemove_def
proof (rule triple_mutating')
  fix fs r fs' fx
  assume P: "renamed (pathComps p) A fs0 b fs"
    and o: "atRoot (rootOf ds p) False (tempRel ds p b) opRemove fs = (r, fs', fx)"
  let ?q = "tempPath (pathComps p) b"
  from P have pub: "pubFrom (pathComps p) A fs0 fs" and nd: "absFs fs ?q \<noteq> Some VDir" by (auto simp: renamed_def)
  have "opRemove ?q fs = (r, fs', fx)"
    using o by (simp add: atRoot_def placed_rootPath [OF assms pubFrom_dirs(1) [OF pub]])
  from opRemove_abs [OF this] have "pubFrom (pathComps p) A fs0 fs' \<and> (\<forall>q. absFs fs q = Some VDir \<longrightarrow> absFs fs' q = Some VDir)"
  proof
    assume "?q \<noteq> [] \<and> fs' = delNode ?q fs"
    then have "absFs fs' = (absFs fs)(?q := None)" "wfFs fs'"
      using pubFrom_dirs(2) [OF pub] by (simp_all add: absFs_delNode wfFs_delNode)
    with nd pubFrom_temp [OF pub this(2,1) nd] show ?thesis by auto
  qed (use pub in simp)
  then show "(\<forall>q. absFs fs q = Some VDir \<longrightarrow> absFs fs' q = Some VDir) \<and>
      (\<forall>e. pubFrom (pathComps p) A fs0 fs') \<and> (\<forall>v. r = Inr v \<and> lim = None \<longrightarrow> pubFrom (pathComps p) A fs0 fs')"
    for lim :: "nat option" by simp
qed (auto simp: clockFree_def renamed_def sameFiles_simps intro: pubFrom_clockFree(1) [unfolded clockFree_def, rule_format])

section \<open>The triple of the atomic write\<close>

lemma triple_tick:
  assumes "clockFree P"
  shows "triple ds P nextTick (\<lambda>_. P)"
proof (rule tripleI)
  fix h r h' assume "sole ds h" "P (h_fs h)" "run_state nextTick h = (r, h')"
  with sole_tick assms show "sole ds h' \<and> P (h_fs h')" unfolding clockFree_def by blast
qed

lemma triple_sync:
  assumes "clockFree P"
  shows "triple ds P (fSync f) (\<lambda>_. P)" "triple ds P (fClose f) (\<lambda>_. P)"
  unfolding fSync_def fClose_def using assms by (intro triple_readonly; simp add: okOp_def)+

text \<open>What \<open>createTempIn\<close> returns.\<close>

definition tempMade :: "bytes list \<Rightarrow> bytes \<Rightarrow> entry option set \<Rightarrow> fsys \<Rightarrow> (goerr, bytes \<times> handle) result \<Rightarrow> fsys \<Rightarrow> bool" where
  "tempMade ds p A fs0 r fs \<longleftrightarrow>
     (case r of Inl e \<Rightarrow> pubFrom (pathComps p) A fs0 fs
      | Inr (t, f) \<Rightarrow> \<exists>b. t = tempRel ds p b \<and> hd_path f = tempPath (pathComps p) b \<and> hd_pos f = 0 \<and>
          holding (pathComps p) A fs0 b (hd_ino f) [] fs)"

lemma triple_randomSuffix:
  assumes "clockFree P"
  shows "triple ds P randomSuffix (\<lambda>suf fs. \<exists>b. suf = hexEncode b \<and> P fs)"
  unfolding randomSuffix_def by (rule triple_bind [OF triple_tick [OF assms]], rule triple_ret) blast

lemma triple_tempLoop:
  assumes "placed ds p"
  shows "triple ds (pubFrom (pathComps p) A fs0)
    (tempLoop (rootOf ds p) (tempDirPrefix (Dir (relOf ds p))) e n) (tempMade ds p A fs0)"
proof (induction n arbitrary: e)
  case 0
  show ?case by (simp only: tempLoop.simps) (rule triple_ret, simp add: tempMade_def)
next
  case (Suc n)
  have body: "triple ds (pubFrom (pathComps p) A fs0) (rCreateExcl (rootOf ds p) (tempRel ds p b) 384 \<bind>
      case_sum (\<lambda>x. if \<not> isExist x then err x else tempLoop (rootOf ds p) (tempDirPrefix (Dir (relOf ds p))) x n)
        (\<lambda>f. ok (tempRel ds p b, f))) (tempMade ds p A fs0)" for b
  proof (rule triple_bind_sum [OF triple_create [OF assms]])
    show "triple ds (pubFrom (pathComps p) A fs0)
        (if \<not> isExist x then err x else tempLoop (rootOf ds p) (tempDirPrefix (Dir (relOf ds p))) x n)
        (tempMade ds p A fs0)" for x
      using Suc.IH [of x] by (simp, intro impI triple_ret) (simp add: tempMade_def)
  qed (rule triple_ret, auto simp: tempMade_def)
  show ?case
    unfolding tempLoop.simps
    by (rule triple_bind [OF triple_randomSuffix [OF pubFrom_clockFree(1)]], rule triple_ex, rule triple_pure)
      (simp add: body)
qed

lemma triple_fillAndRename:
  assumes "placed ds p" and "Some (VFile data) \<in> A"
  shows "triple ds (\<lambda>fs. holding (pathComps p) A fs0 b (hd_ino f) [] fs \<and> hd_pos f = 0)
    (fillAndRename (rootOf ds p) (tempRel ds p b) (relOf ds p) f data mode)
    (\<lambda>r fs. renamed (pathComps p) A fs0 b fs \<and> (r = Inr () \<longrightarrow> absFs fs (pathComps p) = Some (VFile data)))"
  (is "triple ds _ _ ?Q")
proof -
  let ?H = "\<lambda>d. holding (pathComps p) A fs0 b (hd_ino f) d"
  have failed: "triple ds (\<lambda>fs. \<exists>d. ?H d fs) (ignore (fClose f) \<bind> (\<lambda>_. err e)) ?Q" for e
    by (rule triple_ex, rule triple_bind [OF triple_ignore [OF triple_sync(2)]], rule pubFrom_clockFree)
      (rule triple_ret, simp add: holding_renamed)
  have rest: "triple ds (?H data) (ignore (fSync f') \<bind> (\<lambda>_. bindE (fClose f') (\<lambda>_.
      ignore (rChmod (rootOf ds p) (tempRel ds p b) mode) \<bind> (\<lambda>_.
      rRename (rootOf ds p) (tempRel ds p b) (relOf ds p))))) ?Q" for f' :: handle
    by (rule triple_bind [OF triple_ignore [OF triple_sync(1)]], rule pubFrom_clockFree,
        rule triple_bindE [OF triple_sync(2)], rule pubFrom_clockFree,
        rule triple_bind [OF triple_ignore [OF triple_chmod [OF assms(1)]]],
        rule triple_rename [OF assms])
      (simp add: holding_renamed)
  show ?thesis
    unfolding fillAndRename_def by (rule triple_bind_sum [OF triple_write], rule failed, rule rest)
qed

text \<open>Whatever fails: if \<open>atomicWriteOnce\<close> succeeds the file has exactly the new content, and in any case it
  has the content it had or the new one.\<close>

lemma triple_atomicWriteOnce:
  assumes "placed ds p" and "Some (VFile data) \<in> A"
  shows "triple ds (pubFrom (pathComps p) A fs0) (atomicWriteOnce data mode (rootOf ds p) (relOf ds p))
    (\<lambda>r fs. pubFrom (pathComps p) A fs0 fs \<and> (r = Inr () \<longrightarrow> absFs fs (pathComps p) = Some (VFile data)))"
  (is "triple ds _ _ ?Q")
proof -
  have undo: "triple ds (\<lambda>fs. renamed (pathComps p) A fs0 b fs) (ignore (rRemove (rootOf ds p) (tempRel ds p b)) \<bind> (\<lambda>_. err e)) ?Q"
    for b e
    by (rule triple_bind [OF triple_ignore [OF triple_remove [OF assms(1)]]], rule triple_ret) simp
  have rest: "triple ds (\<lambda>fs. holding (pathComps p) A fs0 b (hd_ino f) [] fs \<and> hd_pos f = 0)
      (fillAndRename (rootOf ds p) (tempRel ds p b) (relOf ds p) f data mode \<bind>
        case_sum (\<lambda>e. ignore (rRemove (rootOf ds p) (tempRel ds p b)) \<bind> (\<lambda>_. err e)) (\<lambda>_. ok ())) ?Q" for b f
    by (rule triple_bind [OF triple_fillAndRename [OF assms]], rule triple_case_sum)
      (rule triple_conseq [OF undo], simp, simp, rule triple_ret, auto simp: renamed_def)
  show ?thesis
    unfolding atomicWriteOnce_def createTempIn_def
  proof (rule triple_bindE [OF triple_tempLoop [OF assms(1)]])
    fix tf :: "bytes \<times> handle"
    obtain t f where tf: "tf = (t, f)" by fastforce
    show "triple ds (tempMade ds p A fs0 (Inr tf)) (case tf of (tmpRel, f) \<Rightarrow>
        fillAndRename (rootOf ds p) tmpRel (relOf ds p) f data mode \<bind>
          case_sum (\<lambda>e. ignore (rRemove (rootOf ds p) tmpRel) \<bind> (\<lambda>_. err e)) (\<lambda>_. ok ())) ?Q"
      unfolding tf tempMade_def sum.case prod.case
      by (rule triple_ex, rule triple_pure, hypsubst, rule triple_conseq [OF rest]) auto
  qed (simp add: tempMade_def)
qed

end
