(* ===== verification/Tools.thy ===== *)
theory Tools
  imports ToolsGate "HOL-Library.Code_Target_Numeral"
begin

text \<open>
  The five tools on files and directories: their calls, the dispatch to the handlers and what holds of
  every call. The theorems hold for every schedule, that is for every interleaving with other writers,
  every context expiry and every sequence of backend faults.
\<close>

datatype toolCall =
    CallRead ReadInput
  | CallWrite bytes bytes
  | CallEdit bytes EditItem
  | CallMultiEdit bytes "EditItem list"
  | CallMkdir bytes

datatype toolOutput =
    OutRead ReadOutput
  | OutWrite writeAck
  | OutEdit editAck
  | OutMkdir MkdirOutput

definition outAs :: "('a \<Rightarrow> toolOutput) \<Rightarrow> 'a ioe \<Rightarrow> toolOutput ioe" where
  "outAs f m = bindE m (\<lambda>v. ok (f v))"

fun callTool :: "Conn \<Rightarrow> toolCall \<Rightarrow> toolOutput ioe" where
  "callTool c (CallRead inp) = outAs OutRead (Read c inp)"
| "callTool c (CallWrite path content) = outAs OutWrite (Write c path content)"
| "callTool c (CallEdit path e) = outAs OutEdit (EditTool c path e)"
| "callTool c (CallMultiEdit path es) = outAs OutEdit (MultiEdit c path es)"
| "callTool c (CallMkdir path) = outAs OutMkdir (Mkdir c path)"

context step_rel
begin

lemma rel_outAs: "state_io_rel R m \<Longrightarrow> state_io_rel R (outAs f m)"
  unfolding outAs_def by (intro rel_intros)

end

lemma run_outAs:
  "run_state (outAs f m) h = (case run_state m h of (r, h') \<Rightarrow> (map_sum (\<lambda>e. e) f r, h'))"
  by (simp add: outAs_def run_bindE split: prod.split sum.split)

section \<open>Relations of all handlers\<close>

context effect_rel
begin

lemma rel_callTool:
  assumes "c_dirs c = ds"
    and "\<And>p m. state_io_rel R (WithRoot ds p (claimOnce p m))"
    and "\<And>p d m. state_io_rel R (WithRoot ds p (atomicWriteOnce d m))"
    and "\<And>p. state_io_rel R (WithRoot ds p rRemove)"
    and "\<And>p. state_io_rel R (WithRoot ds p (mkdirOnce p))"
    and "\<And>p n t. state_io_rel R (sessMarkRead c p n t)"
  shows "state_io_rel R (callTool c call)"
  by (cases call)
    (simp_all, (intro rel_outAs rel_Read rel_handlers assms)+)

end

lemma confined_callTool: "state_io_rel (confinedTo (c_dirs c) {}) (callTool c call)"
  by (rule scope.rel_callTool [OF HOL.refl]) (rule confined_ops confined_mark)+

lemma others_callTool: "state_io_rel (othersSame (c_token c)) (callTool c call)"
  by (rule others.rel_callTool [OF HOL.refl]) (rule others_ops others_mark)+

lemma handsFree_callTool: "state_io_rel handsFree (callTool c call)"
  by (cases call)
    (simp_all, (intro hf.rel_outAs handsFree_Read handsFree_Write handsFree_edit handsFree_Mkdir)+)

section \<open>Properties\<close>

text \<open>A fresh process over the files of a host: no root is open, no file was read.\<close>

definition fresh :: "host \<Rightarrow> bool" where
  "fresh h \<longleftrightarrow> h_roots h = [] \<and> h_opened h = [] \<and> h_sess h = (\<lambda>_. newSession) \<and> h_fxlog h = [] \<and>
     h_held h = [] \<and> h_lease h = 0 \<and> \<not> h_stuck h"

definition demoConn :: "bytes \<Rightarrow> Conn" where
  "demoConn token = \<lparr>c_env = demoEnv, c_guard = demoGuard, c_token = token, c_limits = DefaultUploadLimits\<rparr>"

text \<open>A read of \<open>/d/f\<close> and an edit of it through the link \<open>/l\<close>.\<close>

definition demoCalls :: "(Conn \<times> toolCall) list" where
  "demoCalls =
     [(demoConn ''t'', CallRead \<lparr>ri_FilePath = ''/d/f'', ri_Offset = 0, ri_Limit = 0\<rparr>),
      (demoConn ''t'', CallEdit ''/l/f'' \<lparr>ei_OldString = ''b'', ei_NewString = ''xy'', ei_ReplaceAll = False\<rparr>)]"

lemma fresh_demo: "fresh demoHost"
  by (simp add: fresh_def demoHost_def emptyHost_def)

text \<open>The path a call names.\<close>

fun callPath :: "toolCall \<Rightarrow> bytes" where
  "callPath (CallRead inp) = ri_FilePath inp"
| "callPath (CallWrite path content) = path"
| "callPath (CallEdit path e) = path"
| "callPath (CallMultiEdit path es) = path"
| "callPath (CallMkdir path) = path"

lemma marks_validated:
  assumes "run_state (bindE (c_validate c raw) f) h = (r, h')" and "\<And>p. marksAtMost c p (f p)"
  shows "h_sess h' = h_sess h \<or> (\<exists>p h1 n t v. run_state (c_validate c raw) h = (Inr p, h1) \<and> r = Inr v \<and>
    h_sess h' = sessSet c p n t (h_sess h))"
  using assms(1)
proof (cases rule: run_validated)
  case (accepted p h1)
  with marksAtMostD [OF assms(2) accepted(2)] show ?thesis by auto
qed simp

lemma marks_handlers:
  "run_state (Read c inp) h = (r1, h') \<Longrightarrow> h_sess h' = h_sess h \<or> (\<exists>p h1 n t v.
    run_state (c_validate c (ri_FilePath inp)) h = (Inr p, h1) \<and> r1 = Inr v \<and> h_sess h' = sessSet c p n t (h_sess h))"
  "run_state (Write c path content) h = (r2, h') \<Longrightarrow> h_sess h' = h_sess h \<or> (\<exists>p h1 n t v.
    run_state (c_validate c path) h = (Inr p, h1) \<and> r2 = Inr v \<and> h_sess h' = sessSet c p n t (h_sess h))"
  "run_state (EditTool c path e) h = (r3, h') \<Longrightarrow> h_sess h' = h_sess h \<or> (\<exists>p h1 n t v.
    run_state (c_validate c path) h = (Inr p, h1) \<and> r3 = Inr v \<and> h_sess h' = sessSet c p n t (h_sess h))"
  "run_state (MultiEdit c path es) h = (r4, h') \<Longrightarrow> h_sess h' = h_sess h \<or> (\<exists>p h1 n t v.
    run_state (c_validate c path) h = (Inr p, h1) \<and> r4 = Inr v \<and> h_sess h' = sessSet c p n t (h_sess h))"
proof -
  show "run_state (Read c inp) h = (r1, h') \<Longrightarrow> h_sess h' = h_sess h \<or> (\<exists>p h1 n t v.
      run_state (c_validate c (ri_FilePath inp)) h = (Inr p, h1) \<and> r1 = Inr v \<and> h_sess h' = sessSet c p n t (h_sess h))"
  proof -
    let ?o = "if ri_Offset inp = 0 then 1 else ri_Offset inp"
    let ?l = "if ri_Limit inp = 0 then DefaultLines else ri_Limit inp"
    assume run: "run_state (Read c inp) h = (r1, h')"
    show ?thesis
    proof (cases "ValidateArgs ?o ?l")
      case None
      with run have "run_state (bindE (c_validate c (ri_FilePath inp))
          (\<lambda>p. withLocks c 0 ''read'' p (readLocked c p ?o ?l))) h = (r1, h')"
        by (simp only: Read_def Let_def option.case)
      then show ?thesis by (rule marks_validated) (intro ma_withLocks ma_bodies)
    qed (use run in \<open>auto simp: Read_def\<close>)
  qed
  show "run_state (Write c path content) h = (r2, h') \<Longrightarrow> h_sess h' = h_sess h \<or> (\<exists>p h1 n t v.
      run_state (c_validate c path) h = (Inr p, h1) \<and> r2 = Inr v \<and> h_sess h' = sessSet c p n t (h_sess h))"
    unfolding Write_def by (elim marks_validated) (intro ma_withLocks ma_bodies)
  show "run_state (EditTool c path e) h = (r3, h') \<Longrightarrow> h_sess h' = h_sess h \<or> (\<exists>p h1 n t v.
      run_state (c_validate c path) h = (Inr p, h1) \<and> r3 = Inr v \<and> h_sess h' = sessSet c p n t (h_sess h))"
    unfolding EditTool_def by (elim marks_validated) (intro ma_withLocks ma_map ma_bodies)
  show "run_state (MultiEdit c path es) h = (r4, h') \<Longrightarrow> h_sess h' = h_sess h \<or> (\<exists>p h1 n t v.
      run_state (c_validate c path) h = (Inr p, h1) \<and> r4 = Inr v \<and> h_sess h' = sessSet c p n t (h_sess h))"
    unfolding MultiEdit_def by (elim marks_validated) (intro ma_splits ma_err ma_withLocks ma_map ma_bodies)
qed

lemma marks_outAs:
  assumes "run_state (outAs f m) h = (r, h')" and "h_sess h' \<noteq> h_sess h"
    and "\<And>r1. run_state m h = (r1, h') \<Longrightarrow> h_sess h' = h_sess h \<or> (\<exists>p h1 n t v.
      run_state (c_validate c path) h = (Inr p, h1) \<and> r1 = Inr v \<and> h_sess h' = sessSet c p n t (h_sess h))"
  shows "\<not> isl r \<and> (\<exists>p h1 n t. run_state (c_validate c path) h = (Inr p, h1) \<and> h_sess h' = sessSet c p n t (h_sess h))"
proof -
  from assms(1) obtain r1 where r1: "run_state m h = (r1, h')" "r = map_sum (\<lambda>e. e) f r1"
    by (auto simp: run_outAs split: prod.splits)
  from assms(3) [OF r1(1)] assms(2) r1(2) show ?thesis by auto
qed

lemma keep_Mkdir: "state_io_rel sessKeep (Mkdir c path)"
  unfolding Mkdir_def
  by (intro keep.rel_intros keep.rel_Validate keep.rel_withLocks keep.rel_retry keep.rel_state keep_ops)

text \<open>C24. Markers: a call changes at most one read marker, that of the path it validated, in the session
  of its own token, and only when it succeeds; \<open>mkdir\<close> changes none. So a file that one client has read
  does not authorise another client, and a failed call authorises nothing.\<close>

theorem markers_on_success:
  assumes "run_state (callTool c call) h = (r, h')" and "h_sess h' \<noteq> h_sess h"
  shows "\<not> isl r \<and> (\<forall>path. call \<noteq> CallMkdir path) \<and>
    (\<exists>p h1 n t. run_state (c_validate c (callPath call)) h = (Inr p, h1) \<and>
      h_sess h' = (h_sess h)(c_token c := MarkRead p n t (h_sess h (c_token c))))"
proof -
  have "\<not> isl r \<and> (\<forall>path. call \<noteq> CallMkdir path) \<and> (\<exists>p h1 n t. run_state (c_validate c (callPath call)) h = (Inr p, h1) \<and>
      h_sess h' = sessSet c p n t (h_sess h))"
  proof (cases call)
    case (CallRead inp)
    with assms(1) have "run_state (outAs OutRead (Read c inp)) h = (r, h')" by simp
    from marks_outAs [OF this assms(2) marks_handlers(1)] CallRead show ?thesis by auto
  next
    case (CallWrite path content)
    with assms(1) have "run_state (outAs OutWrite (Write c path content)) h = (r, h')" by simp
    from marks_outAs [OF this assms(2) marks_handlers(2)] CallWrite show ?thesis by auto
  next
    case (CallEdit path e)
    with assms(1) have "run_state (outAs OutEdit (EditTool c path e)) h = (r, h')" by simp
    from marks_outAs [OF this assms(2) marks_handlers(3)] CallEdit show ?thesis by auto
  next
    case (CallMultiEdit path es)
    with assms(1) have "run_state (outAs OutEdit (MultiEdit c path es)) h = (r, h')" by simp
    from marks_outAs [OF this assms(2) marks_handlers(4)] CallMultiEdit show ?thesis by auto
  next
    case (CallMkdir path)
    with assms state_io_relD [OF keep.rel_outAs [OF keep_Mkdir]] show ?thesis by (fastforce simp: sessKeep_def)
  qed
  then show ?thesis unfolding sessSet_def .
qed

lemma markers_on_success_witness:
  "\<exists>r h' n t. run_state (callTool (demoConn ''t'') (CallRead \<lparr>ri_FilePath = ''/d/f'', ri_Offset = 0, ri_Limit = 0\<rparr>)) demoHost = (r, h') \<and>
     \<not> isl r \<and> h_sess h' = (h_sess demoHost)(''t'' := MarkRead ''/d/f'' n t (h_sess demoHost ''t''))"
proof -
  let ?call = "CallRead \<lparr>ri_FilePath = ''/d/f'', ri_Offset = 0, ri_Limit = 0\<rparr>"
  obtain r h' where run: "run_state (callTool (demoConn ''t'') ?call) demoHost = (r, h')" by fastforce
  have "h_sess (snd (run_state (callTool (demoConn ''t'') ?call) demoHost)) ''t'' ''/d/f'' \<noteq> None"
    "h_sess demoHost ''t'' ''/d/f'' = None"
    by code_simp+
  with run have "h_sess h' \<noteq> h_sess demoHost" by auto
  moreover have "fst (run_state (c_validate (demoConn ''t'') (callPath ?call)) demoHost) = Inr ''/d/f''"
    by code_simp
  moreover have "c_token (demoConn ''t'') = ''t''" by (simp add: demoConn_def)
  moreover from markers_on_success [OF run calculation(1)] obtain p h1 n t where "\<not> isl r"
    "run_state (c_validate (demoConn ''t'') (callPath ?call)) demoHost = (Inr p, h1)"
    "h_sess h' = (h_sess demoHost)(c_token (demoConn ''t'') := MarkRead p n t (h_sess demoHost (c_token (demoConn ''t''))))"
    by blast
  ultimately show ?thesis using run by (intro exI [of _ r] exI [of _ h'] exI [of _ n] exI [of _ t]) simp
qed




text \<open>The machine after a successful read of \<open>/d/f\<close> by the session \<open>t\<close>.\<close>

definition demoRead :: host where
  "demoRead = demoHost\<lparr>h_sess := (\<lambda>_. newSession)(''t'' := MarkRead ''/d/f'' 3 5 newSession)\<rparr>"

definition demoEdit :: EditItem where
  "demoEdit = \<lparr>ei_OldString = ''b'', ei_NewString = ''xy'', ei_ReplaceAll = False\<rparr>"




text \<open>The markers of one session, through the calls of others.\<close>

definition tokenSame :: "bytes \<Rightarrow> host \<Rightarrow> host \<Rightarrow> bool" where
  "tokenSame t h h' \<longleftrightarrow> h_sess h' t = h_sess h t"

interpretation tok: step_rel "tokenSame t" for t
  by unfold_locales (simp_all add: tokenSame_def)

lemma Compare_newSession: "Compare p n t newSession = StatusUnknown"
  by (simp add: Compare_def newSession_def)

lemma editFlow_unread:
  assumes "run_state (editFlow c p f) h = (r, h')" and "h_sess h (c_token c) = newSession"
  shows "isl r \<and> h_fxlog h' = h_fxlog h"
  using editFlow_gate [OF assms(1)] assms(2) by (auto simp: Compare_newSession)

lemma edit_unread:
  assumes "h_sess h (c_token c) = newSession"
  shows "run_state (EditTool c path e) h = (r1, h') \<Longrightarrow> isl r1 \<and> h_fxlog h' = h_fxlog h"
    "run_state (MultiEdit c path es) h = (r2, h') \<Longrightarrow> isl r2 \<and> h_fxlog h' = h_fxlog h"
proof -
  assume "run_state (EditTool c path e) h = (r1, h')"
  then show "isl r1 \<and> h_fxlog h' = h_fxlog h"
    unfolding EditTool_def
  proof (cases rule: run_validated_locks)
    case (ran p h1 h2 h3)
    then show ?thesis using assms
      by (auto simp: run_bindE split: prod.splits sum.splits dest: editFlow_unread)
  qed simp
next
  assume run: "run_state (MultiEdit c path es) h = (r2, h')"
  show "isl r2 \<and> h_fxlog h' = h_fxlog h"
  proof (cases "es = []")
    case True
    from run show ?thesis unfolding MultiEdit_def by (cases rule: run_validated) (use True in auto)
  next
    case False
    with run have "run_state (bindE (c_validate c path) (\<lambda>p. withLocks c 0 ''edit'' p (
        bindE (editFlow c p (applyEdits es)) (\<lambda>_.
        ok \<lparr>ea_Matches = length es, ea_Warning = join (warnLoop 0 es) ''; ''\<rparr>)))) h = (r2, h')"
      by (simp add: MultiEdit_def)
    then show ?thesis
    proof (cases rule: run_validated_locks)
      case (ran p h1 h2 h3)
      then show ?thesis using assms
        by (auto simp: run_bindE split: prod.splits sum.splits dest: editFlow_unread)
    qed simp
  qed
qed

lemma call_unread:
  assumes "h_sess h (c_token c) = newSession" and "call = CallEdit path e \<or> call = CallMultiEdit path es"
    and "run_state (callTool c call) h = (r, h')"
  shows "isl r \<and> h_fxlog h' = h_fxlog h"
  using edit_unread [OF assms(1)] assms(2,3) by (auto simp: run_outAs split: prod.splits) (metis isl_map_sum)+

end
