(* ===== verification/AtomicTools.thy ===== *)
theory AtomicTools
  imports Atomic Tools
begin

text \<open>
  \<open>edit\<close>, \<open>multi_edit\<close> and \<open>write\<close> refine their abstract specification when the tools are the only writer,
  under every sequence of faults and context expiries: the abstract file system changes only at the file
  (and at temporary names in its directory), the file is left with its old or its whole new content, and
  success means the new content.
\<close>

lemma triple_rel:
  assumes "\<And>fs0. triple ds (pubFrom cs A fs0) m (\<lambda>_. pubFrom cs A fs0)"
  shows "state_io_rel (under (tidy cs) (published cs A) ds) m"
proof (rule state_io_relI)
  fix a h h' assume run: "run_state m h = (a, h')"
  show "under (tidy cs) (published cs A) ds h h'"
    unfolding under_def
  proof
    assume pre: "sole ds h \<and> tidy cs (h_fs h)"
    then have "pubFrom cs A (h_fs h) (h_fs h)" by (simp add: pubFrom_def pub.F_refl)
    from tripleD [OF assms run _ this] pre
    show "sole ds h' \<and> tidy cs (h_fs h') \<and> published cs A (h_fs h) (h_fs h')" by (simp add: pubFrom_def)
  qed
qed

lemma pub_atomicWriteOnce:
  assumes "placed ds p" and "Some (VFile data) \<in> A"
  shows "state_io_rel (under (tidy (pathComps p)) (published (pathComps p) A) ds) (WithRoot ds p (atomicWriteOnce data mode))"
  by (rule pub.under_WithRoot, rule triple_rel, rule triple_conseq [OF triple_atomicWriteOnce [OF assms]]) auto

lemma pub_atomicWrite:
  assumes "placed (c_dirs c) p" and "Some (VFile data) \<in> A"
  shows "state_io_rel (under (tidy (pathComps p)) (published (pathComps p) A) (c_dirs c)) (atomicWrite c p data mode)"
  unfolding atomicWrite_def by (intro pub.body_retry pub_atomicWriteOnce assms)

text \<open>A successful atomic write leaves the new content.\<close>

lemma atomicWrite_Inr:
  assumes "placed (c_dirs c) p" and "run_state (atomicWrite c p data mode) h = (Inr v, h')"
    and "sole (c_dirs c) h" and "tidy (pathComps p) (h_fs h)"
  shows "absFs (h_fs h') (pathComps p) = Some (VFile data)"
proof -
  let ?A = "{Some (VFile data)}" and ?cs = "pathComps p" and ?ds = "c_dirs c"
  let ?R = "under (tidy ?cs) (published ?cs ?A) ?ds"
  have "state_io_rel ?R (WithRoot ?ds p (atomicWriteOnce data mode))"
    by (rule pub_atomicWriteOnce [OF assms(1)]) simp
  from pub.retry_Inr(1) [OF this assms(2) [unfolded atomicWrite_def]] obtain h1 h2 where
    R: "?R h h1" "run_state (WithRoot ?ds p (atomicWriteOnce data mode)) h1 = (Inr v, h2)" "?R h2 h'"
    by blast
  from underD [OF R(1) assms(3,4)] have s1: "sole ?ds h1" "tidy ?cs (h_fs h1)" by auto
  from R(2) s1(1) have "sole ?ds h2 \<and> tidy ?cs (h_fs h2) \<and> absFs (h_fs h2) ?cs = Some (VFile data)"
  proof (cases rule: WithRoot_sole)
    case (ran h3 h4)
    have t3: "tidy ?cs (h_fs h3)" using pub.I_same [OF ran(2) s1(2)] .
    have "pubFrom ?cs ?A (h_fs h3) (h_fs h3)" using t3 by (simp add: pubFrom_def pub.F_refl)
    from tripleD [OF triple_atomicWriteOnce [OF assms(1)] ran(4) ran(1) this]
    show ?thesis by (simp add: pubFrom_def ran(5) sole_def)
  qed simp
  with underD [OF R(3)] show ?thesis by (auto simp: published_def)
qed

section \<open>Reading the content\<close>

lemma rStat_keeps_sole:
  assumes "run_state (rStat base rel) h = (r, h')" and "sole ds h"
  shows "sole ds h' \<and> sameFiles (h_fs h) (h_fs h')"
  using same_step [OF same.under_calls(1) assms] .

lemma readSnap_content:
  assumes "run_state (readSnap c p) h = (Inr cur, h')" and "sole (c_dirs c) h" and "placed (c_dirs c) p"
    and "dirsAbove (h_fs h) (pathComps p)" and "absFs (h_fs h) (pathComps p) = Some (VFile old)"
  shows "sn_content cur = old"
proof -
  let ?ds = "c_dirs c" and ?R = "under (\<lambda>_. True) sameFiles (c_dirs c)"
  from assms(1) have "run_state (runFS (WithRoot ?ds p (snapOnce p))) h = (Inr cur, h')"
    by (auto simp: readSnap_def run_mapErr split: prod.splits sum.splits)
  from same.retry_Inr(2) [OF same.body_snapOnce this] obtain h1 h2 where
    R: "?R h h1" "run_state (WithRoot ?ds p (snapOnce p)) h1 = (Inr cur, h2)" by blast
  from underD [OF R(1) assms(2)] have s1: "sole ?ds h1" "sameFiles (h_fs h) (h_fs h1)" by auto
  from R(2) s1(1) show ?thesis
  proof (cases rule: WithRoot_sole)
    case (ran h3 h4)
    from ran(4) obtain info h5 where st: "run_state (rStat (rootOf ?ds p) (relOf ?ds p)) h3 = (Inr info, h5)"
      "run_state (rReadFile (rootOf ?ds p) (relOf ?ds p)) h5 = (Inr (sn_content cur), h4)"
      by (auto simp: snapOnce_def run_bindE split: prod.splits sum.splits if_splits)
    from rStat_keeps_sole [OF st(1) ran(1)] have s5: "sole ?ds h5" "sameFiles (h_fs h3) (h_fs h5)" by auto
    from st(2) [unfolded rReadFile_def] s5(1) show ?thesis
    proof (cases rule: sole_syscall)
      case (applied h6 lim r1 fs' fx)
      have "sameFiles (h_fs h) (h_fs h6)"
        using s1(2) ran(2) s5(2) applied(2) by (meson sameFiles_trans)
      note same = sameFiles_simps [OF this]
      from assms(3) obtain d where d: "d = owner ?ds p" "canonPath d" "canonPath p" "withinPrefix d p" by (rule placedE)
      have "rootPath (h_fs h6) (rootOf ?ds p) True (relOf ?ds p) = Inr (pathComps p)"
        using rootPath_real [of d p "h_fs h6" True] d assms(4,5) by (auto simp: same absFs_VFile)
      with applied(4,6) assms(5) show ?thesis
        by (auto simp: atRoot_def opReadFile_def okOp_def absFs_VFile same)
    qed simp
  qed simp
qed

section \<open>edit and multi_edit\<close>

lemma rel_editRest:
  assumes "placed (c_dirs c) p" and "Some (VFile out) \<in> A"
  shows "state_io_rel (under (tidy (pathComps p)) (published (pathComps p) A) (c_dirs c)) (editRest c p cur out x)"
  unfolding editRest_def
  by (intro pub.rel_bindE pub.rel_mapErr pub.rel_statFile [OF HOL.refl] pub.rel_case_prod pub.rel_if pub.rel_err
      pub.rel_bind pub.rel_markKnown [OF HOL.refl] pub.rel_ok pub_atomicWrite assms pub.under_state)

text \<open>What a program that runs under the relation leaves when it started in order.\<close>

lemma under_run:
  "state_io_rel (under I F ds) m \<Longrightarrow> run_state m h = (r, h') \<Longrightarrow> sole ds h \<Longrightarrow> I (h_fs h) \<Longrightarrow>
    sole ds h' \<and> I (h_fs h') \<and> F (h_fs h) (h_fs h')"
  by (blast dest: state_io_relD underD)

lemma editRest_Inr:
  assumes "placed (c_dirs c) p" and "run_state (editRest c p cur out x) h = (Inr v, h')"
    and "sole (c_dirs c) h" and "tidy (pathComps p) (h_fs h)"
  shows "absFs (h_fs h') (pathComps p) = Some (VFile out)"
proof -
  let ?A = "{Some (VFile out)}" and ?cs = "pathComps p" and ?ds = "c_dirs c"
  from assms(2) obtain st h1 m w h2 n h3 where
    1: "run_state (mapErr (mapFSErr p) (statFile c p)) h = (Inr st, h1)" and
    2: "run_state (atomicWrite c p out m) h1 = (Inr w, h2)" and
    3: "run_state (markKnown c p (int (length out))) h2 = (n, h')"
    by (auto simp: editRest_def run_bindE run_mapErr split: prod.splits sum.splits if_splits)
  have u1: "sole ?ds h1 \<and> tidy ?cs (h_fs h1)"
    using under_run [OF pub.rel_mapErr [OF pub.rel_statFile [OF HOL.refl]] 1 assms(3,4)] by blast
  have "sole ?ds h2 \<and> tidy ?cs (h_fs h2)"
    using under_run [OF pub_atomicWrite [OF assms(1), of out ?A] 2] u1 by blast
  moreover have "state_io_rel (under (tidy ?cs) (published ?cs ?A) ?ds) (markKnown c p (int (length out)))"
    by (intro pub.rel_markKnown [OF HOL.refl] pub.under_state)
  ultimately have "published ?cs ?A (h_fs h2) (h_fs h')" using under_run [OF _ 3] by blast
  with atomicWrite_Inr [OF assms(1) 2] u1 show ?thesis by (auto simp: published_def)
qed

text \<open>What an edit function may leave of a file.\<close>

definition editOutcomes :: "(bytes \<Rightarrow> (goerr, bytes \<times> 'a) result) \<Rightarrow> bytes \<Rightarrow> entry option set" where
  "editOutcomes f old = (case f old of Inl _ \<Rightarrow> {} | Inr (out, x) \<Rightarrow> {Some (VFile out)})"

lemma editFlow_atomic:
  assumes "placed (c_dirs c) p" and "run_state (editFlow c p f) h = (r, h')"
    and "sole (c_dirs c) h" and "tidy (pathComps p) (h_fs h)" and "absFs (h_fs h) (pathComps p) = Some (VFile old)"
  shows "sole (c_dirs c) h' \<and> tidy (pathComps p) (h_fs h') \<and>
    published (pathComps p) (editOutcomes f old) (h_fs h) (h_fs h') \<and>
    (\<forall>v. r = Inr v \<longrightarrow> (\<exists>out. f old = Inr (out, v) \<and> absFs (h_fs h') (pathComps p) = Some (VFile out)))"
proof -
  let ?A = "editOutcomes f old" and ?cs = "pathComps p" and ?ds = "c_dirs c"
  let ?st = "\<lambda>cur. Compare p (sn_size cur) (sn_mtime cur) (h_sess h (c_token c))"
  obtain r1 h1 where s: "run_state (readSnap c p) h = (r1, h1)" by fastforce
  have u1: "sole ?ds h1 \<and> tidy ?cs (h_fs h1) \<and> published ?cs ?A (h_fs h) (h_fs h1)"
    using under_run [OF pub.rel_readSnap [OF HOL.refl] s assms(3,4)] .
  note k = readSnap_keeps [OF s]
  show ?thesis
  proof (cases r1)
    case (Inl e)
    with assms(2) s u1 show ?thesis by (auto simp: editFlow_rest run_bindE)
  next
    case (Inr cur)
    have c: "sn_content cur = old"
      using readSnap_content [OF s [unfolded Inr] assms(3,1) _ assms(5)] assms(4) by (simp add: tidy_def)
    have run: "run_state (case ?st cur of
         StatusUnknown \<Rightarrow> err (EStaleReadNeverRead p)
       | StatusStale \<Rightarrow> err (EStaleRead p)
       | StatusMatch \<Rightarrow> bindE (liftR (f old)) (\<lambda>(out, x). editRest c p cur out x)) h1 = (r, h')"
      using assms(2) s Inr k(2) c by (simp add: editFlow_rest run_bindE [of "readSnap c p"] sessCompare_def)
    show ?thesis
    proof (cases "\<exists>out x. ?st cur = StatusMatch \<and> f old = Inr (out, x)")
      case True
      then obtain out x where o: "?st cur = StatusMatch" "f old = Inr (out, x)" by blast
      with run have e: "run_state (editRest c p cur out x) h1 = (r, h')" by (simp add: run_bindE)
      have "Some (VFile out) \<in> ?A" using o(2) by (simp add: editOutcomes_def)
      from under_run [OF rel_editRest [OF assms(1) this] e] u1 pub.F_trans
      have "sole ?ds h' \<and> tidy ?cs (h_fs h') \<and> published ?cs ?A (h_fs h) (h_fs h')" by blast
      moreover have "v = x \<and> absFs (h_fs h') ?cs = Some (VFile out)" if "r = Inr v" for v
        using that e u1 editRest_result [of c p cur out x h1 v h'] editRest_Inr [OF assms(1), of cur out x h1 v h']
        by auto
      ultimately show ?thesis using o(2) by blast
    next
      case False
      with run have "isl r" "h' = h1" by (auto simp: run_bindE split: Status.splits sum.splits)
      with u1 show ?thesis by auto
    qed
  qed
qed

text \<open>A locked handler around a body with such a specification.\<close>

lemma front_atomic:
  assumes "run_state (bindE (c_validate c path) (\<lambda>p. withLocks c' ctx stage p (body p))) h = (r, h')"
    and "run_state (c_validate c path) h = (Inr p, h0)" and "sole ds h" and "tidy cs (h_fs h)"
    and "\<And>h1 h2. run_state (body p) h1 = (r, h2) \<Longrightarrow> sole ds h1 \<Longrightarrow> tidy cs (h_fs h1) \<Longrightarrow>
      absFs (h_fs h1) = absFs (h_fs h) \<Longrightarrow> sole ds h2 \<and> published cs A (h_fs h1) (h_fs h2) \<and> Q r (absFs (h_fs h2) cs)"
    and "isl r \<Longrightarrow> Q r (absFs (h_fs h) cs)"
  shows "published cs A (h_fs h) (h_fs h') \<and> Q r (absFs (h_fs h') cs)"
  using assms(1)
proof (cases rule: same.front_split [where ds = ds, consumes 1, case_names refused ran])
  case refused
  with assms(3) have "sameFiles (h_fs h) (h_fs h')" by (simp add: under_def)
  with refused(1) assms(6) show ?thesis by (simp add: pub.F_same sameFiles_simps)
next
  case (ran p' h1 h2 h3)
  with assms(2) have p: "p' = p" by simp
  from ran(2) assms(3) have s2: "sole ds h2" "sameFiles (h_fs h) (h_fs h2)" by (simp_all add: under_def)
  with assms(4) have "tidy cs (h_fs h2)" by (simp add: pub.I_same)
  with assms(5) [of h2 h3] ran(3) s2 have b: "sole ds h3" "published cs A (h_fs h2) (h_fs h3)" "Q r (absFs (h_fs h3) cs)"
    by (simp_all add: sameFiles_simps p)
  from ran(4) b(1) have "sameFiles (h_fs h3) (h_fs h')" by (simp add: under_def)
  with b s2 pub.F_same pub.F_trans show ?thesis by (metis sameFiles_simps(2))
qed


section \<open>The tools\<close>

lemma edit_outcomes:
  "editOutcomes (applyEdit p e) old =
     editOutcomes (\<lambda>old. ApplyOnce old (ei_OldString e) (ei_NewString e) (ei_ReplaceAll e)) old"
  "applyEdit p e old = Inr x \<longleftrightarrow> ApplyOnce old (ei_OldString e) (ei_NewString e) (ei_ReplaceAll e) = Inr x"
  by (auto simp: editOutcomes_def applyEdit_def split: sum.splits prod.splits)

text \<open>C3. \<open>edit\<close> refines the abstract operation that replaces one file's content by the result of \<open>ApplyOnce\<close>,
  whatever faults and expiries the schedule holds: when no other process writes, every path but the file
  and the temporary names beside it keeps its entry, the file is left with its whole old or its whole new
  content, and a success leaves the new content and reports the number of replacements.\<close>

theorem edit_atomic:
  assumes "run_state (EditTool c path e) h = (r, h')" and "run_state (c_validate c path) h = (Inr p, h0)"
    and "sole (c_dirs c) h" and "placed (c_dirs c) p" and "tidy (pathComps p) (h_fs h)"
    and "absFs (h_fs h) (pathComps p) = Some (VFile old)"
  shows "published (pathComps p)
      (editOutcomes (\<lambda>old. ApplyOnce old (ei_OldString e) (ei_NewString e) (ei_ReplaceAll e)) old) (h_fs h) (h_fs h') \<and>
    (\<forall>v. r = Inr v \<longrightarrow> (\<exists>out. ApplyOnce old (ei_OldString e) (ei_NewString e) (ei_ReplaceAll e) = Inr (out, ea_Matches v) \<and>
      absFs (h_fs h') (pathComps p) = Some (VFile out)))"
proof (rule front_atomic [OF assms(1) [unfolded EditTool_def] assms(2,3,5)])
  fix h1 h2
  assume run: "run_state (bindE (editFlow c p (applyEdit p e)) (\<lambda>matches.
      ok \<lparr>ea_Matches = matches, ea_Warning = RenderWarn ''new_string'' (Check (ei_NewString e))\<rparr>)) h1 = (r, h2)"
    and pre: "sole (c_dirs c) h1" "tidy (pathComps p) (h_fs h1)" "absFs (h_fs h1) = absFs (h_fs h)"
  from run obtain r0 where r0: "run_state (editFlow c p (applyEdit p e)) h1 = (r0, h2)" "isl r0 \<Longrightarrow> isl r"
    "\<And>n. r0 = Inr n \<Longrightarrow> r = Inr \<lparr>ea_Matches = n, ea_Warning = RenderWarn ''new_string'' (Check (ei_NewString e))\<rparr>"
    by (auto simp: run_bindE split: prod.splits sum.splits)
  from editFlow_atomic [OF assms(4) r0(1) pre(1,2), of old] pre(3) assms(6) r0(2,3)
  show "sole (c_dirs c) h2 \<and> published (pathComps p)
      (editOutcomes (\<lambda>old. ApplyOnce old (ei_OldString e) (ei_NewString e) (ei_ReplaceAll e)) old) (h_fs h1) (h_fs h2) \<and>
    (\<forall>v. r = Inr v \<longrightarrow> (\<exists>out. ApplyOnce old (ei_OldString e) (ei_NewString e) (ei_ReplaceAll e) = Inr (out, ea_Matches v) \<and>
      absFs (h_fs h2) (pathComps p) = Some (VFile out)))"
    by (cases r0) (auto simp: edit_outcomes)
qed auto

text \<open>The demonstration machine meets the conditions.\<close>

lemma demo_placed:
  "pathComps ''/d/f'' = [''d'', ''f'']" "placed (c_dirs (demoConn t)) ''/d/f''"
  "absFs (h_fs demoRead) [''d'', ''f''] = Some (VFile ''abc'')"
  by code_simp+

lemma demo_nodes: "nodeAt (h_fs demoRead) p = Some n \<longleftrightarrow>
    (p, n) \<in> {([], NDir 0), ([''d''], NDir 1), ([''d'', ''f''], NFile 2), ([''l''], NLink ''/d'')}"
  by (auto simp: nodeAt_def demoRead_def demoHost_def)

lemma demo_sole: "sole (c_dirs (demoConn t)) demoRead" "tidy [''d'', ''f''] (h_fs demoRead)"
proof -
  have p: "pathComps ''/d'' = [''d'']" "canonPath ''/d''" by code_simp+
  have "dirsAbove (h_fs demoRead) [''d'', ''f'']"
    by (auto simp: dirsAbove_def demo_nodes okComp_def dot_def dotdot_def slash_def less_Suc_eq)
  moreover from this have "realDir (h_fs demoRead) [''d'']"
    by (auto simp: realDir_def dirsAbove_def demo_nodes less_Suc_eq)
  moreover have "wfFs (h_fs demoRead)"
    by (auto simp: wfFs_def demo_nodes) (simp add: demoRead_def demoHost_def)
  moreover have "c_dirs (demoConn t) = [''/d'']" "h_sched demoRead = []" "h_roots demoRead = []"
    by (simp_all add: c_dirs_def AllowedDirs_def demoConn_def demoGuard_def demoRead_def demoHost_def emptyHost_def)
  moreover have "\<not> tempIn [''d''] [''d'', ''f'']" by (simp add: tempIn_def tempPrefix_def)
  ultimately show "sole (c_dirs (demoConn t)) demoRead" "tidy [''d'', ''f''] (h_fs demoRead)"
    by (simp_all add: sole_def tidy_def p)
qed

lemma edit_atomic_witness:
  "\<exists>h'. run_state (EditTool (demoConn ''t'') ''/l/f'' demoEdit) demoRead = (Inr \<lparr>ea_Matches = 1, ea_Warning = []\<rparr>, h') \<and>
    absFs (h_fs h') [''d'', ''f''] = Some (VFile ''axyc'')"
proof -
  obtain r h' where run: "run_state (EditTool (demoConn ''t'') ''/l/f'' demoEdit) demoRead = (r, h')" by fastforce
  obtain v h0 where val: "run_state (c_validate (demoConn ''t'') ''/l/f'') demoRead = (v, h0)" by fastforce
  have "fst (run_state (c_validate (demoConn ''t'') ''/l/f'') demoRead) = Inr ''/d/f''"
    "fst (run_state (EditTool (demoConn ''t'') ''/l/f'' demoEdit) demoRead) = Inr \<lparr>ea_Matches = 1, ea_Warning = []\<rparr>"
    by code_simp+
  with run val have e: "v = Inr ''/d/f''" "r = Inr \<lparr>ea_Matches = 1, ea_Warning = []\<rparr>" by auto
  from edit_atomic [OF run val [unfolded e(1)] demo_sole(1) demo_placed(2)] demo_sole(2) demo_placed(1,3) e(2)
  have "\<exists>out. ApplyOnce ''abc'' ''b'' ''xy'' False = Inr (out, 1) \<and> absFs (h_fs h') [''d'', ''f''] = Some (VFile out)"
    by (auto simp: demoEdit_def)
  moreover have "ApplyOnce ''abc'' ''b'' ''xy'' False = Inr (''axyc'', 1)" by code_simp
  ultimately show ?thesis using run e(2) by simp
qed

text \<open>C5. \<open>multi_edit\<close> refines the same operation with \<open>ApplyMany\<close>: all its edits show, or none.\<close>

theorem multi_edit_atomic:
  assumes "run_state (MultiEdit c path es) h = (r, h')" and "run_state (c_validate c path) h = (Inr p, h0)"
    and "sole (c_dirs c) h" and "placed (c_dirs c) p" and "tidy (pathComps p) (h_fs h)"
    and "absFs (h_fs h) (pathComps p) = Some (VFile old)"
  shows "published (pathComps p) (editOutcomes (applyEdits es) old) (h_fs h) (h_fs h') \<and>
    (\<forall>v. r = Inr v \<longrightarrow> (\<exists>out. ApplyMany old
        (map (\<lambda>e. \<lparr>Old = ei_OldString e, New = ei_NewString e, ReplaceAll = ei_ReplaceAll e\<rparr>) es) = Inr out \<and>
      ea_Matches v = length es \<and> absFs (h_fs h') (pathComps p) = Some (VFile out)))"
proof (cases "es = []")
  case True
  with assms(1,2) have "isl r" "h' = h0" by (auto simp: MultiEdit_def run_bindE)
  moreover have "sameFiles (h_fs h) (h_fs h0)"
    using state_io_relD [OF same.rel_Validate assms(2) [unfolded c_validate_def]] assms(3) by (simp add: under_def)
  ultimately show ?thesis by (auto simp: pub.F_same)
next
  case False
  with assms(1) have run: "run_state (bindE (c_validate c path) (\<lambda>p. withLocks c 0 ''edit'' p (
      bindE (editFlow c p (applyEdits es)) (\<lambda>_.
      ok \<lparr>ea_Matches = length es, ea_Warning = join (warnLoop 0 es) ''; ''\<rparr>)))) h = (r, h')"
    by (simp add: MultiEdit_def)
  show ?thesis
  proof (rule front_atomic [OF run assms(2,3,5)])
    fix h1 h2
    assume run: "run_state (bindE (editFlow c p (applyEdits es)) (\<lambda>_.
        ok \<lparr>ea_Matches = length es, ea_Warning = join (warnLoop 0 es) ''; ''\<rparr>)) h1 = (r, h2)"
      and pre: "sole (c_dirs c) h1" "tidy (pathComps p) (h_fs h1)" "absFs (h_fs h1) = absFs (h_fs h)"
    from run obtain r0 where r0: "run_state (editFlow c p (applyEdits es)) h1 = (r0, h2)" "isl r0 \<Longrightarrow> isl r"
      "\<And>n. r0 = Inr n \<Longrightarrow> r = Inr \<lparr>ea_Matches = length es, ea_Warning = join (warnLoop 0 es) ''; ''\<rparr>"
      by (auto simp: run_bindE split: prod.splits sum.splits)
    have ae: "applyEdits es old = Inr (out, u) \<Longrightarrow> ApplyMany old
        (map (\<lambda>e. \<lparr>Old = ei_OldString e, New = ei_NewString e, ReplaceAll = ei_ReplaceAll e\<rparr>) es) = Inr out" for out u
      by (auto simp: applyEdits_def map_sum_def split: sum.splits)
    from editFlow_atomic [OF assms(4) r0(1) pre(1,2), of old] pre(3) assms(6) r0(2,3) ae
    show "sole (c_dirs c) h2 \<and> published (pathComps p) (editOutcomes (applyEdits es) old) (h_fs h1) (h_fs h2) \<and>
      (\<forall>v. r = Inr v \<longrightarrow> (\<exists>out. ApplyMany old
          (map (\<lambda>e. \<lparr>Old = ei_OldString e, New = ei_NewString e, ReplaceAll = ei_ReplaceAll e\<rparr>) es) = Inr out \<and>
        ea_Matches v = length es \<and> absFs (h_fs h2) (pathComps p) = Some (VFile out)))"
      by (cases r0) auto
  qed auto
qed

lemma multi_edit_atomic_witness:
  "\<exists>h'. run_state (MultiEdit (demoConn ''t'') ''/l/f'' [demoEdit]) demoRead = (Inr \<lparr>ea_Matches = 1, ea_Warning = []\<rparr>, h') \<and>
    absFs (h_fs h') [''d'', ''f''] = Some (VFile ''axyc'')"
proof -
  obtain r h' where run: "run_state (MultiEdit (demoConn ''t'') ''/l/f'' [demoEdit]) demoRead = (r, h')" by fastforce
  obtain v h0 where val: "run_state (c_validate (demoConn ''t'') ''/l/f'') demoRead = (v, h0)" by fastforce
  have "fst (run_state (c_validate (demoConn ''t'') ''/l/f'') demoRead) = Inr ''/d/f''"
    "fst (run_state (MultiEdit (demoConn ''t'') ''/l/f'' [demoEdit]) demoRead) = Inr \<lparr>ea_Matches = 1, ea_Warning = []\<rparr>"
    by code_simp+
  with run val have e: "v = Inr ''/d/f''" "r = Inr \<lparr>ea_Matches = 1, ea_Warning = []\<rparr>" by auto
  from multi_edit_atomic [OF run val [unfolded e(1)] demo_sole(1) demo_placed(2)] demo_sole(2) demo_placed(1,3) e(2)
  have "\<exists>out. ApplyMany ''abc'' [\<lparr>Old = ''b'', New = ''xy'', ReplaceAll = False\<rparr>] = Inr out \<and>
      absFs (h_fs h') [''d'', ''f''] = Some (VFile out)"
    by (auto simp: demoEdit_def)
  moreover have "ApplyMany ''abc'' [\<lparr>Old = ''b'', New = ''xy'', ReplaceAll = False\<rparr>] = Inr ''axyc''" by code_simp
  ultimately show ?thesis using run e(2) by simp
qed

end
