(* ===== verification/WriteAtomic.thy ===== *)
theory WriteAtomic
  imports AtomicTools
begin

text \<open>
  The refinement statement for \<open>write\<close> (\<open>write.go\<close>): overwriting is all or nothing, and a new file is left
  absent, empty (its claim) or complete. The invariant of the proof bounds the entry of the file by the
  set of the outcomes.
\<close>

definition writeOutcomes :: "bytes \<Rightarrow> entry option \<Rightarrow> entry option set" where
  "writeOutcomes content e = insert (Some (VFile content)) (if e = None then {None, Some (VFile [])} else {})"

definition tidyIn :: "bytes list \<Rightarrow> entry option set \<Rightarrow> fsys \<Rightarrow> bool" where
  "tidyIn cs X fs \<longleftrightarrow> tidy cs fs \<and> absFs fs cs \<in> X"

interpretation wr: fs_rel "tidyIn cs X" "published cs A" for cs X A
proof unfold_locales
  show "tidyIn cs X fs'" if "sameFiles fs fs'" "tidyIn cs X fs" for fs fs'
    using that by (simp add: tidyIn_def pub.I_same sameFiles_simps)
qed (fact pub.F_refl pub.F_trans pub.F_same)+

lemma published_mono: "published cs A fs fs' \<Longrightarrow> A \<subseteq> B \<Longrightarrow> published cs B fs fs'"
  by (auto simp: published_def)

lemma under_tidyIn:
  assumes "state_io_rel (under (tidy cs) (published cs A) ds) m" and "A \<subseteq> B"
  shows "state_io_rel (under (tidyIn cs (insert e B)) (published cs B) ds) m"
proof (rule state_io_relI)
  fix a h h' assume "run_state m h = (a, h')"
  with assms(1) have "under (tidy cs) (published cs A) ds h h'" by (rule state_io_relD)
  with published_mono [OF _ assms(2)] assms(2) show "under (tidyIn cs (insert e B)) (published cs B) ds h h'"
    by (fastforce simp: under_def tidyIn_def published_def)
qed

text \<open>A change of the file itself.\<close>

lemma pubFrom_here:
  assumes "pubFrom cs A fs0 fs" and "wfFs fs'" and "absFs fs' = (absFs fs)(cs := e)"
    and "absFs fs cs \<noteq> Some VDir" and "e \<in> A"
  shows "pubFrom cs A fs0 fs'"
proof -
  have d: "absFs fs q = Some VDir \<Longrightarrow> absFs fs' q = Some VDir" for q using assms(3,4) by auto
  have "published cs A fs fs'" unfolding published_def using d assms(5) by (auto simp: assms(3))
  with assms(1) have "published cs A fs0 fs'" using pub.F_trans by (auto simp: pubFrom_def)
  moreover have "tidy cs fs'" using assms(1,2) d by (auto simp: pubFrom_def intro: tidy_keepDirs)
  ultimately show ?thesis by (simp add: pubFrom_def)
qed

definition pubIn :: "bytes list \<Rightarrow> entry option set \<Rightarrow> entry option set \<Rightarrow> fsys \<Rightarrow> fsys \<Rightarrow> bool" where
  "pubIn cs X A fs0 fs \<longleftrightarrow> pubFrom cs A fs0 fs \<and> absFs fs cs \<in> X"

lemma pubIn_clockFree: "clockFree (pubIn cs X A fs0)"
  using pubFrom_clockFree(1) [of cs A fs0] by (auto simp: clockFree_def pubIn_def sameFiles_simps)

lemma triple_relIn:
  assumes "\<And>fs0. triple ds (pubIn cs X A fs0) m (\<lambda>_. pubIn cs X A fs0)"
  shows "state_io_rel (under (tidyIn cs X) (published cs A) ds) m"
proof (rule state_io_relI)
  fix a h h' assume run: "run_state m h = (a, h')"
  show "under (tidyIn cs X) (published cs A) ds h h'"
    unfolding under_def
  proof
    assume pre: "sole ds h \<and> tidyIn cs X (h_fs h)"
    then have "pubIn cs X A (h_fs h) (h_fs h)" by (simp add: pubIn_def pubFrom_def tidyIn_def pub.F_refl)
    from tripleD [OF assms run _ this] pre
    show "sole ds h' \<and> tidyIn cs X (h_fs h') \<and> published cs A (h_fs h) (h_fs h')"
      by (simp add: pubIn_def pubFrom_def tidyIn_def)
  qed
qed

section \<open>The claim and its removal\<close>

lemma triple_claimOnce:
  assumes "placed ds p" and "None \<in> X \<Longrightarrow> Some (VFile []) \<in> A" and "A \<subseteq> X"
  shows "triple ds (pubIn (pathComps p) X A fs0) (claimOnce q mode (rootOf ds p) (relOf ds p))
    (\<lambda>r fs. pubIn (pathComps p) X A fs0 fs \<and> (\<not> isl r \<longrightarrow> None \<in> X))"
  unfolding claimOnce_def
proof (rule triple_bind)
  let ?P = "pubIn (pathComps p) X A fs0"
  let ?Q = "\<lambda>(r :: (goerr, handle) result) fs. ?P fs \<and> (\<not> isl r \<longrightarrow> None \<in> X)"
  show "triple ds ?P (rCreateExcl (rootOf ds p) (relOf ds p) mode) ?Q"
    unfolding rCreateExcl_def
  proof (rule triple_mutating')
    fix fs r fs' fx
    assume P: "?P fs" and o: "atRoot (rootOf ds p) False (relOf ds p) (opCreateExcl mode) fs = (r, fs', fx)"
    then have f: "pubFrom (pathComps p) A fs0 fs" "absFs fs (pathComps p) \<in> X" by (auto simp: pubIn_def)
    from o have c: "opCreateExcl mode (pathComps p) fs = (r, fs', fx)"
      by (simp add: atRoot_def placed_rootPath [OF assms(1) pubFrom_dirs(1) [OF f(1)]])
    show "(\<forall>q. absFs fs q = Some VDir \<longrightarrow> absFs fs' q = Some VDir) \<and> (\<forall>e. ?Q (Inl e) fs') \<and>
        (\<forall>v. r = Inr v \<and> lim = None \<longrightarrow> ?Q (Inr v) fs')" for lim :: "nat option"
    proof (cases r)
      case (Inl e)
      with c have "fs' = fs" by (auto simp: opCreateExcl_def failOp_def split: option.splits)
      with P Inl show ?thesis by simp
    next
      case (Inr g)
      note a = opCreateExcl_abs [OF c [unfolded Inr] pubFrom_dirs(2) [OF f(1)]]
      with f(2) have n: "None \<in> X" by simp
      with assms(2) a have "pubFrom (pathComps p) A fs0 fs'" by (intro pubFrom_here [OF f(1)]) auto
      with a n assms(2,3) show ?thesis by (auto simp: pubIn_def)
    qed
  qed (use pubIn_clockFree in auto)
  show "triple ds (?Q r) (case r of Inl e \<Rightarrow>
         if isExist e then err (EStaleReadNeverRead q) else if isNotExist e then err (EParentMissing (Dir q)) else err e
       | Inr g \<Rightarrow> fClose g) (\<lambda>r fs. ?P fs \<and> (\<not> isl r \<longrightarrow> None \<in> X))" for r :: "(goerr, handle) result"
  proof (cases r)
    case (Inr g)
    have "triple ds (\<lambda>fs. None \<in> X \<and> ?P fs) (fClose g) (\<lambda>r fs. ?P fs \<and> (\<not> isl r \<longrightarrow> None \<in> X))"
      by (rule triple_pure, rule triple_conseq [OF triple_sync(2) [OF pubIn_clockFree]]) auto
    with Inr show ?thesis by (auto intro: triple_conseq)
  qed (auto simp: tripleOn_def err_def)
qed

lemma triple_removeTarget:
  assumes "placed ds p" and "None \<in> A" and "A \<subseteq> X" and "Some VDir \<notin> X"
  shows "triple ds (pubIn (pathComps p) X A fs0) (rRemove (rootOf ds p) (relOf ds p)) (\<lambda>_. pubIn (pathComps p) X A fs0)"
  unfolding rRemove_def
proof (rule triple_mutating')
  let ?P = "pubIn (pathComps p) X A fs0"
  fix fs r fs' fx
  assume P: "?P fs" and o: "atRoot (rootOf ds p) False (relOf ds p) opRemove fs = (r, fs', fx)"
  then have f: "pubFrom (pathComps p) A fs0 fs" "absFs fs (pathComps p) \<in> X" by (auto simp: pubIn_def)
  with assms(4) have nd: "absFs fs (pathComps p) \<noteq> Some VDir" by auto
  from o have "opRemove (pathComps p) fs = (r, fs', fx)"
    by (simp add: atRoot_def placed_rootPath [OF assms(1) pubFrom_dirs(1) [OF f(1)]])
  from opRemove_abs [OF this] have "?P fs' \<and> (\<forall>q. absFs fs q = Some VDir \<longrightarrow> absFs fs' q = Some VDir)"
  proof
    assume "pathComps p \<noteq> [] \<and> fs' = delNode (pathComps p) fs"
    then have "absFs fs' = (absFs fs)(pathComps p := None)" "wfFs fs'"
      using pubFrom_dirs(2) [OF f(1)] by (simp_all add: absFs_delNode wfFs_delNode)
    with pubFrom_here [OF f(1) this(2,1) nd assms(2)] nd assms(2,3) show ?thesis by (auto simp: pubIn_def)
  qed (use P in simp)
  then show "(\<forall>q. absFs fs q = Some VDir \<longrightarrow> absFs fs' q = Some VDir) \<and> (\<forall>e. ?P fs') \<and>
      (\<forall>v. r = Inr v \<and> lim = None \<longrightarrow> ?P fs')" for lim :: "nat option" by simp
qed (use pubIn_clockFree in auto)

section \<open>The handler\<close>

lemma rel_claim:
  assumes "placed ds p" and "None \<in> X \<Longrightarrow> Some (VFile []) \<in> A" and "A \<subseteq> X"
  shows "state_io_rel (under (tidyIn (pathComps p) X) (published (pathComps p) A) ds) (WithRoot ds p (claimOnce q m))"
  by (rule wr.under_WithRoot, rule triple_relIn, rule triple_conseq [OF triple_claimOnce [OF assms]]) auto

lemma rel_unclaim:
  assumes "placed ds p" and "None \<in> A" and "A \<subseteq> X" and "Some VDir \<notin> X"
  shows "state_io_rel (under (tidyIn (pathComps p) X) (published (pathComps p) A) ds) (WithRoot ds p rRemove)"
  by (rule wr.under_WithRoot, rule triple_relIn, rule triple_removeTarget [OF assms])

text \<open>Only a missing file is ever claimed.\<close>

lemma claimed_absent:
  assumes "placed ds p" and "None \<in> X \<Longrightarrow> Some (VFile []) \<in> A" and "A \<subseteq> X"
    and "run_state (WithRoot ds p (claimOnce q m)) h = (Inr v, h')" and "sole ds h" and "tidyIn (pathComps p) X (h_fs h)"
  shows "None \<in> X"
  using assms(4,5)
proof (cases rule: WithRoot_sole)
  case (ran h1 h2)
  from wr.I_same [OF ran(2) assms(6)] have "pubIn (pathComps p) X A (h_fs h1) (h_fs h1)"
    by (simp add: pubIn_def pubFrom_def tidyIn_def pub.F_refl)
  from tripleD [OF triple_claimOnce [OF assms(1-3)] ran(4) ran(1) this] show ?thesis by simp
qed simp

lemma writeGate_claimed:
  assumes "placed (c_dirs c) p" and "None \<in> X \<Longrightarrow> Some (VFile []) \<in> A" and "A \<subseteq> X"
    and "run_state (writeGate c p) h = (Inr (True, m), h')" and "sole (c_dirs c) h" and "tidyIn (pathComps p) X (h_fs h)"
  shows "None \<in> X"
proof -
  let ?R = "under (tidyIn (pathComps p) X) (published (pathComps p) A) (c_dirs c)"
  from assms(4) obtain t h1 u h2 where
    1: "run_state (mapErr (mapFSErr p) (retryPlain (WithRoot (c_dirs c) p (statTarget p)))) h = (Inr t, h1)" and
    2: "run_state (retryPlain (WithRoot (c_dirs c) p (claimOnce p 420))) h1 = (Inr u, h2)"
    by (auto simp: writeGate_def run_bindE run_mapErr sessCompare_def
        split: prod.splits sum.splits option.splits Status.splits if_splits)
  have "state_io_rel ?R (mapErr (mapFSErr p) (retryPlain (WithRoot (c_dirs c) p (statTarget p))))"
    by (intro wr.rel_mapErr wr.body_retry wr.body_statTarget)
  from under_run [OF this 1 assms(5,6)] have s1: "sole (c_dirs c) h1" "tidyIn (pathComps p) X (h_fs h1)" by auto
  from wr.retry_Inr(1) [OF rel_claim [OF assms(1-3)] 2] obtain h3 h4 where
    R: "?R h1 h3" "run_state (WithRoot (c_dirs c) p (claimOnce p 420)) h3 = (Inr u, h4)" by blast
  from underD [OF R(1) s1] claimed_absent [OF assms(1-3) R(2)] show ?thesis by auto
qed

text \<open>The outcomes of the locked part.\<close>

lemma writeLocked_atomic:
  assumes "placed (c_dirs c) p" and "run_state (writeLocked c p content) h = (r, h')"
    and "sole (c_dirs c) h" and "tidy (pathComps p) (h_fs h)" and "absFs (h_fs h) (pathComps p) \<noteq> Some VDir"
  defines "A \<equiv> writeOutcomes content (absFs (h_fs h) (pathComps p))"
  shows "sole (c_dirs c) h' \<and> published (pathComps p) A (h_fs h) (h_fs h') \<and>
    (\<forall>v. r = Inr v \<longrightarrow> absFs (h_fs h') (pathComps p) = Some (VFile content) \<and> wa_BytesWritten v = int (length content))"
proof -
  let ?cs = "pathComps p" and ?ds = "c_dirs c"
  let ?X = "insert (absFs (h_fs h) ?cs) A" and ?e = "absFs (h_fs h) ?cs"
  let ?R = "under (tidyIn ?cs ?X) (published ?cs A) ?ds"
  have X: "None \<in> ?X \<Longrightarrow> ?e = None" "Some VDir \<notin> ?X" "A \<subseteq> ?X" "None \<in> ?X \<Longrightarrow> Some (VFile []) \<in> A"
    "None \<in> ?X \<Longrightarrow> None \<in> A"
    using assms(5) by (auto simp: A_def writeOutcomes_def split: if_splits)
  have I0: "tidyIn ?cs ?X (h_fs h)" using assms(4) by (simp add: tidyIn_def)
  note claim = rel_claim [OF assms(1) X(4,3)]
  obtain g h1 where g: "run_state (writeGate c p) h = (g, h1)" by fastforce
  from under_run [OF wr.rel_writeGate [OF HOL.refl claim] g assms(3) I0]
  have u1: "sole ?ds h1" "tidyIn ?cs ?X (h_fs h1)" "published ?cs A (h_fs h) (h_fs h1)" by auto
  show ?thesis
  proof (cases g)
    case (Inl e)
    with assms(2) g u1 show ?thesis by (auto simp: writeLocked_def run_bindE)
  next
    case (Inr cm)
    obtain claimed m where cm: "cm = (claimed, m)" by fastforce
    obtain w h2 where w: "run_state (atomicWrite c p content m) h1 = (w, h2)" by fastforce
    have "state_io_rel (under (tidy ?cs) (published ?cs {Some (VFile content)}) ?ds) (atomicWrite c p content m)"
      by (rule pub_atomicWrite [OF assms(1)]) simp
    then have "state_io_rel ?R (atomicWrite c p content m)"
      by (rule under_tidyIn) (simp add: A_def writeOutcomes_def)
    from under_run [OF this w u1(1,2)] u1(3) pub.F_trans
    have u2: "sole ?ds h2" "tidyIn ?cs ?X (h_fs h2)" "published ?cs A (h_fs h) (h_fs h2)" by blast+
    show ?thesis
    proof (cases w)
      case (Inl e)
      have rel: "state_io_rel ?R (if claimed then ignore (retryPlain (WithRoot ?ds p rRemove)) else ret ())"
      proof (cases claimed)
        case True
        with writeGate_claimed [OF assms(1) X(4,3) _ assms(3) I0] g Inr cm have "None \<in> ?X" by simp
        from rel_unclaim [OF assms(1) X(5) [OF this] X(3,2)] show ?thesis
          by (simp add: True wr.body_ignore wr.body_retry(1))
      qed (simp add: wr.rel_ret)
      from assms(2) g \<open>g = Inr cm\<close> cm w Inl
      have run: "run_state (if claimed then ignore (retryPlain (WithRoot ?ds p rRemove)) else ret ()) h2 = ((), h')" "isl r"
        by (auto simp: writeLocked_def run_bindE simp del: if_split split: prod.splits)
      from under_run [OF rel run(1) u2(1,2)] run(2) u2(3) pub.F_trans show ?thesis by (cases r) auto
    next
      case (Inr v)
      from assms(2) g \<open>g = Inr cm\<close> cm w Inr obtain n where
        k: "run_state (markKnown c p (int (length content))) h2 = (n, h')"
          "r = Inr \<lparr>wa_BytesWritten = int (length content), wa_Warning = RenderWarn ''content'' (Check content)\<rparr>"
        by (auto simp: writeLocked_def run_bindE split: prod.splits)
      from u1(2) have "absFs (h_fs h2) ?cs = Some (VFile content)"
        by (intro atomicWrite_Inr [OF assms(1) w [unfolded Inr] u1(1)]) (simp add: tidyIn_def)
      moreover have "state_io_rel (under (\<lambda>_. True) sameFiles ?ds) (markKnown c p (int (length content)))"
        by (intro same.rel_markKnown [OF HOL.refl] same.under_state)
      from same_step [OF this k(1) u2(1)] have "sole ?ds h'" "sameFiles (h_fs h2) (h_fs h')" by auto
      ultimately show ?thesis using u2(3) k(2) pub.F_same pub.F_trans by (auto simp: sameFiles_simps)
    qed
  qed
qed

text \<open>C4. \<open>write\<close> refines the abstract operation that sets one file's content, whatever faults and expiries the
  schedule holds: when no other process writes, every path but the file and the temporary names beside it
  keeps its entry; an existing file is left with its whole old or its whole new content; a new one is left
  absent, empty or whole; and a success leaves the new content.\<close>

theorem write_atomic:
  assumes "run_state (Write c path content) h = (r, h')" and "run_state (c_validate c path) h = (Inr p, h0)"
    and "sole (c_dirs c) h" and "placed (c_dirs c) p" and "tidy (pathComps p) (h_fs h)"
    and "absFs (h_fs h) (pathComps p) \<noteq> Some VDir"
  shows "published (pathComps p) (writeOutcomes content (absFs (h_fs h) (pathComps p))) (h_fs h) (h_fs h') \<and>
    (\<forall>v. r = Inr v \<longrightarrow> absFs (h_fs h') (pathComps p) = Some (VFile content) \<and> wa_BytesWritten v = int (length content))"
proof (rule front_atomic [OF assms(1) [unfolded Write_def] assms(2,3,5)])
  fix h1 h2
  assume "run_state (writeLocked c p content) h1 = (r, h2)" "sole (c_dirs c) h1" "tidy (pathComps p) (h_fs h1)"
    "absFs (h_fs h1) = absFs (h_fs h)"
  with writeLocked_atomic [OF assms(4), of content h1 r h2] assms(6)
  show "sole (c_dirs c) h2 \<and> published (pathComps p) (writeOutcomes content (absFs (h_fs h) (pathComps p))) (h_fs h1) (h_fs h2) \<and>
    (\<forall>v. r = Inr v \<longrightarrow> absFs (h_fs h2) (pathComps p) = Some (VFile content) \<and> wa_BytesWritten v = int (length content))"
    by simp
qed auto

lemma write_atomic_witness:
  "\<exists>h'. run_state (Write (demoConn ''t'') ''/l/f'' ''xyz'') demoRead = (Inr \<lparr>wa_BytesWritten = 3, wa_Warning = []\<rparr>, h') \<and>
    absFs (h_fs h') [''d'', ''f''] = Some (VFile ''xyz'')"
proof -
  obtain r h' where run: "run_state (Write (demoConn ''t'') ''/l/f'' ''xyz'') demoRead = (r, h')" by fastforce
  obtain v h0 where val: "run_state (c_validate (demoConn ''t'') ''/l/f'') demoRead = (v, h0)" by fastforce
  have "fst (run_state (c_validate (demoConn ''t'') ''/l/f'') demoRead) = Inr ''/d/f''"
    "fst (run_state (Write (demoConn ''t'') ''/l/f'' ''xyz'') demoRead) = Inr \<lparr>wa_BytesWritten = 3, wa_Warning = []\<rparr>"
    by code_simp+
  with run val have e: "v = Inr ''/d/f''" "r = Inr \<lparr>wa_BytesWritten = 3, wa_Warning = []\<rparr>" by auto
  from write_atomic [OF run val [unfolded e(1)] demo_sole(1) demo_placed(2)] demo_sole(2) demo_placed(1,3) e(2) run
  show ?thesis by auto
qed

end
