(* ===== verification/PathLocks.thy ===== *)
theory PathLocks
  imports HostIO
begin

text \<open>
  The lock tables of \<open>session.go\<close> under real concurrency: any number of goroutines run the locking section
  of a handler (\<open>LockContext\<close> on the process-wide table, \<open>LockFile\<close> on the table of the session, the body,
  then both releases in reverse order), and a step is one atomic action of one of them: a lookup in the map
  under \<open>mu\<close>, a send or a receive on a channel of capacity 1, or leaving a select because the context has
  ended. Which goroutine moves next, and which ready branch a select takes, is not determined. The lemmas
  show what lets \<open>ToolsCore\<close> treat the body of a handler as alone on its path.
\<close>

section \<open>One table\<close>

text \<open>A path's channel holds no token (free) or one (taken); it is created free and never removed.\<close>

record PathLocks =
  locks :: "bytes \<rightharpoonup> nat"

definition newLocks :: PathLocks where
  "newLocks = \<lparr>locks = Map.empty\<rparr>"

definition channel :: "bytes \<Rightarrow> PathLocks \<Rightarrow> PathLocks" where
  "channel path t =
     (case locks t path of
        Some _ \<Rightarrow> t
      | None \<Rightarrow> t\<lparr>locks := (locks t)(path \<mapsto> 0)\<rparr>)"

text \<open>\<open>None\<close> is an operation that is not ready: the buffer is full, or empty.\<close>

definition chanSend :: "bytes \<Rightarrow> PathLocks \<Rightarrow> PathLocks option" where
  "chanSend path t =
     (case locks t path of
        Some n \<Rightarrow> if n < 1 then Some (t\<lparr>locks := (locks t)(path \<mapsto> n + 1)\<rparr>) else None
      | None \<Rightarrow> None)"

definition chanRecv :: "bytes \<Rightarrow> PathLocks \<Rightarrow> PathLocks option" where
  "chanRecv path t =
     (case locks t path of
        Some (Suc n) \<Rightarrow> Some (t\<lparr>locks := (locks t)(path \<mapsto> n)\<rparr>)
      | _ \<Rightarrow> None)"

section \<open>The goroutines\<close>

text \<open>What a handler locks: its session's token and the resolved path.\<close>

record lockCall =
  lc_token :: bytes
  lc_path :: bytes

text \<open>Where a goroutine is: outside, before \<open>channel\<close>, in the select, in the body, between the releases.\<close>

datatype pc = Out | AtChannel lockTable lockCall | InSelect lockTable lockCall | Body lockCall | Leaving lockCall

record lockSys =
  ls_tbl :: "lockTable \<Rightarrow> PathLocks"
  ls_pc :: "nat \<Rightarrow> pc"
  ls_ended :: "nat \<Rightarrow> bool"

definition initSys :: lockSys where
  "initSys = \<lparr>ls_tbl = (\<lambda>_. newLocks), ls_pc = (\<lambda>_. Out), ls_ended = (\<lambda>_. False)\<rparr>"

text \<open>What comes after an acquired lock: \<open>LockFile\<close> after the process lock, the body after \<open>LockFile\<close>.\<close>

fun acquired :: "lockTable \<Rightarrow> lockCall \<Rightarrow> pc" where
  "acquired PLocks c = AtChannel (SessLocks (lc_token c)) c"
| "acquired (SessLocks _) c = Body c"

definition setTbl :: "lockTable \<Rightarrow> PathLocks \<Rightarrow> lockSys \<Rightarrow> lockSys" where
  "setTbl t l s = s\<lparr>ls_tbl := (ls_tbl s)(t := l)\<rparr>"

definition goto :: "nat \<Rightarrow> pc \<Rightarrow> lockSys \<Rightarrow> lockSys" where
  "goto g p s = s\<lparr>ls_pc := (ls_pc s)(g := p)\<rparr>"

text \<open>A step inside the locking section. Only \<open>LockContext\<close> on the process-wide table has a context that
  can end; \<open>LockFile\<close> selects on the background context.\<close>

inductive lockStep :: "lockSys \<Rightarrow> lockSys \<Rightarrow> bool" where
  ls_channel: "ls_pc s g = AtChannel t c \<Longrightarrow>
    lockStep s (goto g (InSelect t c) (setTbl t (channel (lc_path c) (ls_tbl s t)) s))"
| ls_send: "ls_pc s g = InSelect t c \<Longrightarrow> chanSend (lc_path c) (ls_tbl s t) = Some l \<Longrightarrow>
    lockStep s (goto g (acquired t c) (setTbl t l s))"
| ls_cancel: "ls_pc s g = InSelect PLocks c \<Longrightarrow> ls_ended s g \<Longrightarrow> lockStep s (goto g Out s)"
| ls_unlock: "ls_pc s g = Body c \<Longrightarrow> chanRecv (lc_path c) (ls_tbl s (SessLocks (lc_token c))) = Some l \<Longrightarrow>
    lockStep s (goto g (Leaving c) (setTbl (SessLocks (lc_token c)) l s))"
| ls_release: "ls_pc s g = Leaving c \<Longrightarrow> chanRecv (lc_path c) (ls_tbl s PLocks) = Some l \<Longrightarrow>
    lockStep s (goto g Out (setTbl PLocks l s))"

text \<open>All steps: those, a new call, and a context that ends.\<close>

inductive sysStep :: "lockSys \<Rightarrow> lockSys \<Rightarrow> bool" where
  ss_lock: "lockStep s s' \<Longrightarrow> sysStep s s'"
| ss_call: "ls_pc s g = Out \<Longrightarrow>
    sysStep s (goto g (AtChannel PLocks c) (s\<lparr>ls_ended := (ls_ended s)(g := False)\<rparr>))"
| ss_end: "sysStep s (s\<lparr>ls_ended := (ls_ended s)(g := True)\<rparr>)"

inductive reachable :: "lockSys \<Rightarrow> bool" where
  reach_init: "reachable initSys"
| reach_step: "reachable s \<Longrightarrow> sysStep s s' \<Longrightarrow> reachable s'"

section \<open>Who holds what\<close>

fun holds :: "pc \<Rightarrow> lockTable \<Rightarrow> bytes \<Rightarrow> bool" where
  "holds (AtChannel (SessLocks _) c) t p \<longleftrightarrow> t = PLocks \<and> p = lc_path c"
| "holds (InSelect (SessLocks _) c) t p \<longleftrightarrow> t = PLocks \<and> p = lc_path c"
| "holds (Body c) t p \<longleftrightarrow> (t = PLocks \<or> t = SessLocks (lc_token c)) \<and> p = lc_path c"
| "holds (Leaving c) t p \<longleftrightarrow> t = PLocks \<and> p = lc_path c"
| "holds _ t p \<longleftrightarrow> False"

fun wfPc :: "pc \<Rightarrow> bool" where
  "wfPc (AtChannel (SessLocks tok) c) \<longleftrightarrow> tok = lc_token c"
| "wfPc (InSelect (SessLocks tok) c) \<longleftrightarrow> tok = lc_token c"
| "wfPc _ \<longleftrightarrow> True"

text \<open>The invariant: a channel's tokens are its holders, at most one of them.\<close>

definition lockInv :: "lockSys \<Rightarrow> bool" where
  "lockInv s \<longleftrightarrow>
     (\<forall>g. wfPc (ls_pc s g)) \<and>
     (\<forall>g t c. ls_pc s g = InSelect t c \<longrightarrow> locks (ls_tbl s t) (lc_path c) \<noteq> None) \<and>
     (\<forall>g t p. holds (ls_pc s g) t p \<longrightarrow> locks (ls_tbl s t) p = Some 1) \<and>
     (\<forall>g g' t p. holds (ls_pc s g) t p \<longrightarrow> holds (ls_pc s g') t p \<longrightarrow> g = g') \<and>
     (\<forall>t p n. locks (ls_tbl s t) p = Some n \<longrightarrow> n = 0 \<or> (\<exists>g. n = 1 \<and> holds (ls_pc s g) t p))"

inductive_cases sysStepE: "sysStep s s'"

lemmas goto_simps [simp] = goto_def setTbl_def

lemma chanSend_Some: "chanSend p t = Some l \<longleftrightarrow> locks t p = Some 0 \<and> l = t\<lparr>locks := (locks t)(p \<mapsto> 1)\<rparr>"
  by (auto simp: chanSend_def split: option.splits)

lemma chanRecv_Some: "chanRecv p t = Some l \<longleftrightarrow> (\<exists>n. locks t p = Some (Suc n) \<and> l = t\<lparr>locks := (locks t)(p \<mapsto> n)\<rparr>)"
  by (auto simp: chanRecv_def split: option.splits nat.splits)

lemma locks_channel: "locks (channel p t) q = (if p = q \<and> locks t q = None then Some 0 else locks t q)"
  by (auto simp: channel_def split: option.splits)

lemma holds_acquired: "holds (acquired t c) t' p \<longleftrightarrow>
    p = lc_path c \<and> (t' = PLocks \<or> (\<exists>k. t = SessLocks k) \<and> t' = SessLocks (lc_token c))"
  by (cases t) auto

lemma wfPc_acquired [simp]: "wfPc (acquired t c)"
  by (cases t) auto

lemma holds_InSelect: "holds (InSelect t c) t' p \<longleftrightarrow> t \<noteq> PLocks \<and> t' = PLocks \<and> p = lc_path c"
  by (cases t) auto

lemma holds_AtChannel: "holds (AtChannel t c) t' p \<longleftrightarrow> t \<noteq> PLocks \<and> t' = PLocks \<and> p = lc_path c"
  by (cases t) auto

lemma acquired_neq [simp]: "acquired t c \<noteq> InSelect t' c'" "acquired t c \<noteq> Out"
  by (cases t; simp)+

section \<open>The invariant holds\<close>

lemma lockInvD:
  assumes "lockInv s"
  shows "wfPc (ls_pc s g)"
    and "ls_pc s g = InSelect t c \<Longrightarrow> locks (ls_tbl s t) (lc_path c) \<noteq> None"
    and "holds (ls_pc s g) t p \<Longrightarrow> locks (ls_tbl s t) p = Some 1"
    and "holds (ls_pc s g) t p \<Longrightarrow> holds (ls_pc s g') t p \<Longrightarrow> g = g'"
    and "locks (ls_tbl s t) p = Some n \<Longrightarrow> n = 0 \<or> n = 1 \<and> (\<exists>g. holds (ls_pc s g) t p)"
  using assms by (auto simp: lockInv_def)

lemma lockInv_init: "lockInv initSys"
  by (simp add: lockInv_def initSys_def newLocks_def)

text \<open>A goroutine that moves without a change of what it or anyone holds.\<close>

lemma lockInv_move:
  assumes "lockInv s" and "\<And>t p. holds q t p \<longleftrightarrow> holds (ls_pc s g) t p" and "wfPc q"
    and "\<And>t c. q = InSelect t c \<Longrightarrow> locks (tbl t) (lc_path c) \<noteq> None"
    and "\<And>t p n. locks (ls_tbl s t) p = Some n \<Longrightarrow> locks (tbl t) p = Some n"
    and "\<And>t p n. locks (tbl t) p = Some n \<Longrightarrow> locks (ls_tbl s t) p = None \<and> n = 0 \<or> locks (ls_tbl s t) p = Some n"
  shows "lockInv (s\<lparr>ls_tbl := tbl, ls_pc := (ls_pc s)(g := q), ls_ended := e\<rparr>)" (is "lockInv ?s")
proof -
  have holds: "holds (ls_pc ?s g') t p \<longleftrightarrow> holds (ls_pc s g') t p" for g' t p
    using assms(2) by simp
  have tbl: "ls_tbl ?s = tbl" by simp
  show ?thesis
    unfolding lockInv_def holds tbl
  proof (intro conjI allI impI)
    show "wfPc (ls_pc ?s g')" for g'
      using assms(3) lockInvD(1) [OF assms(1)] by simp
    show "locks (tbl t) (lc_path c) \<noteq> None" if "ls_pc ?s g' = InSelect t c" for g' t c
      using that assms(4,5) lockInvD(2) [OF assms(1), of g' t c] by (auto split: if_splits)
    show "locks (tbl t) p = Some 1" if "holds (ls_pc s g') t p" for g' t p
      using lockInvD(3) [OF assms(1) that] assms(5) by blast
    show "g' = g''" if "holds (ls_pc s g') t p" "holds (ls_pc s g'') t p" for g' g'' t p
      using lockInvD(4) [OF assms(1) that] .
    show "n = 0 \<or> (\<exists>g. n = 1 \<and> holds (ls_pc s g) t p)" if "locks (tbl t) p = Some n" for t p n
      using lockInvD(5) [OF assms(1), of t p n] assms(6) [OF that] by auto
  qed
qed

text \<open>A goroutine that takes or gives back the lock \<open>(t, p)\<close>.\<close>

lemma lockInv_take:
  assumes "lockInv s" and "ls_pc s g = InSelect t c" and "locks (ls_tbl s t) (lc_path c) = Some 0"
  shows "lockInv (s\<lparr>ls_tbl := (ls_tbl s)(t := (ls_tbl s t)\<lparr>locks := (locks (ls_tbl s t))(lc_path c \<mapsto> 1)\<rparr>),
    ls_pc := (ls_pc s)(g := acquired t c)\<rparr>)" (is "lockInv ?s")
proof -
  let ?p = "lc_path c"
  have free: "\<not> holds (ls_pc s g') t ?p" for g'
    using lockInvD(3) [OF assms(1), of g' t ?p] assms(3) by auto
  have tok: "t = PLocks \<or> t = SessLocks (lc_token c)"
    using lockInvD(1) [OF assms(1), of g] assms(2) by (cases t) auto
  have holds: "holds (ls_pc ?s g') t' q \<longleftrightarrow> holds (ls_pc s g') t' q \<or> g' = g \<and> t' = t \<and> q = ?p" for g' t' q
    using assms(2) tok by (auto simp: holds_acquired holds_InSelect)
  have tbl: "locks (ls_tbl ?s t') q = (if t' = t \<and> q = ?p then Some 1 else locks (ls_tbl s t') q)" for t' q
    by simp
  show ?thesis
    unfolding lockInv_def holds tbl
  proof (intro conjI allI impI)
    show "wfPc (ls_pc ?s g')" for g' using lockInvD(1) [OF assms(1)] by simp
    show "(if t' = t \<and> lc_path c' = ?p then Some 1 else locks (ls_tbl s t') (lc_path c')) \<noteq> None"
      if "ls_pc ?s g' = InSelect t' c'" for g' t' c'
      using that lockInvD(2) [OF assms(1), of g' t' c'] by (auto split: if_splits)
    show "(if t' = t \<and> q = ?p then Some 1 else locks (ls_tbl s t') q) = Some 1"
      if "holds (ls_pc s g') t' q \<or> g' = g \<and> t' = t \<and> q = ?p" for g' t' q
      using that lockInvD(3) [OF assms(1)] by auto
    show "g' = g''" if "holds (ls_pc s g') t' q \<or> g' = g \<and> t' = t \<and> q = ?p"
      "holds (ls_pc s g'') t' q \<or> g'' = g \<and> t' = t \<and> q = ?p" for g' g'' t' q
      using that free lockInvD(4) [OF assms(1)] by blast
    show "n = 0 \<or> (\<exists>g'. n = 1 \<and> (holds (ls_pc s g') t' q \<or> g' = g \<and> t' = t \<and> q = ?p))"
      if "(if t' = t \<and> q = ?p then Some 1 else locks (ls_tbl s t') q) = Some n" for t' q n
      using that lockInvD(5) [OF assms(1), of t' q n] by (auto split: if_splits)
  qed
qed

lemma lockInv_give:
  assumes "lockInv s" and "holds (ls_pc s g) t p"
    and "\<And>t' q'. holds q t' q' \<longleftrightarrow> holds (ls_pc s g) t' q' \<and> \<not> (t' = t \<and> q' = p)" and "wfPc q"
    and "\<And>t c. q \<noteq> InSelect t c"
  shows "lockInv (s\<lparr>ls_tbl := (ls_tbl s)(t := (ls_tbl s t)\<lparr>locks := (locks (ls_tbl s t))(p \<mapsto> 0)\<rparr>),
    ls_pc := (ls_pc s)(g := q)\<rparr>)" (is "lockInv ?s")
proof -
  have holds: "holds (ls_pc ?s g') t' q' \<longleftrightarrow> holds (ls_pc s g') t' q' \<and> \<not> (t' = t \<and> q' = p)" for g' t' q'
  proof (cases "g' = g")
    case True
    then show ?thesis by (simp add: assms(3))
  next
    case False
    with lockInvD(4) [OF assms(1) _ assms(2), of g'] show ?thesis by auto
  qed
  have tbl: "locks (ls_tbl ?s t') q' = (if t' = t \<and> q' = p then Some 0 else locks (ls_tbl s t') q')" for t' q'
    by simp
  show ?thesis
    unfolding lockInv_def holds tbl
  proof (intro conjI allI impI)
    show "wfPc (ls_pc ?s g')" for g' using lockInvD(1) [OF assms(1)] assms(4) by simp
    show "(if t' = t \<and> lc_path c' = p then Some 0 else locks (ls_tbl s t') (lc_path c')) \<noteq> None"
      if "ls_pc ?s g' = InSelect t' c'" for g' t' c'
      using that assms(5) lockInvD(2) [OF assms(1), of g' t' c'] by (auto split: if_splits)
    show "(if t' = t \<and> q' = p then Some 0 else locks (ls_tbl s t') q') = Some 1"
      if "holds (ls_pc s g') t' q' \<and> \<not> (t' = t \<and> q' = p)" for g' t' q'
      using that lockInvD(3) [OF assms(1), of g' t' q'] by auto
    show "g' = g''" if "holds (ls_pc s g') t' q' \<and> \<not> (t' = t \<and> q' = p)"
      "holds (ls_pc s g'') t' q' \<and> \<not> (t' = t \<and> q' = p)" for g' g'' t' q'
      using that lockInvD(4) [OF assms(1)] by blast
    show "n = 0 \<or> (\<exists>g'. n = 1 \<and> holds (ls_pc s g') t' q' \<and> \<not> (t' = t \<and> q' = p))"
      if "(if t' = t \<and> q' = p then Some 0 else locks (ls_tbl s t') q') = Some n" for t' q' n
      using that lockInvD(5) [OF assms(1), of t' q' n] by (auto split: if_splits)
  qed
qed

lemma lockInv_lockStep:
  assumes "lockInv s" and "lockStep s s'"
  shows "lockInv s'"
  using assms(2)
proof cases
  case (ls_channel g t c)
  let ?tbl = "(ls_tbl s)(t := channel (lc_path c) (ls_tbl s t))"
  have tbl: "locks (?tbl t') p = (if t' = t \<and> p = lc_path c \<and> locks (ls_tbl s t) p = None then Some 0 else locks (ls_tbl s t') p)"
    for t' p by (auto simp: locks_channel)
  have "lockInv (s\<lparr>ls_tbl := ?tbl, ls_pc := (ls_pc s)(g := InSelect t c), ls_ended := ls_ended s\<rparr>)"
  proof (rule lockInv_move [OF assms(1)], unfold tbl)
    show "holds (InSelect t c) t' p \<longleftrightarrow> holds (ls_pc s g) t' p" for t' p
      by (simp add: ls_channel(2) holds_InSelect holds_AtChannel)
    show "wfPc (InSelect t c)" using lockInvD(1) [OF assms(1), of g] ls_channel(2) by (cases t) auto
  qed (auto split: if_splits)
  then show ?thesis using ls_channel(1) by simp
next
  case (ls_send g t c l)
  with lockInv_take [OF assms(1), of g t c] show ?thesis by (simp add: chanSend_Some)
next
  case (ls_cancel g c)
  then show ?thesis
    using lockInv_move [OF assms(1), of Out g "ls_tbl s" "ls_ended s"] by simp
next
  case (ls_unlock g c l)
  with lockInvD(3) [OF assms(1), of g "SessLocks (lc_token c)" "lc_path c"]
    lockInv_give [OF assms(1), of g "SessLocks (lc_token c)" "lc_path c" "Leaving c"]
  show ?thesis by (auto simp: chanRecv_Some)
next
  case (ls_release g c l)
  with lockInvD(3) [OF assms(1), of g PLocks "lc_path c"] lockInv_give [OF assms(1), of g PLocks "lc_path c" Out]
  show ?thesis by (auto simp: chanRecv_Some)
qed

lemma lockInv_sysStep: "lockInv s \<Longrightarrow> sysStep s s' \<Longrightarrow> lockInv s'"
proof (erule sysStepE)
  assume i: "lockInv s"
  show "lockInv s'" if "lockStep s s'" using lockInv_lockStep [OF i that] .
  show "lockInv s'" if "s' = goto g (AtChannel PLocks c) (s\<lparr>ls_ended := (ls_ended s)(g := False)\<rparr>)" "ls_pc s g = Out" for g c
  proof -
    have "lockInv (s\<lparr>ls_tbl := ls_tbl s, ls_pc := (ls_pc s)(g := AtChannel PLocks c), ls_ended := (ls_ended s)(g := False)\<rparr>)"
      by (rule lockInv_move [OF i]) (auto simp: that(2))
    also have "s\<lparr>ls_tbl := ls_tbl s, ls_pc := (ls_pc s)(g := AtChannel PLocks c), ls_ended := (ls_ended s)(g := False)\<rparr> = s'"
      by (cases s) (simp add: that(1))
    finally show ?thesis .
  qed
  show "lockInv s'" if "s' = s\<lparr>ls_ended := (ls_ended s)(g := True)\<rparr>" for g
    using that i by (simp add: lockInv_def)
qed

lemma reachable_lockInv: "reachable s \<Longrightarrow> lockInv s"
  by (induction rule: reachable.induct) (auto intro: lockInv_init lockInv_sysStep)

lemma lockInv_sess_free:
  assumes "lockInv s" and "ls_pc s g = InSelect (SessLocks k) c"
  shows "locks (ls_tbl s (SessLocks k)) (lc_path c) = Some 0"
proof -
  from lockInvD(2) [OF assms] obtain n where n: "locks (ls_tbl s (SessLocks k)) (lc_path c) = Some n" by blast
  have "\<not> holds (ls_pc s g') (SessLocks k) (lc_path c)" for g'
  proof
    assume h: "holds (ls_pc s g') (SessLocks k) (lc_path c)"
    then have "holds (ls_pc s g') PLocks (lc_path c)" by (cases "ls_pc s g'") (auto simp: holds_InSelect holds_AtChannel)
    moreover have "holds (ls_pc s g) PLocks (lc_path c)" using assms(2) by simp
    ultimately have "g' = g" by (rule lockInvD(4) [OF assms(1)])
    with h assms(2) show False by simp
  qed
  with lockInvD(5) [OF assms(1) n] n show ?thesis by auto
qed

section \<open>Mutual exclusion\<close>

text \<open>C16. Whatever the interleaving, no two calls are in their bodies for the same path, whether of one session
  or of two; a channel never holds more than its one token; \<open>LockFile\<close>, which has no deadline, never has
  to wait, because the process lock of the path is held around it; and no release ever blocks.\<close>

theorem path_locks_exclusive:
  assumes "reachable s"
  shows "(\<forall>g g' c c'. ls_pc s g = Body c \<and> ls_pc s g' = Body c' \<and> g \<noteq> g' \<longrightarrow> lc_path c \<noteq> lc_path c') \<and>
    (\<forall>t p n. locks (ls_tbl s t) p = Some n \<longrightarrow> n \<le> 1) \<and>
    (\<forall>g k c. ls_pc s g = InSelect (SessLocks k) c \<longrightarrow> chanSend (lc_path c) (ls_tbl s (SessLocks k)) \<noteq> None) \<and>
    (\<forall>g c. ls_pc s g = Body c \<longrightarrow> chanRecv (lc_path c) (ls_tbl s (SessLocks (lc_token c))) \<noteq> None) \<and>
    (\<forall>g c. ls_pc s g = Leaving c \<longrightarrow> chanRecv (lc_path c) (ls_tbl s PLocks) \<noteq> None)"
proof (intro conjI allI impI)
  note i = reachable_lockInv [OF assms]
  show "lc_path c \<noteq> lc_path c'" if "ls_pc s g = Body c \<and> ls_pc s g' = Body c' \<and> g \<noteq> g'" for g g' c c'
    using that lockInvD(4) [OF i, of g PLocks "lc_path c" g'] by auto
  show "n \<le> 1" if "locks (ls_tbl s t) p = Some n" for t p n
    using lockInvD(5) [OF i that] by auto
  show "chanSend (lc_path c) (ls_tbl s (SessLocks k)) \<noteq> None" if "ls_pc s g = InSelect (SessLocks k) c" for g k c
    using lockInv_sess_free [OF i that] by (auto simp: chanSend_Some)
  show "chanRecv (lc_path c) (ls_tbl s (SessLocks (lc_token c))) \<noteq> None" if "ls_pc s g = Body c" for g c
    using lockInvD(3) [OF i, of g "SessLocks (lc_token c)" "lc_path c"] that by (auto simp: chanRecv_Some)
  show "chanRecv (lc_path c) (ls_tbl s PLocks) \<noteq> None" if "ls_pc s g = Leaving c" for g c
    using lockInvD(3) [OF i, of g PLocks "lc_path c"] that by (auto simp: chanRecv_Some)
qed

text \<open>Two calls for \<open>/d/f\<close>, one of each session: the first is in its body, the second waits.\<close>

definition demoCall :: "bytes \<Rightarrow> lockCall" where
  "demoCall token = \<lparr>lc_token = token, lc_path = ''/d/f''\<rparr>"

definition demoLocked :: "nat \<Rightarrow> PathLocks" where
  "demoLocked n = \<lparr>locks = [''/d/f'' \<mapsto> n]\<rparr>"

definition demoWaiting :: lockSys where
  "demoWaiting = initSys\<lparr>ls_tbl := (ls_tbl initSys)(PLocks := demoLocked 1, SessLocks ''s'' := demoLocked 1),
     ls_pc := (ls_pc initSys)(0 := Body (demoCall ''s''), 1 := InSelect PLocks (demoCall ''t''))\<rparr>"

lemma reachable_demoWaiting: "reachable demoWaiting"
proof -
  let ?a = "demoCall ''s''" and ?b = "demoCall ''t''"
  let ?tbl = "ls_tbl initSys" and ?pc = "ls_pc initSys"
  have step: "reachable s'" if "reachable s" "sysStep s t" "s' = t" for s s' t
    using that reach_step by blast
  have 1: "reachable (initSys\<lparr>ls_pc := ?pc(0 := AtChannel PLocks ?a)\<rparr>)"
    by (rule step [OF reach_init ss_call [of initSys 0 ?a]]) (simp_all add: initSys_def fun_eq_iff)
  have 2: "reachable (initSys\<lparr>ls_tbl := ?tbl(PLocks := demoLocked 0), ls_pc := ?pc(0 := InSelect PLocks ?a)\<rparr>)"
    by (rule step [OF 1 ss_lock [OF ls_channel [of _ 0 PLocks ?a]]])
      (simp_all add: initSys_def channel_def newLocks_def demoLocked_def demoCall_def)
  have 3: "reachable (initSys\<lparr>ls_tbl := ?tbl(PLocks := demoLocked 1),
      ls_pc := ?pc(0 := AtChannel (SessLocks ''s'') ?a)\<rparr>)"
    by (rule step [OF 2 ss_lock [OF ls_send [of _ 0 PLocks ?a "demoLocked 1"]]])
      (simp_all add: initSys_def chanSend_def demoLocked_def demoCall_def)
  have 4: "reachable (initSys\<lparr>ls_tbl := ?tbl(PLocks := demoLocked 1, SessLocks ''s'' := demoLocked 0),
      ls_pc := ?pc(0 := InSelect (SessLocks ''s'') ?a)\<rparr>)"
    by (rule step [OF 3 ss_lock [OF ls_channel [of _ 0 "SessLocks ''s''" ?a]]])
      (simp_all add: initSys_def channel_def newLocks_def demoLocked_def demoCall_def)
  have 5: "reachable (initSys\<lparr>ls_tbl := ?tbl(PLocks := demoLocked 1, SessLocks ''s'' := demoLocked 1),
      ls_pc := ?pc(0 := Body ?a)\<rparr>)"
    by (rule step [OF 4 ss_lock [OF ls_send [of _ 0 "SessLocks ''s''" ?a "demoLocked 1"]]])
      (simp_all add: initSys_def chanSend_def demoLocked_def demoCall_def)
  have 6: "reachable (initSys\<lparr>ls_tbl := ?tbl(PLocks := demoLocked 1, SessLocks ''s'' := demoLocked 1),
      ls_pc := ?pc(0 := Body ?a, 1 := AtChannel PLocks ?b)\<rparr>)"
    by (rule step [OF 5 ss_call [of _ 1 ?b]]) (simp_all add: initSys_def fun_eq_iff)
  show ?thesis
    by (rule step [OF 6 ss_lock [OF ls_channel [of _ 1 PLocks ?b]]])
      (simp_all add: demoWaiting_def initSys_def channel_def newLocks_def demoLocked_def demoCall_def fun_upd_twist)
qed

lemma path_locks_exclusive_witness:
  "reachable demoWaiting \<and> ls_pc demoWaiting 0 = Body (demoCall ''s'') \<and>
    ls_pc demoWaiting 1 \<noteq> Body (demoCall ''t'') \<and> chanRecv ''/d/f'' (ls_tbl demoWaiting (SessLocks ''s'')) \<noteq> None"
proof -
  have body: "ls_pc demoWaiting 0 = Body (demoCall ''s'')" by (simp add: demoWaiting_def)
  have path: "lc_path (demoCall k) = ''/d/f''" "lc_token (demoCall k) = k" for k by (simp_all add: demoCall_def)
  have ne: "(0 :: nat) \<noteq> 1" by simp
  note excl = path_locks_exclusive [OF reachable_demoWaiting]
  from excl [THEN conjunct1] body path(1) ne have "ls_pc demoWaiting 1 \<noteq> Body (demoCall ''t'')" by metis
  moreover from excl body path have "chanRecv ''/d/f'' (ls_tbl demoWaiting (SessLocks ''s'')) \<noteq> None" by metis
  ultimately show ?thesis using reachable_demoWaiting body by blast
qed

section \<open>Progress\<close>

text \<open>How far a goroutine is from the end of its call.\<close>

fun rank :: "pc \<Rightarrow> nat" where
  "rank Out = 0"
| "rank (Leaving c) = 1"
| "rank (Body c) = 2"
| "rank (InSelect (SessLocks k) c) = 3"
| "rank (AtChannel (SessLocks k) c) = 4"
| "rank (InSelect PLocks c) = 5"
| "rank (AtChannel PLocks c) = 6"

definition active :: "lockSys \<Rightarrow> nat set" where
  "active s = {g. ls_pc s g \<noteq> Out}"

definition workLeft :: "lockSys \<Rightarrow> nat" where
  "workLeft s = (\<Sum>g \<in> active s. rank (ls_pc s g))"

lemma workLeft_less:
  assumes "finite (active s)" and "ls_pc s g \<noteq> Out" and "rank q < rank (ls_pc s g)"
    and "ls_pc s' = (ls_pc s)(g := q)"
  shows "finite (active s') \<and> workLeft s' < workLeft s"
proof
  have sub: "active s' \<subseteq> active s" using assms(2,4) by (auto simp: active_def)
  with assms(1) show "finite (active s')" by (rule rev_finite_subset)
  have "workLeft s' = (\<Sum>g \<in> active s. rank (ls_pc s' g))"
    unfolding workLeft_def using sub assms(1) by (intro sum.mono_neutral_left) (auto simp: active_def)
  also have "\<dots> < (\<Sum>g \<in> active s. rank (ls_pc s g))"
    using assms by (intro sum_strict_mono_ex1) (auto simp: active_def intro: bexI [of _ g])
  finally show "workLeft s' < workLeft s" by (simp add: workLeft_def)
qed

lemma lockStep_less: "lockStep s s' \<Longrightarrow> finite (active s) \<Longrightarrow> finite (active s') \<and> workLeft s' < workLeft s"
proof (induction rule: lockStep.induct)
  case (ls_channel s g t c)
  then show ?case by (intro workLeft_less [of s g "InSelect t c"]) (cases t; simp)+
next
  case (ls_send s g t c l)
  then show ?case by (intro workLeft_less [of s g "acquired t c"]) (cases t; simp)+
next
  case (ls_cancel s g c)
  then show ?case by (intro workLeft_less [of s g Out]) simp_all
next
  case (ls_unlock s g c l)
  then show ?case by (intro workLeft_less [of s g "Leaving c"]) simp_all
next
  case (ls_release s g c l)
  then show ?case by (intro workLeft_less [of s g Out]) simp_all
qed

text \<open>Whoever is not waiting for the process lock can move, and the process lock is held by such a one.\<close>

lemma holder_moves:
  assumes "lockInv s" and "ls_pc s g \<noteq> Out" and "\<And>c. ls_pc s g \<noteq> InSelect PLocks c"
  shows "\<exists>s'. lockStep s s'"
proof (cases "ls_pc s g")
  case (InSelect t c)
  then obtain k where t: "t = SessLocks k" using assms(3) by (cases t) auto
  with InSelect lockInv_sess_free [OF assms(1), of g k c] show ?thesis
    by (blast intro: ls_send chanSend_Some [THEN iffD2])
next
  case (Body c)
  with lockInvD(3) [OF assms(1), of g "SessLocks (lc_token c)" "lc_path c"]
  have "\<exists>l. chanRecv (lc_path c) (ls_tbl s (SessLocks (lc_token c))) = Some l" by (simp add: chanRecv_Some)
  with Body show ?thesis by (blast intro: ls_unlock)
next
  case (Leaving c)
  with lockInvD(3) [OF assms(1), of g PLocks "lc_path c"]
  have "\<exists>l. chanRecv (lc_path c) (ls_tbl s PLocks) = Some l" by (simp add: chanRecv_Some)
  with Leaving show ?thesis by (blast intro: ls_release)
qed (use assms(2) ls_channel in blast)+

lemma lock_progress:
  assumes "lockInv s" and "ls_pc s g \<noteq> Out"
  shows "\<exists>s'. lockStep s s'"
proof (cases "\<exists>c. ls_pc s g = InSelect PLocks c")
  case True
  then obtain c where c: "ls_pc s g = InSelect PLocks c" by blast
  with lockInvD(2) [OF assms(1)] obtain n where n: "locks (ls_tbl s PLocks) (lc_path c) = Some n" by blast
  from lockInvD(5) [OF assms(1) this] show ?thesis
  proof
    assume "n = 0"
    with c n show ?thesis by (blast intro: ls_send chanSend_Some [THEN iffD2])
  next
    assume "n = 1 \<and> (\<exists>g. holds (ls_pc s g) PLocks (lc_path c))"
    then obtain g' where "holds (ls_pc s g') PLocks (lc_path c)" by blast
    then show ?thesis by (intro holder_moves [OF assms(1), of g']) (auto simp: holds_InSelect)
  qed
next
  case False
  with holder_moves [OF assms] show ?thesis by blast
qed

text \<open>C17. The locking sections never deadlock: from any reachable state with finitely many calls under way, steps
  of those calls alone cannot go on forever, and where none of them can move any more, every call has
  ended and every lock is free.\<close>

theorem path_locks_drain:
  assumes "reachable s" and "finite {g. ls_pc s g \<noteq> Out}"
  shows "\<not> (\<exists>f. f 0 = s \<and> (\<forall>n. lockStep (f n) (f (Suc n)))) \<and>
    (\<forall>s'. lockStep\<^sup>*\<^sup>* s s' \<and> \<not> (\<exists>s''. lockStep s' s'') \<longrightarrow>
      (\<forall>g. ls_pc s' g = Out) \<and> (\<forall>t p n. locks (ls_tbl s' t) p = Some n \<longrightarrow> n = 0))"
proof (intro conjI allI impI notI)
  assume "\<exists>f. f 0 = s \<and> (\<forall>n. lockStep (f n) (f (Suc n)))"
  then obtain f where f: "f 0 = s" "\<And>n. lockStep (f n) (f (Suc n))" by blast
  have "finite (active (f n))" for n
    by (induction n) (use f assms(2) lockStep_less in \<open>auto simp: active_def\<close>)
  with f(2) lockStep_less have "workLeft (f (Suc n)) < workLeft (f n)" for n by blast
  moreover have "\<exists>n. \<not> workLeft (f (Suc n)) < workLeft (f n)"
    using wf_less [unfolded wf_iff_no_infinite_down_chain] by (auto dest: spec [of _ "workLeft \<circ> f"])
  ultimately show False by blast
next
  fix s'
  assume s': "lockStep\<^sup>*\<^sup>* s s' \<and> \<not> (\<exists>s''. lockStep s' s'')"
  then have "lockStep\<^sup>*\<^sup>* s s'" by blast
  then have i: "lockInv s'"
    by (induction rule: rtranclp_induct) (auto intro: reachable_lockInv assms(1) lockInv_lockStep)
  show out: "ls_pc s' g = Out" for g using lock_progress [OF i] s' by blast
  show "n = 0" if "locks (ls_tbl s' t) p = Some n" for t p n
    using lockInvD(5) [OF i that] out by auto
qed

lemma path_locks_drain_witness:
  "reachable demoWaiting \<and> \<not> (\<exists>f. f 0 = demoWaiting \<and> (\<forall>n. lockStep (f n) (f (Suc n))))"
proof -
  have "{g. ls_pc demoWaiting g \<noteq> Out} \<subseteq> {0, 1}" by (auto simp: demoWaiting_def initSys_def)
  from path_locks_drain [OF reachable_demoWaiting finite_subset [OF this]] reachable_demoWaiting show ?thesis by simp
qed

end
