(* ===== verification/DirWalk.thy ===== *)
theory DirWalk
  imports ToolsCore "HOL-Library.List_Lexorder" "HOL-Library.Char_ord"
begin

text \<open>
  \<open>filepath.WalkDir\<close> and \<open>filepath.Rel\<close>, which \<open>glob\<close> and the fallback of \<open>grep\<close> use. A callback is an
  action that answers a verdict and updates the walk's state, and the recursion is that of the standard
  library. Reading a directory (\<open>os.ReadDir\<close>) is one step; its entries come sorted by name. While a walk
  runs, others may make directories faster than it descends, but the kernel refuses to open a path of
  4096 bytes or more and a level adds at least two, so the walk is bounded by \<open>walkDepth\<close> levels.
\<close>

section \<open>Directory entries\<close>

text \<open>\<open>fs.DirEntry\<close>: the name, the type bits, and the file info when it is there already.\<close>

record dirEntry =
  de_name :: bytes
  de_kind :: fkind
  de_info :: "finfo option"

definition deIsDir :: "dirEntry \<Rightarrow> bool" where
  "deIsDir d = (de_kind d = KDir)"

fun kindOf :: "node \<Rightarrow> fkind" where
  "kindOf (NDir i) = KDir"
| "kindOf (NFile i) = KFile"
| "kindOf (NLink t) = KLink"

text \<open>What a directory lists: no \<open>.\<close> or \<open>..\<close>, no empty name and none with a slash.\<close>

definition entriesOf :: "fsys \<Rightarrow> bytes list \<Rightarrow> dirEntry list" where
  "entriesOf fs p = sort_key de_name
     (map (\<lambda>(q, n). \<lparr>de_name = last q, de_kind = kindOf n, de_info = None\<rparr>)
       (filter (\<lambda>(q, n). q \<noteq> [] \<and> butlast q = p \<and> okComp (last q)) (AList.clearjunk (fs_names fs))))"

definition opReadDir :: "bytes list \<Rightarrow> dirEntry list op" where
  "opReadDir p fs =
     (case nodeAt fs p of
        None \<Rightarrow> failOp ENOENT fs
      | Some (NDir i) \<Rightarrow> okOp (entriesOf fs p) fs
      | Some _ \<Rightarrow> failOp ENOTDIR fs)"

definition readDir :: "bytes \<Rightarrow> dirEntry list ioe" where
  "readDir p = syscall (atKernel True p opReadDir)"

text \<open>\<open>DirEntry.Info\<close> of the entry at \<open>p\<close>.\<close>

definition deInfo :: "bytes \<Rightarrow> dirEntry \<Rightarrow> finfo ioe" where
  "deInfo p d = (case de_info d of Some i \<Rightarrow> ok i | None \<Rightarrow> lstat p)"

section \<open>WalkDir\<close>

datatype verdict = WNext | WSkipDir | WSkipAll | WFail goerr

type_synonym 's walkFn = "bytes \<Rightarrow> dirEntry option \<Rightarrow> goerr option \<Rightarrow> 's \<Rightarrow> (verdict \<times> 's) io"

definition walkDepth :: nat where
  "walkDepth = 2048"

text \<open>\<open>SkipDir\<close> for a directory is not an error for its parent.\<close>

definition absorb :: "dirEntry \<Rightarrow> verdict \<Rightarrow> verdict" where
  "absorb d v = (if v = WSkipDir \<and> deIsDir d then WNext else v)"

definition visitEntry :: "'s walkFn \<Rightarrow> bytes \<Rightarrow> dirEntry \<Rightarrow> 's \<Rightarrow> ('s \<Rightarrow> (verdict \<times> 's) io) \<Rightarrow> (verdict \<times> 's) io" where
  "visitEntry fn p d s k =
     fn p (Some d) None s \<bind> (\<lambda>(v, s1).
     if v \<noteq> WNext \<or> \<not> deIsDir d then ret (absorb d v, s1) else k s1)"

definition readFailed :: "'s walkFn \<Rightarrow> bytes \<Rightarrow> dirEntry \<Rightarrow> goerr \<Rightarrow> 's \<Rightarrow> (verdict \<times> 's) io" where
  "readFailed fn p d e s = fn p (Some d) (Some e) s \<bind> (\<lambda>(v, s1). ret (absorb d v, s1))"

function walkDir :: "'s walkFn \<Rightarrow> nat \<Rightarrow> bytes \<Rightarrow> dirEntry \<Rightarrow> 's \<Rightarrow> (verdict \<times> 's) io"
  and walkEntries :: "'s walkFn \<Rightarrow> nat \<Rightarrow> bytes \<Rightarrow> dirEntry list \<Rightarrow> 's \<Rightarrow> (verdict \<times> 's) io" where
  "walkDir fn 0 p d s =
     visitEntry fn p d s (\<lambda>s1. gets (\<lambda>h. sysErr h ENAMETOOLONG) \<bind> (\<lambda>e. readFailed fn p d e s1))"
| "walkDir fn (Suc n) p d s =
     visitEntry fn p d s (\<lambda>s1.
     readDir p \<bind> (\<lambda>r.
     case r of
       Inl e \<Rightarrow> readFailed fn p d e s1
     | Inr ds \<Rightarrow> walkEntries fn n p ds s1))"
| "walkEntries fn n p [] s = ret (WNext, s)"
| "walkEntries fn n p (d # ds) s =
     walkDir fn n (Join [p, de_name d]) d s \<bind> (\<lambda>(v, s1).
     case v of
       WNext \<Rightarrow> walkEntries fn n p ds s1
     | WSkipDir \<Rightarrow> ret (WNext, s1)
     | _ \<Rightarrow> ret (v, s1))"
  by pat_completeness auto
termination
  by (relation "measures [\<lambda>x. case x of Inl (fn, n, p, d, s) \<Rightarrow> 2 * n | Inr (fn, n, p, ds, s) \<Rightarrow> 2 * n + 1,
      \<lambda>x. case x of Inl (fn, n, p, d, s) \<Rightarrow> 0 | Inr (fn, n, p, ds, s) \<Rightarrow> length ds]") auto

text \<open>The walk from a root; the error, if a callback failed, and the final state.\<close>

definition WalkDir :: "'s walkFn \<Rightarrow> bytes \<Rightarrow> 's \<Rightarrow> (goerr option \<times> 's) io" where
  "WalkDir fn root s =
     lstat root \<bind> (\<lambda>r.
     (case r of
        Inl e \<Rightarrow> fn root None (Some e) s
      | Inr i \<Rightarrow> walkDir fn walkDepth root \<lparr>de_name = Base root, de_kind = fi_kind i, de_info = Some i\<rparr> s) \<bind> (\<lambda>(v, s1).
     ret (case v of WFail e \<Rightarrow> Some e | _ \<Rightarrow> None, s1)))"

section \<open>filepath.Rel\<close>

fun stripCommon :: "bytes list \<Rightarrow> bytes list \<Rightarrow> bytes list \<times> bytes list" where
  "stripCommon (b # bs) (t # ts) = (if b = t then stripCommon bs ts else (b # bs, t # ts))"
| "stripCommon bs ts = (bs, ts)"

definition Rel :: "bytes \<Rightarrow> bytes \<Rightarrow> bytes option" where
  "Rel basepath targpath =
     (let base = Clean basepath; targ = Clean targpath
      in if targ = base then Some dot
         else if isAbs base \<noteq> isAbs targ then None
         else
           let (bs, ts) = stripCommon (filter (\<lambda>c. c \<noteq> dot) (pathComps base)) (pathComps targ)
           in if bs \<noteq> [] \<and> ts \<noteq> [] \<and> hd bs = dotdot then None
              else Some (join (replicate (length bs) dotdot @ ts) [slash]))"

section \<open>What holds of a walk\<close>

context step_rel
begin

lemma rel_visitEntry:
  "(\<And>p d e s. state_io_rel R (fn p d e s)) \<Longrightarrow> (\<And>s. state_io_rel R (k s)) \<Longrightarrow> state_io_rel R (visitEntry fn p d s k)"
  unfolding visitEntry_def by (intro rel_intros)

lemma rel_readFailed: "(\<And>p d e s. state_io_rel R (fn p d e s)) \<Longrightarrow> state_io_rel R (readFailed fn p d e s)"
  unfolding readFailed_def by (intro rel_intros)

lemma rel_walkEntries:
  assumes "\<And>p d s. state_io_rel R (walkDir fn n p d s)"
  shows "state_io_rel R (walkEntries fn n p ds s)"
proof (induction ds arbitrary: s)
  case (Cons d ds)
  then show ?case
    unfolding walkEntries.simps
    by (intro rel_bind rel_case_prod assms) (auto intro!: rel_ret split: verdict.split)
qed (simp add: rel_ret)

lemma rel_walkDir:
  assumes "\<And>p d e s. state_io_rel R (fn p d e s)" and "\<And>p. state_io_rel R (readDir p)"
  shows "state_io_rel R (walkDir fn n p d s)"
proof (induction n arbitrary: p d s)
  case 0
  show ?case unfolding walkDir.simps by (intro rel_visitEntry rel_intros rel_readFailed assms)
next
  case (Suc n)
  show ?case unfolding walkDir.simps by (intro rel_visitEntry rel_intros rel_readFailed rel_walkEntries assms Suc)
qed

lemma rel_WalkDir:
  assumes "\<And>p d e s. state_io_rel R (fn p d e s)" and "\<And>p. state_io_rel R (readDir p)"
    and "\<And>p. state_io_rel R (lstat p)"
  shows "state_io_rel R (WalkDir fn root s)"
  unfolding WalkDir_def by (intro rel_intros assms rel_walkDir)

end

lemma map_sum_InrE:
  assumes "map_sum f g r = Inr y" obtains x where "r = Inr x" "y = g x"
  using assms by (cases r) auto

lemma rets_readDir: "rets (\<lambda>r. \<forall>ds. r = Inr ds \<longrightarrow> list_all (\<lambda>d. okComp (de_name d)) ds) (readDir p)"
proof -
  have "list_all (\<lambda>d. okComp (de_name d)) (entriesOf fs q)" for fs q
    by (auto simp: entriesOf_def list_all_iff)
  then have "list_all (\<lambda>d. okComp (de_name d)) ds" if "fst (opReadDir q fs) = Inr ds" for q fs ds
    using that by (auto simp: opReadDir_def failOp_def okOp_def split: option.splits node.splits)
  then have "list_all (\<lambda>d. okComp (de_name d)) ds" if "fst (atKernel True p opReadDir fs) = Inr ds" for fs ds
    using that by (auto simp: atKernel_def failOp_def split: sum.splits)
  then show ?thesis
    unfolding rets_def readDir_def syscall_def syscallPart_def
    by (auto simp: run_runOp failErrno_def split: prod.splits fault.splits elim!: map_sum_InrE)
qed

text \<open>Invariants of a walk: \<open>P\<close> of every path visited, \<open>J\<close> of the state while the walk goes on, and \<open>A\<close> of the
  state after the callback has stopped it.\<close>

locale walk_invariant =
  fixes fn :: "'s walkFn" and P :: "bytes \<Rightarrow> bool" and J A :: "'s \<Rightarrow> bool"
  assumes visit: "P p \<Longrightarrow> J s \<Longrightarrow> rets (\<lambda>(v, s'). (v \<in> {WNext, WSkipDir} \<longrightarrow> J s') \<and> (v = WSkipAll \<longrightarrow> A s')) (fn p d e s)"
    and child: "P p \<Longrightarrow> okComp c \<Longrightarrow> P (Join [p, c])"
begin

definition kept :: "verdict \<times> 's \<Rightarrow> bool" where
  "kept = (\<lambda>(v, s'). (v \<in> {WNext, WSkipDir} \<longrightarrow> J s') \<and> (v = WSkipAll \<longrightarrow> A s'))"

lemma kept_absorb: "kept (v, s) \<Longrightarrow> kept (absorb d v, s)"
  by (auto simp: kept_def absorb_def)

lemma visit_kept: "P p \<Longrightarrow> J s \<Longrightarrow> rets kept (fn p d e s)"
  using visit by (simp add: kept_def)

lemma visitEntry_kept:
  assumes "P p" and "J s" and "\<And>s1. J s1 \<Longrightarrow> rets kept (k s1)"
  shows "rets kept (visitEntry fn p d s k)"
  unfolding visitEntry_def
proof (rule rets_bind [OF visit_kept [OF assms(1,2)]], clarify)
  fix v s1
  assume "kept (v, s1)"
  then show "rets kept (if v \<noteq> WNext \<or> \<not> deIsDir d then ret (absorb d v, s1) else k s1)"
    using assms(3) [of s1] by (auto intro!: rets_intros kept_absorb) (simp add: kept_def)
qed

lemma readFailed_kept: "P p \<Longrightarrow> J s \<Longrightarrow> rets kept (readFailed fn p d e s)"
  unfolding readFailed_def by (rule rets_bind [OF visit_kept]) (auto intro!: rets_intros kept_absorb)

lemma walkEntries_kept:
  assumes "\<And>p d s. P p \<Longrightarrow> J s \<Longrightarrow> rets kept (walkDir fn n p d s)"
    and "P p" and "J s" and "list_all (\<lambda>d. okComp (de_name d)) ds"
  shows "rets kept (walkEntries fn n p ds s)"
  using assms(3,4)
proof (induction ds arbitrary: s)
  case Nil
  then show ?case by (auto intro!: rets_intros simp: kept_def)
next
  case (Cons d ds)
  have "rets kept (walkDir fn n (Join [p, de_name d]) d s)"
    using assms(1,2) Cons.prems child by simp
  moreover have "rets kept (case v of WNext \<Rightarrow> walkEntries fn n p ds s1 | WSkipDir \<Rightarrow> ret (WNext, s1) | _ \<Rightarrow> ret (v, s1))"
    if "kept (v, s1)" for v s1
    using that Cons by (auto intro!: rets_intros simp: kept_def split: verdict.split)
  ultimately show ?case unfolding walkEntries.simps by (auto intro: rets_bind)
qed

lemma walkDir_kept: "P p \<Longrightarrow> J s \<Longrightarrow> rets kept (walkDir fn n p d s)"
proof (induction n arbitrary: p d s)
  case 0
  then show ?case unfolding walkDir.simps by (intro visitEntry_kept rets_intros readFailed_kept)
next
  case (Suc n)
  show ?case
    unfolding walkDir.simps
  proof (rule visitEntry_kept [OF Suc.prems])
    fix s1
    assume "J s1"
    then have "rets kept (case r of Inl e \<Rightarrow> readFailed fn p d e s1 | Inr ds \<Rightarrow> walkEntries fn n p ds s1)"
      if "\<forall>ds. r = Inr ds \<longrightarrow> list_all (\<lambda>d. okComp (de_name d)) ds" for r
      using that Suc by (auto intro: readFailed_kept walkEntries_kept split: sum.split)
    then show "rets kept (readDir p \<bind> (\<lambda>r. case r of Inl e \<Rightarrow> readFailed fn p d e s1 | Inr ds \<Rightarrow> walkEntries fn n p ds s1))"
      by (rule rets_bind [OF rets_readDir])
  qed
qed

lemma WalkDir_kept:
  assumes "P root" and "J s"
  shows "rets (\<lambda>(e, s'). e = None \<longrightarrow> J s' \<or> A s') (WalkDir fn root s)"
  unfolding WalkDir_def
proof (rule rets_intros(2))
  fix r
  have "rets kept (case r of Inl e \<Rightarrow> fn root None (Some e) s
      | Inr i \<Rightarrow> walkDir fn walkDepth root \<lparr>de_name = Base root, de_kind = fi_kind i, de_info = Some i\<rparr> s)"
    using assms by (auto intro: visit_kept walkDir_kept split: sum.split)
  then show "rets (\<lambda>(e, s'). e = None \<longrightarrow> J s' \<or> A s') ((case r of Inl e \<Rightarrow> fn root None (Some e) s
      | Inr i \<Rightarrow> walkDir fn walkDepth root \<lparr>de_name = Base root, de_kind = fi_kind i, de_info = Some i\<rparr> s) \<bind>
      (\<lambda>(v, s1). ret (case v of WFail e \<Rightarrow> Some e | _ \<Rightarrow> None, s1)))"
    by (rule rets_bind) (auto intro!: rets_intros simp: kept_def split: verdict.splits)
qed

end

section \<open>Relative paths\<close>

lemma stripCommon_append: "stripCommon bs (bs @ ts) = ([], ts)"
  by (induction bs) (auto split: list.split)

text \<open>For canonical paths, one below the other, \<open>Rel\<close> is what remains.\<close>

lemma Rel_below:
  assumes "canonPath root" and "canonPath p" and "pathComps p = pathComps root @ cs"
  shows "Rel root p = Some (if cs = [] then dot else join cs [slash])"
proof -
  have nodot: "filter (\<lambda>c. c \<noteq> dot) (pathComps root) = pathComps root"
    using assms(1) by (auto simp: canonPath_def list_all_iff okComp_def intro: filter_True)
  have abs: "isAbs root" "isAbs p" using assms(1,2) by (metis canonPath_def absPath_def isAbs_iff)+
  have "p = root \<longleftrightarrow> cs = []"
    using assms by (metis append_self_conv canonPath_def)
  with assms abs nodot show ?thesis
    by (auto simp: Rel_def Clean_canon stripCommon_append)
qed

end
