(* ===== verification/GlobTool.thy ===== *)
theory GlobTool
  imports DirWalk
begin

text \<open>
  The \<open>glob\<close> handler (\<open>glob.go\<close>): the search roots, a walk that collects the files whose path relative to
  the root matches, the order by modification time and the two notices. The matcher \<open>doublestar\<close> is a
  parameter: whether a pattern is valid, whether it matches a path (or fails), and the variant that
  ignores malformed patterns. Log lines are not modelled.
\<close>

record doublestar =
  ds_ValidatePattern :: "bytes \<Rightarrow> bool"
  ds_Match :: "bytes \<Rightarrow> bytes \<Rightarrow> (goerr, bool) result"
  ds_MatchUnvalidated :: "bytes \<Rightarrow> bytes \<Rightarrow> bool"

record GlobInput =
  gi_Pattern :: bytes
  gi_Path :: bytes

record GlobOutput =
  go_Files :: "bytes list"
  go_Note :: bytes

definition globMaxResults :: nat where
  "globMaxResults = 200"

definition globScanLimit :: nat where
  "globScanLimit = 100000"

record globMatch =
  gm_path :: bytes
  gm_mtime :: int

text \<open>What the walk's closure updates.\<close>

record globState =
  gs_matches :: "globMatch list"
  gs_scanned :: nat
  gs_stopped :: bool

text \<open>The search roots of \<open>glob\<close> and \<open>grep\<close>.\<close>

definition searchRoots :: "Conn \<Rightarrow> bytes \<Rightarrow> bytes list ioe" where
  "searchRoots c path =
     (if path = [] then ok (c_dirs c)
      else
        bindE (c_validate c path) (\<lambda>resolved.
        bindE (mapErr (mapFSErr resolved) (stat resolved)) (\<lambda>info.
        if \<not> IsDir info then err (PlainErr (''search path must be a directory, not a file: '' @ resolved))
        else ok [resolved])))"

text \<open>The callback of the walk from \<open>root\<close>.\<close>

definition globVisit :: "doublestar \<Rightarrow> bytes \<Rightarrow> bytes \<Rightarrow> globState walkFn" where
  "globVisit D pat root p d e s =
     (case (e, d) of
        (Some e, Some d) \<Rightarrow> ret (if deIsDir d then WSkipDir else WNext, s)
      | (Some e, None) \<Rightarrow> ret (WNext, s)
      | (None, None) \<Rightarrow> ret (WNext, s)
      | (None, Some d) \<Rightarrow>
          (let s1 = s\<lparr>gs_scanned := gs_scanned s + 1\<rparr>;
               finish = (\<lambda>s2. if gs_scanned s1 \<ge> globScanLimit then ret (WSkipAll, s2\<lparr>gs_stopped := True\<rparr>)
                              else ret (WNext, s2))
           in if deIsDir d then finish s1
              else
                case Rel root p of
                  None \<Rightarrow> finish s1
                | Some rel \<Rightarrow>
                    (case ds_Match D pat rel of
                       Inl mErr \<Rightarrow> ret (WFail mErr, s1)
                     | Inr False \<Rightarrow> finish s1
                     | Inr True \<Rightarrow>
                         deInfo p d \<bind> (\<lambda>i.
                         case i of
                           Inl iErr \<Rightarrow> finish s1
                         | Inr info \<Rightarrow> finish (s1\<lparr>gs_matches := gs_matches s1 @ [\<lparr>gm_path = p, gm_mtime = fi_mtime info\<rparr>]\<rparr>)))))"

fun globWalks :: "doublestar \<Rightarrow> bytes \<Rightarrow> bytes list \<Rightarrow> globState \<Rightarrow> globState ioe" where
  "globWalks D pat [] s = ok s"
| "globWalks D pat (root # roots) s =
     (if gs_stopped s then ok s
      else
        WalkDir (globVisit D pat root) root s \<bind> (\<lambda>(e, s1).
        case e of
          Some e \<Rightarrow> err (WrapErr (''glob: walk '' @ root @ '': '' @ errText e) e)
        | None \<Rightarrow> globWalks D pat roots s1))"

text \<open>The comparison of \<open>sort.Slice\<close>: newest first, ties by path.\<close>

datatype globKey = GlobKey int bytes

instantiation globKey :: linorder
begin

fun less_globKey :: "globKey \<Rightarrow> globKey \<Rightarrow> bool" where
  "less_globKey (GlobKey m p) (GlobKey n q) = (if m \<noteq> n then n < m else p < q)"

definition less_eq_globKey :: "globKey \<Rightarrow> globKey \<Rightarrow> bool" where
  "less_eq_globKey a b = (a = b \<or> a < b)"

instance
proof
  fix a b c :: globKey
  show "a < b \<longleftrightarrow> a \<le> b \<and> \<not> b \<le> a" by (cases a; cases b) (auto simp: less_eq_globKey_def)
  show "a \<le> a" by (simp add: less_eq_globKey_def)
  show "a \<le> b \<Longrightarrow> b \<le> c \<Longrightarrow> a \<le> c"
    by (cases a; cases b; cases c) (auto simp: less_eq_globKey_def split: if_splits)
  show "a \<le> b \<Longrightarrow> b \<le> a \<Longrightarrow> a = b" by (cases a; cases b) (auto simp: less_eq_globKey_def split: if_splits)
  show "a \<le> b \<or> b \<le> a" by (cases a; cases b) (auto simp: less_eq_globKey_def split: if_splits)
qed

end

definition globOrder :: "globMatch list \<Rightarrow> globMatch list" where
  "globOrder = sort_key (\<lambda>m. GlobKey (gm_mtime m) (gm_path m))"

text \<open>At most \<open>globMaxResults\<close> files, with the notices.\<close>

definition globOutput :: "globState \<Rightarrow> GlobOutput" where
  "globOutput s =
     (let ms = globOrder (gs_matches s); total = length ms;
          notes = (if total > globMaxResults
              then [''showing '' @ itoa (int globMaxResults) @ '' of '' @ itoa (int total) @ '' matches (limit '' @
                itoa (int globMaxResults) @ ''); narrow the pattern or set path to a subdirectory'']
              else []) @
            (if gs_stopped s
             then [''scan stopped after '' @ itoa (int globScanLimit) @ '' entries; results may be incomplete'']
             else [])
      in \<lparr>go_Files = map gm_path (if total > globMaxResults then take globMaxResults ms else ms),
          go_Note = join notes ''; ''\<rparr>)"

definition Glob :: "Conn \<Rightarrow> doublestar \<Rightarrow> GlobInput \<Rightarrow> GlobOutput ioe" where
  "Glob c D inp =
     (if gi_Pattern inp = [] then err (PlainErr ''pattern must not be empty'')
      else if \<not> ds_ValidatePattern D (gi_Pattern inp)
        then err (PlainErr (''invalid doublestar pattern: '' @ goQuote (env_isPrint (c_env c)) (gi_Pattern inp)))
      else
        bindE (searchRoots c (gi_Path inp)) (\<lambda>roots.
        bindE (globWalks D (gi_Pattern inp) roots \<lparr>gs_matches = [], gs_scanned = 0, gs_stopped = False\<rparr>) (\<lambda>s.
        ok (globOutput s))))"

section \<open>Searching changes nothing\<close>

text \<open>A search looks at the file system and leaves everything else of the process alone.\<close>

definition onlyLooks :: "host \<Rightarrow> host \<Rightarrow> bool" where
  "onlyLooks h h' \<longleftrightarrow> h_fxlog h' = h_fxlog h \<and> h_sess h' = h_sess h \<and> h_held h' = h_held h \<and> h_lease h' = h_lease h \<and>
     h_stuck h' = h_stuck h \<and> h_roots h' = h_roots h \<and> h_opened h' = h_opened h \<and> h_net h' = h_net h"

interpretation looks: step_rel onlyLooks
  by unfold_locales (auto simp: onlyLooks_def)

lemma looks_nextTick: "state_io_rel onlyLooks nextTick"
  by (auto simp: state_io_rel_def nextTick_def applyTick_def onlyLooks_def split: list.split)

lemma looks_lookup:
  assumes "\<And>p fs. snd (k p fs) = (fs, [])"
  shows "state_io_rel onlyLooks (syscall (atKernel follow path k))"
proof -
  have "snd (atKernel follow path k fs) = (fs, [])" for fs
    using assms by (simp add: atKernel_def failOp_def split: sum.split)
  then have "state_io_rel onlyLooks (runOp (atKernel follow path k))"
    by (simp add: state_io_rel_def run_runOp onlyLooks_def)
  then show ?thesis by (rule looks.rel_syscall [OF looks_nextTick])
qed

lemma looks_calls:
  "state_io_rel onlyLooks (lstat p)" "state_io_rel onlyLooks (stat p)" "state_io_rel onlyLooks (readlink p)"
  "state_io_rel onlyLooks (readDir p)"
  unfolding lstat_def stat_def readlink_def readDir_def
  by (rule looks_lookup;
      auto simp: opStat_def opReadlink_def opReadDir_def failOp_def okOp_def split: option.split node.split)+

interpretation lookswalk: walk_rel onlyLooks
  by unfold_locales (fact looks_calls)+

lemma looks_searchRoots: "state_io_rel onlyLooks (searchRoots c path)"
  unfolding searchRoots_def c_validate_def
  by (intro looks.rel_intros looks_calls lookswalk.rel_Validate)

lemma looks_globVisit: "state_io_rel onlyLooks (globVisit D pat root p d e s)"
  unfolding globVisit_def deInfo_def Let_def
  by (auto intro!: looks.rel_intros looks_calls split: option.split sum.split bool.split)

lemma looks_globWalks: "state_io_rel onlyLooks (globWalks D pat roots s)"
proof (induction roots arbitrary: s)
  case (Cons root roots)
  then show ?case
    unfolding globWalks.simps
    by (intro looks.rel_intros looks.rel_WalkDir looks_globVisit looks_calls)
qed (simp add: looks.rel_ok)

lemma looks_Glob: "state_io_rel onlyLooks (Glob c D inp)"
  unfolding Glob_def by (intro looks.rel_intros looks_searchRoots looks_globWalks)

section \<open>What glob reports\<close>

text \<open>The path below a root, as \<open>Rel\<close> gives it.\<close>

definition relText :: "bytes list \<Rightarrow> bytes list \<Rightarrow> bytes" where
  "relText root cs = (let ds = drop (length root) cs in if ds = [] then dot else join ds [slash])"

text \<open>A result: a file at or below a search root whose relative path the pattern matches.\<close>

definition globGood :: "doublestar \<Rightarrow> bytes \<Rightarrow> bytes list \<Rightarrow> globMatch \<Rightarrow> bool" where
  "globGood D pat roots m \<longleftrightarrow>
     (\<exists>root \<in> set roots. canonPath (gm_path m) \<and> prefix (pathComps root) (pathComps (gm_path m)) \<and>
       ds_Match D pat (relText (pathComps root) (pathComps (gm_path m))) = Inr True)"

definition globGoing :: "doublestar \<Rightarrow> bytes \<Rightarrow> bytes list \<Rightarrow> globState \<Rightarrow> bool" where
  "globGoing D pat roots s \<longleftrightarrow> list_all (globGood D pat roots) (gs_matches s) \<and>
     length (gs_matches s) \<le> gs_scanned s \<and> gs_scanned s < globScanLimit \<and> \<not> gs_stopped s"

definition globOver :: "doublestar \<Rightarrow> bytes \<Rightarrow> bytes list \<Rightarrow> globState \<Rightarrow> bool" where
  "globOver D pat roots s \<longleftrightarrow> list_all (globGood D pat roots) (gs_matches s) \<and>
     length (gs_matches s) \<le> gs_scanned s \<and> gs_scanned s = globScanLimit \<and> gs_stopped s"

definition globPath :: "bytes list \<Rightarrow> bytes \<Rightarrow> bytes \<Rightarrow> bool" where
  "globPath roots root p \<longleftrightarrow> root \<in> set roots \<and> canonPath root \<and> canonPath p \<and> prefix (pathComps root) (pathComps p)"

lemma globPath_child: "globPath roots root p \<Longrightarrow> okComp c \<Longrightarrow> globPath roots root (Join [p, c])"
proof -
  assume p: "globPath roots root p" and c: "okComp c"
  then have "Join [p, c] = absPath (pathComps p @ [c])" "list_all okComp (pathComps p @ [c])"
    using Join_absPath [of "pathComps p" c] by (auto simp: globPath_def canonPath_def)
  with p show ?thesis by (auto simp: globPath_def)
qed

lemma globPath_Rel:
  "globPath roots root p \<Longrightarrow> Rel root p = Some (relText (pathComps root) (pathComps p))"
proof -
  assume p: "globPath roots root p"
  then obtain cs where "pathComps p = pathComps root @ cs" by (auto simp: globPath_def elim: prefixE)
  with p Rel_below [of root p cs] show ?thesis by (simp add: globPath_def relText_def)
qed

lemma globVisit_going:
  assumes "globPath roots root p" and "globGoing D pat roots s"
  shows "rets (\<lambda>(v, s'). (v \<in> {WNext, WSkipDir} \<longrightarrow> globGoing D pat roots s') \<and> (v = WSkipAll \<longrightarrow> globOver D pat roots s'))
    (globVisit D pat root p d e s)"
proof -
  have "globGood D pat roots \<lparr>gm_path = p, gm_mtime = t\<rparr>" if "Rel root p = Some rel" "ds_Match D pat rel = Inr True" for rel t
    using that assms(1) globPath_Rel [OF assms(1)] by (auto simp: globGood_def globPath_def)
  with assms(2) show ?thesis
    unfolding globVisit_def Let_def
    by (auto intro!: rets_intros simp: globGoing_def globOver_def split: option.split sum.split bool.split)
qed

interpretation globwalk: walk_invariant "globVisit D pat root" "globPath roots root" "globGoing D pat roots"
  "globOver D pat roots" for D pat root roots
  by unfold_locales (fact globVisit_going globPath_child)+

lemma globWalks_good:
  assumes "set walks \<subseteq> set roots" and "list_all canonPath roots" and "globGoing D pat roots s \<or> globOver D pat roots s"
  shows "rets (\<lambda>r. \<forall>s'. r = Inr s' \<longrightarrow> globGoing D pat roots s' \<or> globOver D pat roots s') (globWalks D pat walks s)"
  using assms(1,3)
proof (induction walks arbitrary: s)
  case Nil
  then show ?case by (auto simp: rets_def)
next
  case (Cons root walks)
  show ?case
  proof (cases "gs_stopped s")
    case True
    with Cons.prems show ?thesis by (auto simp: rets_def)
  next
    case False
    with Cons.prems have "globGoing D pat roots s" "globPath roots root root"
      using assms(2) by (auto simp: globGoing_def globOver_def globPath_def list_all_iff)
    then have walk: "rets (\<lambda>(e, s'). e = None \<longrightarrow> globGoing D pat roots s' \<or> globOver D pat roots s') (WalkDir (globVisit D pat root) root s)"
      by (intro globwalk.WalkDir_kept)
    have rest: "rets (\<lambda>r. \<forall>s'. r = Inr s' \<longrightarrow> globGoing D pat roots s' \<or> globOver D pat roots s')
        (case e of Some e \<Rightarrow> err (WrapErr (''glob: walk '' @ root @ '': '' @ errText e) e) | None \<Rightarrow> globWalks D pat walks s1)"
      if "e = None \<longrightarrow> globGoing D pat roots s1 \<or> globOver D pat roots s1" for e s1
    proof (cases e)
      case None
      with that Cons.IH [of s1] Cons.prems(1) show ?thesis by simp
    next
      case (Some x)
      then show ?thesis by (simp add: rets_def)
    qed
    show ?thesis
      unfolding globWalks.simps if_not_P [OF False]
      by (rule rets_bind [OF walk], clarify, rule rest, simp)
  qed
qed

lemma Glob_roots:
  assumes "list_all canonPath (c_dirs c)"
  shows "rets (\<lambda>r. \<forall>roots. r = Inr roots \<longrightarrow> list_all (inScope (c_dirs c)) roots) (searchRoots c path)"
proof -
  have "inScope (c_dirs c) d" if "d \<in> set (c_dirs c)" for d
    using that assms by (auto simp: inScope_def list_all_iff list_ex_iff)
  moreover have "inScope (c_dirs c) p" if "run_state (c_validate c path) h = (Inr p, h')" for p h h'
    using Validate_inScope assms that unfolding c_validate_def c_dirs_def AllowedDirs_def by blast
  ultimately show ?thesis
    unfolding rets_def searchRoots_def
    by (auto simp: run_bindE run_mapErr list_all_iff split: prod.splits sum.splits)
qed

text \<open>C20. Whatever others do to the file system during a search: a \<open>glob\<close> call changes nothing, and what it
  answers are at most 200 paths, each inside an allowed directory, at or below a search root and matched
  by the pattern relative to it.\<close>

theorem glob_confined:
  assumes "list_all canonPath (c_dirs c)" and "run_state (Glob c D inp) h = (r, h')"
  shows "onlyLooks h h' \<and>
    (\<forall>out. r = Inr out \<longrightarrow> length (go_Files out) \<le> globMaxResults \<and>
      (\<forall>p \<in> set (go_Files out). inScope (c_dirs c) p \<and>
        (\<exists>root. inScope (c_dirs c) root \<and> prefix (pathComps root) (pathComps p) \<and>
          ds_Match D (gi_Pattern inp) (relText (pathComps root) (pathComps p)) = Inr True)))"
proof (intro conjI allI impI)
  show "onlyLooks h h'" using state_io_relD [OF looks_Glob assms(2)] .
  fix out
  assume "r = Inr out"
  with assms(2) obtain roots h1 s where roots: "run_state (searchRoots c (gi_Path inp)) h = (Inr roots, h1)"
    and walks: "run_state (globWalks D (gi_Pattern inp) roots \<lparr>gs_matches = [], gs_scanned = 0, gs_stopped = False\<rparr>) h1 = (Inr s, h')"
    and out: "out = globOutput s"
    by (auto simp: Glob_def run_bindE split: if_splits prod.splits sum.splits)
  have scope: "list_all (inScope (c_dirs c)) roots" using retsD [OF Glob_roots [OF assms(1)] roots] by simp
  then have "list_all canonPath roots" by (auto simp: list_all_iff inScope_def)
  then have "globGoing D (gi_Pattern inp) roots s \<or> globOver D (gi_Pattern inp) roots s"
    using retsD [OF globWalks_good walks, of roots] by (simp add: globGoing_def globScanLimit_def)
  then have good: "list_all (globGood D (gi_Pattern inp) roots) (gs_matches s)" by (auto simp: globGoing_def globOver_def)
  have files: "go_Files out = map gm_path (take globMaxResults (globOrder (gs_matches s)))"
    by (simp add: out globOutput_def Let_def)
  then show "length (go_Files out) \<le> globMaxResults" by simp
  show "\<forall>p \<in> set (go_Files out). inScope (c_dirs c) p \<and>
      (\<exists>root. inScope (c_dirs c) root \<and> prefix (pathComps root) (pathComps p) \<and>
        ds_Match D (gi_Pattern inp) (relText (pathComps root) (pathComps p)) = Inr True)"
  proof
    fix p
    assume "p \<in> set (go_Files out)"
    then obtain m where "m \<in> set (gs_matches s)" "p = gm_path m"
      by (auto simp: files globOrder_def dest: in_set_takeD)
    with good obtain root where m: "root \<in> set roots" "canonPath p" "prefix (pathComps root) (pathComps p)"
      "ds_Match D (gi_Pattern inp) (relText (pathComps root) (pathComps p)) = Inr True"
      by (auto simp: list_all_iff globGood_def)
    with scope have root: "inScope (c_dirs c) root" by (simp add: list_all_iff)
    with m(2,3) have "inScope (c_dirs c) p"
      by (auto simp: inScope_def list_ex_iff intro: prefix_order.trans)
    with root m(3,4) show "inScope (c_dirs c) p \<and> (\<exists>root. inScope (c_dirs c) root \<and> prefix (pathComps root) (pathComps p) \<and>
        ds_Match D (gi_Pattern inp) (relText (pathComps root) (pathComps p)) = Inr True)" by blast
  qed
qed

text \<open>A pattern that matches everything, on the demonstration machine.\<close>

definition demoStar :: doublestar where
  "demoStar = \<lparr>ds_ValidatePattern = (\<lambda>p. True), ds_Match = (\<lambda>p r. Inr True), ds_MatchUnvalidated = (\<lambda>p r. True)\<rparr>"

definition demoGlob :: GlobInput where
  "demoGlob = \<lparr>gi_Pattern = ''**'', gi_Path = ''/d''\<rparr>"

definition demoSearch :: Conn where
  "demoSearch = \<lparr>c_env = demoEnv, c_guard = demoGuard, c_token = ''t'', c_limits = DefaultUploadLimits\<rparr>"

lemma glob_confined_witness:
  "onlyLooks demoHost (snd (run_state (Glob demoSearch demoStar demoGlob) demoHost)) \<and>
    fst (run_state (Glob demoSearch demoStar demoGlob) demoHost) = Inr \<lparr>go_Files = [''/d/f''], go_Note = []\<rparr> \<and>
    inScope (c_dirs demoSearch) ''/d/f''"
proof -
  obtain r h' where run: "run_state (Glob demoSearch demoStar demoGlob) demoHost = (r, h')" by fastforce
  have "list_all canonPath (c_dirs demoSearch)" by code_simp
  note g = glob_confined [OF this run]
  have ev: "fst (run_state (Glob demoSearch demoStar demoGlob) demoHost) = Inr \<lparr>go_Files = [''/d/f''], go_Note = []\<rparr>"
    by code_simp
  with g run show ?thesis by auto
qed

end
