(* ===== verification/QuietWalk.thy ===== *)
theory QuietWalk
  imports GlobTool "HOL-Library.Multiset"
begin

text \<open>
  A walk on a machine where nobody else writes: it visits every name below its root once, in the order of
  \<open>treeOf\<close>. The locale \<open>quiet_walk\<close> states what a callback has to promise for that; the exact answers of
  \<open>glob\<close> and of the \<open>grep\<close> fallback rest on its two interpretations.
\<close>

section \<open>A search on a quiet machine\<close>

text \<open>Only time passes.\<close>

definition sameDisk :: "fsys \<Rightarrow> fsys \<Rightarrow> bool" where
  "sameDisk fs fs' \<longleftrightarrow> fs_names fs' = fs_names fs \<and> fs_inodes fs' = fs_inodes fs"

definition idle :: "host \<Rightarrow> host \<Rightarrow> bool" where
  "idle h h' \<longleftrightarrow> (h_sched h = [] \<longrightarrow> h_sched h' = [] \<and> sameDisk (h_fs h) (h_fs h') \<and> h_ctx h' = h_ctx h)"

interpretation idle: step_rel idle
  by unfold_locales (auto simp: idle_def sameDisk_def)

lemma sameDisk_simps:
  assumes "sameDisk fs fs'"
  shows "nodeAt fs' = nodeAt fs" "infoOf fs' = infoOf fs" "entriesOf fs' = entriesOf fs"
    "dirsAbove fs' = dirsAbove fs" "realDir fs' = realDir fs" "realPath fs' = realPath fs"
  using assms
  by (auto simp: fun_eq_iff sameDisk_def nodeAt_def infoOf_def entriesOf_def dirsAbove_def realDir_def realPath_def
      split: node.split)

lemma idle_lookup:
  assumes "\<And>p fs. snd (k p fs) = (fs, [])"
  shows "state_io_rel idle (syscall (atKernel follow path k))"
proof -
  have "snd (atKernel follow path k fs) = (fs, [])" for fs
    using assms by (simp add: atKernel_def failOp_def split: sum.split)
  then have "state_io_rel idle (runOp (atKernel follow path k))"
    by (simp add: state_io_rel_def run_runOp idle_def sameDisk_def)
  moreover have "state_io_rel idle nextTick"
    by (auto simp: state_io_rel_def nextTick_def idle_def sameDisk_def applyTick_quiet split: list.split)
  ultimately show ?thesis by (rule idle.rel_syscall [rotated])
qed

lemma idle_calls:
  "state_io_rel idle (lstat p)" "state_io_rel idle (stat p)" "state_io_rel idle (readlink p)"
  unfolding lstat_def stat_def readlink_def
  by (rule idle_lookup; auto simp: opStat_def opReadlink_def failOp_def okOp_def split: option.split node.split)+

interpretation idlewalk: walk_rel idle
  by unfold_locales (fact idle_calls)+

lemma run_lookup_quiet:
  assumes "h_sched h = []" and "dirsAbove (h_fs h) cs" and "\<And>t. nodeAt (h_fs h) cs \<noteq> Some (NLink t)"
    and "\<And>fs. sameDisk (h_fs h) fs \<Longrightarrow> k cs fs = (Inr x, fs, [])"
  shows "run_state (syscall (atKernel True (absPath cs) k)) h = (Inr x, applyTick quietTick h)"
proof -
  let ?fs = "h_fs (applyTick quietTick h)"
  have "kernelPath ?fs True (absPath cs) = Inr cs"
    using assms(2,3) by (intro kernelPath_plain) auto
  moreover have "k cs ?fs = (Inr x, ?fs, [])" by (rule assms(4)) (simp add: sameDisk_def applyTick_quiet)
  ultimately show ?thesis by (simp add: run_syscall_quiet [OF assms(1)] run_runOp atKernel_def)
qed

lemma run_stat_quiet:
  assumes "h_sched h = []" and "realPath (h_fs h) cs" and "nodeAt (h_fs h) cs = Some n"
  shows "run_state (stat (absPath cs)) h = (Inr (infoOf (h_fs h) n), applyTick quietTick h)"
  unfolding stat_def using assms
  by (intro run_lookup_quiet) (auto simp: realPath_def opStat_def okOp_def sameDisk_simps)

lemma run_readDir_quiet:
  assumes "h_sched h = []" and "realDir (h_fs h) cs"
  shows "run_state (readDir (absPath cs)) h = (Inr (entriesOf (h_fs h) cs), applyTick quietTick h)"
  unfolding readDir_def using assms
  by (intro run_lookup_quiet) (auto simp: realDir_def opReadDir_def okOp_def sameDisk_simps)

text \<open>A quiet machine with the files of \<open>fs\<close>, on which the contexts are in state \<open>x\<close>.\<close>

definition calm :: "fsys \<Rightarrow> (nat \<times> ctxErr) option \<Rightarrow> host \<Rightarrow> bool" where
  "calm fs x h \<longleftrightarrow> h_sched h = [] \<and> sameDisk fs (h_fs h) \<and> h_ctx h = x"

lemma calm_self: "h_sched h = [] \<Longrightarrow> calm (h_fs h) (h_ctx h) h"
  by (simp add: calm_def sameDisk_def)

lemma calm_sched: "calm fs x h \<Longrightarrow> h_sched h = []"
  by (simp add: calm_def)

lemma calm_ctx: "calm fs x h \<Longrightarrow> h_ctx h = x"
  by (simp add: calm_def)

lemma calm_tick [intro]: "calm fs x h \<Longrightarrow> calm fs x (applyTick quietTick h)"
  by (simp add: calm_def sameDisk_def applyTick_quiet)

lemma calm_idle: "calm fs x h \<Longrightarrow> idle h h' \<Longrightarrow> calm fs x h'"
  by (auto simp: calm_def idle_def sameDisk_def)

lemma calm_same:
  assumes "calm fs x h"
  shows "nodeAt (h_fs h) = nodeAt fs" "infoOf (h_fs h) = infoOf fs" "entriesOf (h_fs h) = entriesOf fs"
    "dirsAbove (h_fs h) = dirsAbove fs" "realDir (h_fs h) = realDir fs" "realPath (h_fs h) = realPath fs"
    "fs_inodes (h_fs h) = fs_inodes fs"
  using assms sameDisk_simps [of fs "h_fs h"] by (auto simp: calm_def sameDisk_def)

text \<open>The tree below an entry, in the order of the walk.\<close>

fun treeOf :: "fsys \<Rightarrow> nat \<Rightarrow> bytes list \<Rightarrow> dirEntry \<Rightarrow> (bytes list \<times> dirEntry) list" where
  "treeOf fs 0 cs d = [(cs, d)]"
| "treeOf fs (Suc n) cs d =
     (cs, d) # (if deIsDir d then concat (map (\<lambda>e. treeOf fs n (cs @ [de_name e]) e) (entriesOf fs cs)) else [])"

text \<open>An entry as it stands in the file system.\<close>

definition entryAt :: "fsys \<Rightarrow> bytes list \<Rightarrow> dirEntry \<Rightarrow> bool" where
  "entryAt fs cs d \<longleftrightarrow> dirsAbove fs cs \<and> (\<exists>n. nodeAt fs cs = Some n \<and> de_kind d = kindOf n) \<and>
     (\<forall>i. de_info d = Some i \<longrightarrow> deIsDir d)"

lemma entryAt_realDir: "entryAt fs cs d \<Longrightarrow> deIsDir d \<Longrightarrow> realDir fs cs"
  by (auto simp: entryAt_def realDir_def deIsDir_def) (metis kindOf.elims fkind.distinct(1,3))

lemma entryAt_child:
  assumes "entryAt fs cs d" and "deIsDir d" and "e \<in> set (entriesOf fs cs)"
  shows "entryAt fs (cs @ [de_name e]) e"
proof -
  from assms(3) obtain q n where q: "(q, n) \<in> set (AList.clearjunk (fs_names fs))" "q \<noteq> []" "butlast q = cs"
    "okComp (last q)" "e = \<lparr>de_name = last q, de_kind = kindOf n, de_info = None\<rparr>"
    by (auto simp: entriesOf_def)
  then have "cs @ [de_name e] = q" by (metis append_butlast_last_id dirEntry.select_convs(1))
  moreover have "nodeAt fs q = Some n"
    using q(1,2) by (simp add: nodeAt_def) (metis distinct_clearjunk map_of_clearjunk map_of_is_SomeI)
  moreover have "dirsAbove fs (cs @ [de_name e])"
    using q(4,5) entryAt_realDir [OF assms(1,2)] by (simp add: dirsAbove_snoc)
  ultimately show ?thesis using q(5) by (simp add: entryAt_def)
qed

text \<open>The tree has every name at or below its root, once.\<close>

lemma treeOf_entryAt: "entryAt fs cs d \<Longrightarrow> (q, e) \<in> set (treeOf fs n cs d) \<Longrightarrow> entryAt fs q e \<and> prefix cs q"
proof (induction n arbitrary: cs d)
  case (Suc n)
  show ?case
  proof (cases "(q, e) = (cs, d)")
    case False
    with Suc.prems(2) obtain x where x: "deIsDir d" "x \<in> set (entriesOf fs cs)" "(q, e) \<in> set (treeOf fs n (cs @ [de_name x]) x)"
      by (auto split: if_splits)
    from Suc.IH [OF entryAt_child [OF Suc.prems(1) x(1,2)] x(3)] show ?thesis by (auto elim: prefixE)
  qed (use Suc.prems in simp)
qed simp

lemma entriesOf_names: "distinct (map de_name (entriesOf fs cs))"
  "q \<noteq> [] \<Longrightarrow> nodeAt fs q = Some n \<Longrightarrow> okComp (last q) \<Longrightarrow>
    \<lparr>de_name = last q, de_kind = kindOf n, de_info = None\<rparr> \<in> set (entriesOf fs (butlast q))"
proof -
  let ?f = "\<lambda>(q, n). \<lparr>de_name = last q, de_kind = kindOf n, de_info = None\<rparr> :: dirEntry"
  let ?here = "filter (\<lambda>(q, n). q \<noteq> [] \<and> butlast q = cs \<and> okComp (last q)) (AList.clearjunk (fs_names fs))"
  have "map (de_name \<circ> ?f) ?here = map last (map fst ?here)" by auto
  moreover have "distinct (map fst ?here)"
    using distinct_clearjunk [of "fs_names fs"] by (rule distinct_map_filter)
  moreover have "inj_on last (set (map fst ?here))"
    by (auto simp: inj_on_def) (metis append_butlast_last_id)
  ultimately have "distinct (map (de_name \<circ> ?f) ?here)" by (simp only: distinct_map)
  then have here: "distinct (map de_name (map ?f ?here))" by (simp only: map_map)
  have "mset (map de_name (entriesOf fs cs)) = mset (map de_name (map ?f ?here))"
    by (simp only: entriesOf_def mset_map mset_sort)
  from mset_eq_imp_distinct_iff [OF this] here show "distinct (map de_name (entriesOf fs cs))" by (rule iffD2)
  show "\<lparr>de_name = last q, de_kind = kindOf n, de_info = None\<rparr> \<in> set (entriesOf fs (butlast q))"
    if "q \<noteq> []" "nodeAt fs q = Some n" "okComp (last q)"
  proof -
    have "map_of (AList.clearjunk (fs_names fs)) q = Some n"
      using that(1,2) by (simp add: nodeAt_def map_of_clearjunk)
    then have "(q, n) \<in> set (AList.clearjunk (fs_names fs))" by (rule map_of_SomeD)
    with that(1,3) show ?thesis unfolding entriesOf_def set_sort set_map
      by (intro image_eqI [of _ _ "(q, n)"]) auto
  qed
qed

lemma distinct_concat_map:
  assumes "distinct es" and "\<And>e. e \<in> set es \<Longrightarrow> distinct (f e)"
    and "\<And>e e' q. e \<in> set es \<Longrightarrow> e' \<in> set es \<Longrightarrow> q \<in> set (f e) \<Longrightarrow> q \<in> set (f e') \<Longrightarrow> e = e'"
  shows "distinct (concat (map f es))"
  using assms
proof (induction es)
  case (Cons e es)
  have "distinct (concat (map f es))" using Cons.prems by (intro Cons.IH) auto
  moreover have "q \<notin> set (f e')" if "q \<in> set (f e)" "e' \<in> set es" for q e'
    using Cons.prems(1) Cons.prems(3) [of e e' q] that by auto
  ultimately show ?case using Cons.prems(2) [of e] by auto
qed simp

lemma treeOf_names:
  assumes "entryAt fs cs d"
  shows "distinct (map fst (treeOf fs n cs d))" and "set (map fst (treeOf fs n cs d)) \<subseteq> insert cs (fst ` set (fs_names fs))"
  using assms
proof (induction n arbitrary: cs d)
  case (Suc n)
  {
    case 1
    let ?sub = "\<lambda>e. treeOf fs n (cs @ [de_name e]) e"
    let ?es = "entriesOf fs cs"
    show ?case
    proof (cases "deIsDir d")
      case True
      have below: "prefix (cs @ [de_name e]) q" if "e \<in> set ?es" "q \<in> set (map fst (?sub e))" for e q
        using that treeOf_entryAt [OF entryAt_child [OF 1 True that(1)]] by auto
      have "distinct (map fst (?sub e))" if "e \<in> set ?es" for e
        using Suc(1) [OF entryAt_child [OF 1 True that]] .
      moreover have "e = e'" if "e \<in> set ?es" "e' \<in> set ?es" "q \<in> set (map fst (?sub e))" "q \<in> set (map fst (?sub e'))" for e e' q
      proof -
        from below [OF that(1,3)] below [OF that(2,4)] have "de_name e = de_name e'"
          by (auto elim!: prefixE)
        with that(1,2) entriesOf_names(1) [of fs cs] show ?thesis by (auto simp: distinct_map inj_on_def)
      qed
      moreover have "distinct ?es" using entriesOf_names(1) by (simp add: distinct_map)
      ultimately have "distinct (concat (map (\<lambda>e. map fst (?sub e)) ?es))"
        by (intro distinct_concat_map) blast+
      moreover have "cs \<notin> set (concat (map (\<lambda>e. map fst (?sub e)) ?es))"
        using below by fastforce
      ultimately show ?thesis using True by (simp add: map_concat comp_def)
    qed simp
  }
  {
    case 2
    let ?sub = "\<lambda>e. treeOf fs n (cs @ [de_name e]) e"
    let ?es = "entriesOf fs cs"
    have "cs @ [de_name e] \<in> fst ` set (fs_names fs)" if "deIsDir d" "e \<in> set ?es" for e
      using entryAt_child [OF 2 that] by (force simp: entryAt_def nodeAt_def dest: map_of_SomeD)
    moreover have "set (map fst (?sub e)) \<subseteq> insert (cs @ [de_name e]) (fst ` set (fs_names fs))" if "deIsDir d" "e \<in> set ?es" for e
      using Suc(2) [OF entryAt_child [OF 2 that]] .
    ultimately have "q \<in> fst ` set (fs_names fs)" if "deIsDir d" "e \<in> set ?es" "q \<in> set (map fst (?sub e))" for e q
      using that by blast
    then show ?case by auto
  }
qed simp_all

lemma treeOf_length:
  assumes "entryAt fs cs d"
  shows "length (treeOf fs n cs d) \<le> length (fs_names fs) + 1"
proof -
  let ?t = "treeOf fs n cs d"
  have "length ?t = card (set (map fst ?t))" using treeOf_names(1) [OF assms, of n] by (simp add: distinct_card del: set_map)
  also have "\<dots> \<le> card (insert cs (fst ` set (fs_names fs)))"
    using treeOf_names(2) [OF assms] by (intro card_mono) auto
  also have "\<dots> \<le> length (fs_names fs) + 1"
    using card_insert_le_m1 [of "Suc (length (fs_names fs))" "fst ` set (fs_names fs)" cs] card_length [of "map fst (fs_names fs)"] by simp
  finally show ?thesis .
qed

text \<open>Names hang in directories, and not deeper than the walk goes.\<close>

definition treeClosed :: "fsys \<Rightarrow> bytes list \<Rightarrow> bool" where
  "treeClosed fs root \<longleftrightarrow> (\<forall>q n. nodeAt fs q = Some n \<and> prefix root q \<longrightarrow>
     dirsAbove fs q \<and> length q \<le> length root + walkDepth)"

lemma treeOf_complete:
  assumes "entryAt fs cs d" and "nodeAt fs q = Some m" and "prefix cs q" and "dirsAbove fs q" and "length q \<le> length cs + n"
  shows "q \<in> set (map fst (treeOf fs n cs d))"
  using assms
proof (induction n arbitrary: cs d)
  case 0
  then show ?case by (auto elim!: prefixE)
next
  case (Suc n)
  show ?case
  proof (cases "q = cs")
    case False
    with Suc.prems(3) obtain c rest where q: "q = cs @ c # rest" by (metis append_Nil2 list.exhaust prefixE)
    let ?p = "cs @ [c]"
    obtain k where k: "nodeAt fs ?p = Some k" "okComp c"
    proof (cases "rest = []")
      case True
      with q Suc.prems(2,4) that show ?thesis by (auto simp: dirsAbove_snoc)
    next
      case False
      with q Suc.prems(4) have "length ?p < length q" "take (length ?p) q = ?p" by auto
      with Suc.prems(4) obtain i where "nodeAt fs ?p = Some (NDir i)" unfolding dirsAbove_def by metis
      moreover have "okComp c" using Suc.prems(4) q by (simp add: dirsAbove_def)
      ultimately show ?thesis using that by blast
    qed
    let ?e = "\<lparr>de_name = c, de_kind = kindOf k, de_info = None\<rparr> :: dirEntry"
    have e: "?e \<in> set (entriesOf fs cs)" using entriesOf_names(2) [of ?p fs k] k by simp
    have "\<exists>i. nodeAt fs cs = Some (NDir i)" using Suc.prems(4) q by (auto simp: dirsAbove_def dest: spec [of _ "length cs"])
    with Suc.prems(1) have dir: "deIsDir d" by (auto simp: entryAt_def deIsDir_def)
    have "q \<in> set (map fst (treeOf fs n ?p ?e))"
      using Suc.prems q entryAt_child [OF Suc.prems(1) dir e] by (intro Suc.IH) auto
    with e dir show ?thesis by force
  qed simp
qed

lemma run_searchRoots_quiet:
  assumes "h_sched h = []" and "list_all canonPath (c_dirs c)" and "realDir (h_fs h) root"
    and "list_ex (\<lambda>d. prefix (pathComps d) root) (c_dirs c)" and "CHR 0x00 \<notin> set (absPath root)"
  shows "\<exists>h'. run_state (searchRoots c (absPath root)) h = (Inr [absPath root], h') \<and> calm (h_fs h) (h_ctx h) h'"
proof -
  obtain h1 where h1: "run_state (c_validate c (absPath root)) h = (Inr (absPath root), h1)"
    using Validate_real [OF assms(1) _ realDir_realPath [OF assms(3)] _ assms(5), of "c_guard c" "c_env c"] assms(2,4)
    by (auto simp: c_validate_def c_dirs_def AllowedDirs_def)
  have calm: "calm (h_fs h) (h_ctx h) h1"
    using state_io_relD [OF idlewalk.rel_Validate h1 [unfolded c_validate_def]] calm_self [OF assms(1)] calm_idle by blast
  from assms(3) obtain i where i: "nodeAt (h_fs h1) root = Some (NDir i)" "realPath (h_fs h1) root"
    using calm_same [OF calm] realDir_realPath by (auto simp: realDir_def)
  have "run_state (stat (absPath root)) h1 = (Inr (infoOf (h_fs h1) (NDir i)), applyTick quietTick h1)"
    by (rule run_stat_quiet [OF calm_sched [OF calm] i(2,1)])
  moreover have "absPath root \<noteq> []" by (simp add: absPath_def)
  ultimately show ?thesis
    using h1 calm_tick [OF calm] by (auto simp: searchRoots_def run_bindE run_mapErr fi_kind_infoOf)
qed

section \<open>Callbacks that always go on\<close>

text \<open>\<open>seen\<close> is what a visit makes of the walk's state, and \<open>room\<close> says that the state allows the visits to
  come.\<close>

locale quiet_walk =
  fixes fn :: "'s walkFn" and fs :: fsys and x :: "(nat \<times> ctxErr) option" and root :: "bytes list"
    and seen :: "'s \<Rightarrow> bytes list \<times> dirEntry \<Rightarrow> 's" and room :: "'s \<Rightarrow> (bytes list \<times> dirEntry) list \<Rightarrow> bool"
  assumes visit: "calm fs x h \<Longrightarrow> entryAt fs cs d \<Longrightarrow> prefix root cs \<Longrightarrow> room s ((cs, d) # es) \<Longrightarrow>
      \<exists>h'. run_state (fn (absPath cs) (Some d) None s) h = ((WNext, seen s (cs, d)), h') \<and> calm fs x h' \<and> room (seen s (cs, d)) es"
    and unread: "deIsDir d \<Longrightarrow> run_state (fn p (Some d) (Some e) s) h = ((WSkipDir, s), h)"
begin

definition walked :: "'s \<Rightarrow> (bytes list \<times> dirEntry) list \<Rightarrow> (bytes list \<times> dirEntry) list \<Rightarrow> (verdict \<times> 's) \<times> host \<Rightarrow> bool" where
  "walked s es rest r \<longleftrightarrow> fst r = (WNext, foldl seen s es) \<and> calm fs x (snd r) \<and> room (foldl seen s es) rest"

lemma walkEntries_walked:
  assumes "\<And>e h s rest. e \<in> set ds \<Longrightarrow> calm fs x h \<Longrightarrow> room s (treeOf fs n (cs @ [de_name e]) e @ rest) \<Longrightarrow>
      walked s (treeOf fs n (cs @ [de_name e]) e) rest (run_state (walkDir fn n (absPath (cs @ [de_name e])) e s) h)"
    and "list_all okComp cs" and "list_all (\<lambda>e. okComp (de_name e)) ds"
    and "calm fs x h" and "room s (concat (map (\<lambda>e. treeOf fs n (cs @ [de_name e]) e) ds) @ rest)"
  shows "walked s (concat (map (\<lambda>e. treeOf fs n (cs @ [de_name e]) e) ds)) rest (run_state (walkEntries fn n (absPath cs) ds s) h)"
  using assms
proof (induction ds arbitrary: h s)
  case (Cons e ds)
  let ?t = "treeOf fs n (cs @ [de_name e]) e"
  have j: "Join [absPath cs, de_name e] = absPath (cs @ [de_name e])"
    using Cons.prems(2,3) by (intro Join_absPath) simp
  obtain h1 where h1: "run_state (walkDir fn n (absPath (cs @ [de_name e])) e s) h = ((WNext, foldl seen s ?t), h1)"
      "calm fs x h1" "room (foldl seen s ?t) (concat (map (\<lambda>e. treeOf fs n (cs @ [de_name e]) e) ds) @ rest)"
    using Cons.prems(1) [of e h s] Cons.prems(4,5) by (auto simp: walked_def prod_eq_iff)
  have "walked (foldl seen s ?t) (concat (map (\<lambda>e. treeOf fs n (cs @ [de_name e]) e) ds)) rest
      (run_state (walkEntries fn n (absPath cs) ds (foldl seen s ?t)) h1)"
    using Cons.prems h1(2,3) by (intro Cons.IH) auto
  then show ?case using h1(1) j by (simp add: walked_def del: Join.simps)
qed (simp add: walked_def)

lemma walkDir_walked:
  assumes "entryAt fs cs d" and "prefix root cs" and "calm fs x h" and "room s (treeOf fs n cs d @ rest)"
  shows "walked s (treeOf fs n cs d) rest (run_state (walkDir fn n (absPath cs) d s) h)"
  using assms
proof (induction n arbitrary: cs d h s rest)
  case 0
  from visit [OF 0(3,1,2), of s rest] 0(4) show ?case
    by (auto simp: walked_def visitEntry_def readFailed_def unread absorb_def)
next
  case (Suc n)
  let ?kids = "concat (map (\<lambda>e. treeOf fs n (cs @ [de_name e]) e) (entriesOf fs cs))"
  obtain h1 where h1: "run_state (fn (absPath cs) (Some d) None s) h = ((WNext, seen s (cs, d)), h1)" "calm fs x h1"
      "room (seen s (cs, d)) (if deIsDir d then ?kids @ rest else rest)"
  proof -
    have "treeOf fs (Suc n) cs d @ rest = (cs, d) # (if deIsDir d then ?kids @ rest else rest)" by simp
    with Suc.prems(4) have "room s ((cs, d) # (if deIsDir d then ?kids @ rest else rest))" by (simp only:)
    from visit [OF Suc.prems(3,1,2) this] that show ?thesis by blast
  qed
  show ?case
  proof (cases "deIsDir d")
    case False
    with h1 show ?thesis by (simp add: walked_def visitEntry_def absorb_def)
  next
    case True
    have "realDir (h_fs h1) cs" using entryAt_realDir [OF Suc.prems(1) True] calm_same [OF h1(2)] by simp
    then have rd: "run_state (readDir (absPath cs)) h1 = (Inr (entriesOf fs cs), applyTick quietTick h1)"
      using run_readDir_quiet [OF calm_sched [OF h1(2)]] calm_same [OF h1(2)] by simp
    have names: "list_all (\<lambda>e. okComp (de_name e)) (entriesOf fs cs)" by (auto simp: entriesOf_def list_all_iff)
    have ok: "list_all okComp cs" using Suc.prems(1) by (simp add: entryAt_def dirsAbove_def)
    have "walked (seen s (cs, d)) ?kids rest (run_state (walkEntries fn n (absPath cs) (entriesOf fs cs) (seen s (cs, d))) (applyTick quietTick h1))"
    proof (rule walkEntries_walked [OF _ ok names])
      show "walked s' (treeOf fs n (cs @ [de_name e]) e) rest' (run_state (walkDir fn n (absPath (cs @ [de_name e])) e s') h')"
        if "e \<in> set (entriesOf fs cs)" "calm fs x h'" "room s' (treeOf fs n (cs @ [de_name e]) e @ rest')" for e h' s' rest'
        using that Suc.prems(2) entryAt_child [OF Suc.prems(1) True that(1)] by (intro Suc.IH) auto
    qed (use h1(2,3) True in auto)
    with h1(1) rd True show ?thesis by (simp add: walked_def visitEntry_def)
  qed
qed

text \<open>From a root that is a directory.\<close>

lemma WalkDir_walked:
  assumes "calm fs x h" and "nodeAt fs root = Some (NDir i)" and "dirsAbove fs root"
    and "d = \<lparr>de_name = Base (absPath root), de_kind = KDir, de_info = Some (infoOf fs (NDir i))\<rparr>"
    and "room s (treeOf fs walkDepth root d)"
  shows "\<exists>h'. run_state (WalkDir fn (absPath root) s) h = ((None, foldl seen s (treeOf fs walkDepth root d)), h') \<and> calm fs x h'"
proof -
  have kind: "fi_kind (infoOf fs (NDir i)) = KDir" by (simp add: infoOf_def)
  have lstat: "run_state (lstat (absPath root)) h = (Inr (infoOf fs (NDir i)), applyTick quietTick h)"
    using run_lstat_quiet [OF calm_sched [OF assms(1)]] assms(2,3) calm_same [OF assms(1)] by simp
  have "entryAt fs root d" using assms(2-4) by (simp add: entryAt_def deIsDir_def)
  from walkDir_walked [OF this _ calm_tick [OF assms(1)], of s walkDepth "[]"] assms(4,5) lstat
  show ?thesis by (auto simp: WalkDir_def kind walked_def prod_eq_iff split: prod.splits)
qed

end

section \<open>The machine of the concrete runs\<close>

lemma demoTree: "nodeAt (h_fs demoHost) q = (if q = [] then Some (NDir 0) else if q = [''d''] then Some (NDir 1)
      else if q = [''d'', ''f''] then Some (NFile 2) else if q = [''l''] then Some (NLink ''/d'') else None)"
  by (auto simp: demoHost_def emptyFs_def nodeAt_def)

lemma demoRoot: "realDir (h_fs demoHost) [''d'']" "treeClosed (h_fs demoHost) [''d'']"
proof -
  let ?fs = "h_fs demoHost"
  have ok: "okComp ''d''" "okComp ''f''" by (auto simp: okComp_def slash_def dot_def dotdot_def)
  show real: "realDir ?fs [''d'']" using ok by (simp add: realDir_def dirsAbove_def demoTree)
  then have "dirsAbove ?fs [''d'', ''f'']" using ok dirsAbove_snoc [of ?fs "[''d'']" "''f''"] by simp
  then show "treeClosed ?fs [''d'']"
    using real by (auto simp: treeClosed_def demoTree walkDepth_def realDir_def split: if_splits)
qed

end
