(* ===== verification/GlobExact.thy ===== *)
theory GlobExact
  imports QuietWalk
begin

text \<open>
  What \<open>glob\<close> answers on a machine where nobody else writes: exactly the set of matching files, sorted.
\<close>

section \<open>The walk\<close>

definition globHit :: "fsys \<Rightarrow> doublestar \<Rightarrow> bytes \<Rightarrow> bytes list \<Rightarrow> bytes list \<times> dirEntry \<Rightarrow> globMatch list" where
  "globHit fs D pat root e =
     (if \<not> deIsDir (snd e) \<and> ds_Match D pat (relText root (fst e)) = Inr True
      then [\<lparr>gm_path = absPath (fst e), gm_mtime = fi_mtime (infoOf fs (the (nodeAt fs (fst e))))\<rparr>] else [])"

definition globSeen :: "fsys \<Rightarrow> doublestar \<Rightarrow> bytes \<Rightarrow> bytes list \<Rightarrow> (bytes list \<times> dirEntry) list \<Rightarrow> globState \<Rightarrow> globState" where
  "globSeen fs D pat root es s = s\<lparr>gs_matches := gs_matches s @ concat (map (globHit fs D pat root) es),
     gs_scanned := gs_scanned s + length es\<rparr>"

lemma globSeen_simps [simp]:
  "globSeen fs D pat root [] s = s"
  "globSeen fs D pat root es2 (globSeen fs D pat root es1 s) = globSeen fs D pat root (es1 @ es2) s"
  "gs_scanned (globSeen fs D pat root es s) = gs_scanned s + length es"
  "gs_stopped (globSeen fs D pat root es s) = gs_stopped s"
  by (simp_all add: globSeen_def)

lemma foldl_globSeen: "foldl (\<lambda>s e. globSeen fs D pat root [e] s) s es = globSeen fs D pat root es s"
  by (induction es arbitrary: s) simp_all

text \<open>No pattern error, and fewer entries than the scan limit.\<close>

definition matchTotal :: "doublestar \<Rightarrow> bytes \<Rightarrow> bool" where
  "matchTotal D pat \<longleftrightarrow> (\<forall>rel. \<exists>b. ds_Match D pat rel = Inr b)"

definition globRoom :: "doublestar \<Rightarrow> bytes \<Rightarrow> globState \<Rightarrow> (bytes list \<times> dirEntry) list \<Rightarrow> bool" where
  "globRoom D pat s es \<longleftrightarrow> matchTotal D pat \<and> gs_scanned s + length es < globScanLimit"

lemma globVisit_quiet:
  assumes "calm fs x h" and "entryAt fs cs d" and "prefix root cs" and "globRoom D pat s ((cs, d) # es)"
  shows "\<exists>h'. run_state (globVisit D pat (absPath root) (absPath cs) (Some d) None s) h =
    ((WNext, globSeen fs D pat root [(cs, d)] s), h') \<and> calm fs x h' \<and> globRoom D pat (globSeen fs D pat root [(cs, d)] s) es"
proof -
  note same = calm_same [OF assms(1)]
  from assms(3) obtain ds where ds: "cs = root @ ds" by (rule prefixE)
  have ok: "list_all okComp cs" "list_all okComp root" using assms(2) ds by (simp_all add: entryAt_def dirsAbove_def)
  have room: "gs_scanned s + 1 < globScanLimit" "globRoom D pat (globSeen fs D pat root [(cs, d)] s) es"
    using assms(4) by (auto simp: globRoom_def)
  have rel: "Rel (absPath root) (absPath cs) = Some (relText root cs)"
    using Rel_below [of "absPath root" "absPath cs" ds] ok ds by (simp add: relText_def)
  show ?thesis
  proof (cases "deIsDir d")
    case True
    with assms(1) room show ?thesis by (auto simp: globVisit_def globSeen_def globHit_def Let_def)
  next
    case fileEntry: False
    from assms(4) obtain b where b: "ds_Match D pat (relText root cs) = Inr b" by (auto simp: globRoom_def matchTotal_def)
    show ?thesis
    proof (cases b)
      case False
      with assms(1) room fileEntry rel b show ?thesis by (auto simp: globVisit_def globSeen_def globHit_def Let_def)
    next
      case True
      from assms(2) fileEntry obtain n where n: "dirsAbove fs cs" "nodeAt fs cs = Some n" "de_info d = None"
        by (auto simp: entryAt_def)
      then have "run_state (lstat (absPath cs)) h = (Inr (infoOf fs n), applyTick quietTick h)"
        using run_lstat_quiet [of h cs] calm_sched [OF assms(1)] same by simp
      with True fileEntry rel b n room calm_tick [OF assms(1)] show ?thesis
        by (auto simp: globVisit_def globSeen_def globHit_def deInfo_def Let_def)
    qed
  qed
qed

interpretation globquiet: quiet_walk "globVisit D pat (absPath root)" fs x root "\<lambda>s e. globSeen fs D pat root [e] s" "globRoom D pat"
  for D pat root fs x
  by unfold_locales (fact globVisit_quiet, simp add: globVisit_def)

section \<open>The exact answer\<close>

definition newer :: "globMatch \<Rightarrow> globMatch \<Rightarrow> bool" where
  "newer a b \<longleftrightarrow> gm_mtime b < gm_mtime a \<or> gm_mtime a = gm_mtime b \<and> gm_path a \<le> gm_path b"

lemma globOrder_sorted: "sorted_wrt newer (globOrder ms)" and globOrder_mset: "mset (globOrder ms) = mset ms"
proof -
  have "sorted (map (\<lambda>m. GlobKey (gm_mtime m) (gm_path m)) (globOrder ms))" by (simp add: globOrder_def)
  then show "sorted_wrt newer (globOrder ms)"
    unfolding sorted_map by (rule sorted_wrt_mono_rel [rotated]) (auto simp: newer_def less_eq_globKey_def split: if_splits)
qed (simp add: globOrder_def)

text \<open>The files that a pattern matches below a root.\<close>

definition globAll :: "fsys \<Rightarrow> doublestar \<Rightarrow> bytes \<Rightarrow> bytes list \<Rightarrow> globMatch set" where
  "globAll fs D pat root = {\<lparr>gm_path = absPath q, gm_mtime = fi_mtime (infoOf fs n)\<rparr> |q n.
     prefix root q \<and> nodeAt fs q = Some n \<and> kindOf n \<noteq> KDir \<and> ds_Match D pat (relText root q) = Inr True}"

lemma globHits:
  fixes D :: doublestar and pat :: bytes
  assumes "entryAt fs root d" and "treeClosed fs root" and "deIsDir d"
  defines "ms \<equiv> concat (map (globHit fs D pat root) (treeOf fs walkDepth root d))"
  shows "distinct ms" and "set ms = globAll fs D pat root"
proof -
  let ?es = "treeOf fs walkDepth root d"
  have e: "entryAt fs q e" "prefix root q" if "(q, e) \<in> set ?es" for q e
    using treeOf_entryAt [OF assms(1) that] by simp_all
  have "distinct (map fst ?es)" by (rule treeOf_names(1) [OF assms(1)])
  then have "inj_on fst (set ?es)" "distinct ?es" by (simp_all add: distinct_map)
  then show "distinct ms"
    unfolding ms_def
  proof (intro distinct_concat_map)
    fix x y m
    assume x: "x \<in> set ?es" "y \<in> set ?es" "m \<in> set (globHit fs D pat root x)" "m \<in> set (globHit fs D pat root y)"
    then have "absPath (fst x) = absPath (fst y)" by (auto simp: globHit_def split: if_splits)
    moreover have "list_all okComp (fst x)" "list_all okComp (fst y)"
      using e x(1,2) by (metis entryAt_def dirsAbove_def prod.collapse)+
    ultimately have "fst x = fst y" by (simp add: absPath_inject)
    with x(1,2) \<open>inj_on fst (set ?es)\<close> show "x = y" by (simp add: inj_on_def)
  qed (simp_all add: globHit_def)
  show "set ms = globAll fs D pat root"
  proof (intro set_eqI iffI)
    fix m
    assume "m \<in> set ms"
    then obtain q e where qe: "(q, e) \<in> set ?es" "m \<in> set (globHit fs D pat root (q, e))" by (auto simp: ms_def)
    with e [OF qe(1)] show "m \<in> globAll fs D pat root"
      by (auto simp: globHit_def globAll_def entryAt_def deIsDir_def split: if_splits)
  next
    fix m
    assume "m \<in> globAll fs D pat root"
    then obtain q n where q: "m = \<lparr>gm_path = absPath q, gm_mtime = fi_mtime (infoOf fs n)\<rparr>" "prefix root q"
      "nodeAt fs q = Some n" "kindOf n \<noteq> KDir" "ds_Match D pat (relText root q) = Inr True"
      by (auto simp: globAll_def)
    with assms(2) have "dirsAbove fs q" "length q \<le> length root + walkDepth" by (auto simp: treeClosed_def)
    then have "q \<in> set (map fst ?es)" by (rule treeOf_complete [OF assms(1) q(3,2)])
    then obtain d' where d': "(q, d') \<in> set ?es" by auto
    with e(1) [OF d'] q show "m \<in> set ms"
      by (auto simp: ms_def globHit_def entryAt_def deIsDir_def intro!: bexI [of _ "(q, d')"])
  qed
qed

lemma run_globWalks_quiet:
  assumes "calm fs x h" and "realDir fs root" and "treeClosed fs root" and "matchTotal D pat"
    and "length (fs_names fs) + 1 < globScanLimit"
  shows "\<exists>ms k h'. run_state (globWalks D pat [absPath root] \<lparr>gs_matches = [], gs_scanned = 0, gs_stopped = False\<rparr>) h =
      (Inr \<lparr>gs_matches = ms, gs_scanned = k, gs_stopped = False\<rparr>, h') \<and> distinct ms \<and> set ms = globAll fs D pat root"
proof -
  let ?s = "\<lparr>gs_matches = [], gs_scanned = 0, gs_stopped = False\<rparr>"
  from assms(2) obtain i where i: "dirsAbove fs root" "nodeAt fs root = Some (NDir i)" by (auto simp: realDir_def)
  define d where "d = \<lparr>de_name = Base (absPath root), de_kind = KDir, de_info = Some (infoOf fs (NDir i))\<rparr>"
  have dir: "deIsDir d" and e: "entryAt fs root d" using i by (simp_all add: entryAt_def deIsDir_def d_def)
  let ?t = "treeOf fs walkDepth root d"
  have "length ?t \<le> length (fs_names fs) + 1" by (rule treeOf_length [OF e])
  then have "globRoom D pat ?s ?t" using assms(4,5) by (simp add: globRoom_def)
  from globquiet.WalkDir_walked [OF assms(1) i(2,1) d_def this] obtain h' where
    "run_state (WalkDir (globVisit D pat (absPath root)) (absPath root) ?s) h = ((None, globSeen fs D pat root ?t ?s), h')"
    by (auto simp: foldl_globSeen)
  then have "run_state (globWalks D pat [absPath root] ?s) h = (Inr (globSeen fs D pat root ?t ?s), h')" by simp
  with globHits [OF e assms(3) dir, of D pat] show ?thesis by (auto simp: globSeen_def)
qed

text \<open>C19. On a quiet machine \<open>glob\<close> below a real directory inside an allowed one answers exactly the files and
  links in the tree below it whose relative path the pattern matches, each once, newest first and ties by
  path, cut after 200 with a note that says so; that holds for any tree smaller than the scan limit and
  not deeper than the kernel's path limit allows.\<close>

theorem glob_exact:
  assumes "h_sched h = []" and "list_all canonPath (c_dirs c)" and "realDir (h_fs h) root"
    and "list_ex (\<lambda>d. prefix (pathComps d) root) (c_dirs c)" and "CHR 0x00 \<notin> set (absPath root)"
    and "treeClosed (h_fs h) root" and "length (fs_names (h_fs h)) + 1 < globScanLimit"
    and "gi_Path inp = absPath root" and "gi_Pattern inp \<noteq> []" and "ds_ValidatePattern D (gi_Pattern inp)"
    and "matchTotal D (gi_Pattern inp)"
  shows "\<exists>ms out h'. run_state (Glob c D inp) h = (Inr out, h') \<and>
    distinct ms \<and> set ms = globAll (h_fs h) D (gi_Pattern inp) root \<and> sorted_wrt newer ms \<and>
    go_Files out = map gm_path (take 200 ms) \<and>
    go_Note out = (if length ms > 200
      then ''showing 200 of '' @ itoa (int (length ms)) @ '' matches (limit 200); narrow the pattern or set path to a subdirectory''
      else [])"
proof -
  obtain h1 where h1: "run_state (searchRoots c (absPath root)) h = (Inr [absPath root], h1)" "calm (h_fs h) (h_ctx h) h1"
    using run_searchRoots_quiet [OF assms(1-5)] by blast
  obtain ms k h2 where ms: "run_state (globWalks D (gi_Pattern inp) [absPath root] \<lparr>gs_matches = [], gs_scanned = 0, gs_stopped = False\<rparr>) h1 =
      (Inr \<lparr>gs_matches = ms, gs_scanned = k, gs_stopped = False\<rparr>, h2)"
    "distinct ms" "set ms = globAll (h_fs h) D (gi_Pattern inp) root"
    using run_globWalks_quiet [OF h1(2) assms(3,6,11,7)] by blast
  have run: "run_state (Glob c D inp) h = (Inr (globOutput \<lparr>gs_matches = ms, gs_scanned = k, gs_stopped = False\<rparr>), h2)"
    using assms(8-10) h1(1) ms(1) by (simp add: Glob_def run_bindE del: globWalks.simps)
  have "distinct (globOrder ms)" "set (globOrder ms) = set ms"
    using ms(2) by (simp_all add: globOrder_def)
  moreover have "itoa 200 = ''200''" by code_simp
  ultimately show ?thesis
    using run ms(3) globOrder_sorted [of ms] mset_eq_length [OF globOrder_mset [of ms]]
    by (intro exI [of _ "globOrder ms"]) (simp add: globOutput_def globMaxResults_def Let_def)
qed

lemma glob_exact_witness:
  "\<exists>out h'. run_state (Glob demoSearch demoStar demoGlob) demoHost = (Inr out, h') \<and> go_Files out = [''/d/f''] \<and> go_Note out = []"
proof -
  let ?fs = "h_fs demoHost"
  have "\<exists>ms out h'. run_state (Glob demoSearch demoStar demoGlob) demoHost = (Inr out, h') \<and>
    distinct ms \<and> set ms = globAll ?fs demoStar (gi_Pattern demoGlob) [''d''] \<and> sorted_wrt newer ms \<and>
    go_Files out = map gm_path (take 200 ms) \<and>
    go_Note out = (if length ms > 200
      then ''showing 200 of '' @ itoa (int (length ms)) @ '' matches (limit 200); narrow the pattern or set path to a subdirectory''
      else [])"
  proof (rule glob_exact)
    show "h_sched demoHost = []" by (simp add: demoHost_def emptyHost_def)
    show "list_all canonPath (c_dirs demoSearch)" by code_simp
    show "realDir ?fs [''d'']" "treeClosed ?fs [''d'']" by (fact demoRoot)+
    show "list_ex (\<lambda>d. prefix (pathComps d) [''d'']) (c_dirs demoSearch)" by code_simp
    show "CHR 0x00 \<notin> set (absPath [''d''])" by code_simp
    show "length (fs_names ?fs) + 1 < globScanLimit" by (simp add: demoHost_def emptyFs_def globScanLimit_def)
    show "gi_Path demoGlob = absPath [''d'']" by code_simp
    show "gi_Pattern demoGlob \<noteq> []" by (simp add: demoGlob_def)
    show "ds_ValidatePattern demoStar (gi_Pattern demoGlob)" "matchTotal demoStar (gi_Pattern demoGlob)"
      by (auto simp: demoStar_def matchTotal_def)
  qed
  then obtain ms out h' where g: "run_state (Glob demoSearch demoStar demoGlob) demoHost = (Inr out, h')" "distinct ms"
    "set ms = globAll ?fs demoStar (gi_Pattern demoGlob) [''d'']" "go_Files out = map gm_path (take 200 ms)"
    "length ms \<le> 200 \<longrightarrow> go_Note out = []" by auto
  have "globAll ?fs demoStar (gi_Pattern demoGlob) [''d''] = {\<lparr>gm_path = absPath [''d'', ''f''], gm_mtime = fi_mtime (infoOf ?fs (NFile 2))\<rparr>}"
    by (auto simp: globAll_def demoTree demoStar_def split: if_splits)
  with g(2,3) have "ms = [\<lparr>gm_path = absPath [''d'', ''f''], gm_mtime = fi_mtime (infoOf ?fs (NFile 2))\<rparr>]"
    by (cases ms; cases "tl ms") (auto simp: insert_eq_iff)
  moreover have "absPath [''d'', ''f''] = ''/d/f''" by code_simp
  ultimately show ?thesis using g by auto
qed

end
