(* ===== verification/GrepTool.thy ===== *)
theory GrepTool
  imports GlobTool
begin

text \<open>
  The \<open>grep\<close> handler (\<open>grep.go\<close>): argument checks, the command line for \<open>rg\<close> and the reading of its
  outcome, the fallback engine with its line collector, and the server-side limit. Outside the program,
  and parameters, are \<open>rg\<close> itself (\<open>gl_rg\<close>: what a run with given arguments prints and how it ends),
  the compiler of regular expressions and \<open>doublestar\<close>. The deadline of the fallback is that of the
  context at depth 1. \<open>Scanner\<close> reads a file in one step; log lines are not modelled.
\<close>

record GrepInput =
  si_Pattern :: bytes
  si_Path :: bytes
  si_Glob :: bytes
  si_OutputMode :: bytes
  si_CaseInsensitive :: bool
  si_Context :: int
  si_HeadLimit :: int

record GrepOutput =
  gr_Results :: "bytes list"
  gr_Note :: bytes

text \<open>How a subprocess ended: well, with an exit code (negative for a signal), or it did not run.\<close>

datatype rgExit = RgOk | RgCode int | RgNotRun

record rgOutcome =
  rg_stdout :: bytes
  rg_stderr :: bytes
  rg_exit :: rgExit
  rg_errText :: bytes

record grepLib =
  gl_rgBin :: bytes
  gl_rg :: "host \<Rightarrow> bytes list \<Rightarrow> rgOutcome"
  gl_Compile :: "bytes \<Rightarrow> (bytes, bytes \<Rightarrow> bool) result"

definition grepModeFiles :: bytes where "grepModeFiles = ''files_with_matches''"
definition grepModeCount :: bytes where "grepModeCount = ''count''"
definition grepModeOutput :: bytes where "grepModeOutput = ''content''"
definition grepFallbackNote :: bytes where "grepFallbackNote = ''fallback engine (rg unavailable); no ignore-file semantics''"
definition binarySniffLen :: nat where "binarySniffLen = 8 * 1024"
definition grepScanLineMax :: nat where "grepScanLineMax = 1024 * 1024"

section \<open>ripgrep\<close>

definition buildRGArgs :: "GrepInput \<Rightarrow> bytes \<Rightarrow> bytes list \<Rightarrow> bytes list" where
  "buildRGArgs inp mode roots =
     [''--with-filename'', ''--no-heading''] @
     (if mode = grepModeFiles then [''-l'']
      else if mode = grepModeOutput then [''-n'']
      else if mode = grepModeCount then [''-c''] else []) @
     (if si_CaseInsensitive inp then [''-i''] else []) @
     (if si_Context inp > 0 \<and> mode = grepModeOutput then [''-C'', itoa (si_Context inp)] else []) @
     (if si_Glob inp \<noteq> [] then [''--glob'', si_Glob inp] else []) @
     [''-e'', si_Pattern inp] @ roots"

definition splitResultLines :: "bytes \<Rightarrow> bytes list" where
  "splitResultLines out = rev (dropWhile (\<lambda>l. l = []) (rev (split out [CHR 0x0A])))"

definition firstLine :: "bytes \<Rightarrow> bytes" where
  "firstLine s =
     (case filter (\<lambda>t. t \<noteq> []) (map trimSpace (split s [CHR 0x0A])) of
        t # _ \<Rightarrow> t
      | [] \<Rightarrow> trimSpace s)"

definition badRegex :: "Conn \<Rightarrow> GrepInput \<Rightarrow> bytes \<Rightarrow> goerr" where
  "badRegex c inp msg =
     PlainErr (''invalid regular expression '' @ goQuote (env_isPrint (c_env c)) (si_Pattern inp) @ '': '' @ msg)"

text \<open>The result lines and whether the search timed out.\<close>

definition grepRG :: "Conn \<Rightarrow> grepLib \<Rightarrow> GrepInput \<Rightarrow> bytes \<Rightarrow> bytes list \<Rightarrow> (bytes list \<times> bool) ioe" where
  "grepRG c G inp mode roots =
     withTimeout 1 \<bind> (\<lambda>_.
     nextTick \<bind> (\<lambda>t.
     gets (\<lambda>h. gl_rg G h (buildRGArgs inp mode roots)) \<bind> (\<lambda>out.
     gets (ctxErrAt (Some 1)) \<bind> (\<lambda>ended.
     if ended = Some (CtxErr DeadlineExceeded) then ok (splitResultLines (rg_stdout out), True)
     else
       case rg_exit out of
         RgOk \<Rightarrow> ok (splitResultLines (rg_stdout out), False)
       | RgNotRun \<Rightarrow> err (WrapErr (''rg failed to run: '' @ rg_errText out) (PlainErr (rg_errText out)))
       | RgCode code \<Rightarrow>
           if code = 1 then ok ([], False)
           else if code \<ge> 2 then
             (let msg = firstLine (rg_stderr out)
              in if contains msg ''regex parse error'' then err (badRegex c inp msg)
                 else err (PlainErr (''rg exited with code '' @ itoa code @ '': '' @ msg)))
           else err (PlainErr (''rg terminated abnormally ('' @ rg_errText out @ '')''))))))"

section \<open>The collector of the fallback\<close>

record grepCollector =
  gc_mode :: bytes
  gc_contextLines :: int
  gc_lines :: "bytes list"
  gc_curPath :: bytes
  gc_texts :: "bytes list"
  gc_matches :: "nat list"
  gc_emitted :: bool

definition col_line :: "bytes \<Rightarrow> nat \<Rightarrow> bytes \<Rightarrow> bool \<Rightarrow> grepCollector \<Rightarrow> grepCollector" where
  "col_line path lineNo line matched c =
     (if gc_mode c = grepModeOutput then
        (let c1 = (if gc_texts c = [] then c\<lparr>gc_curPath := path, gc_matches := []\<rparr> else c);
             c2 = c1\<lparr>gc_texts := gc_texts c1 @ [line]\<rparr>
         in if matched then c2\<lparr>gc_matches := gc_matches c2 @ [lineNo]\<rparr> else c2)
      else if gc_mode c = grepModeCount then
        (if matched then
           (let prev = (if gc_lines c = [] then [] else last (gc_lines c))
            in case (if gc_lines c \<noteq> [] \<and> hasPrefix prev (path @ '':'') then atoi (drop (length path + 1) prev) else None) of
                 Some n \<Rightarrow> c\<lparr>gc_lines := butlast (gc_lines c) @ [path @ '':'' @ itoa (n + 1)]\<rparr>
               | None \<Rightarrow> c\<lparr>gc_lines := gc_lines c @ [path @ '':1'']\<rparr>)
         else c)
      else if matched \<and> (gc_lines c = [] \<or> last (gc_lines c) \<noteq> path) then c\<lparr>gc_lines := gc_lines c @ [path]\<rparr>
      else c)"

text \<open>Go's \<open>int\<close> arithmetic: the sum of a line number and a huge context wraps around.\<close>

definition int64 :: "int \<Rightarrow> int" where
  "int64 x = (x + 2 ^ 63) mod 2 ^ 64 - 2 ^ 63"

text \<open>The spans of lines to print: the loop over the line numbers, the spans so far in reverse.\<close>

fun spanLoop :: "int \<Rightarrow> nat list \<Rightarrow> int \<Rightarrow> (int \<times> int) list \<Rightarrow> nat list \<Rightarrow> (int \<times> int) list" where
  "spanLoop ctx ms n spans [] = rev spans"
| "spanLoop ctx ms n spans (ln # lns) =
     (if ln \<notin> set ms then spanLoop ctx ms n spans lns
      else
        let lo0 = int64 (int ln - ctx); hi0 = int64 (int ln + ctx);
            lo = (if lo0 < 1 then 1 else lo0); hi = (if hi0 > n then n else hi0)
        in case spans of
             (slo, shi) # rest \<Rightarrow>
               if lo \<le> shi + 1 then spanLoop ctx ms n ((slo, (if hi > shi then hi else shi)) # rest) lns
               else spanLoop ctx ms n ((lo, hi) # spans) lns
           | [] \<Rightarrow> spanLoop ctx ms n [(lo, hi)] lns)"

definition outLine :: "grepCollector \<Rightarrow> int \<Rightarrow> bytes" where
  "outLine c ln =
     (let sep = (if nat ln \<in> set (gc_matches c) then '':'' else ''-'')
      in gc_curPath c @ sep @ itoa ln @ sep @ (gc_texts c ! (nat ln - 1)))"

fun emitSpans :: "(int \<times> int) list \<Rightarrow> grepCollector \<Rightarrow> grepCollector" where
  "emitSpans [] c = c"
| "emitSpans ((lo, hi) # sps) c =
     emitSpans sps (c\<lparr>gc_lines := gc_lines c @
         (if gc_emitted c \<and> gc_contextLines c > 0 then [''--''] else []) @ map (outLine c) [lo..hi],
       gc_emitted := True\<rparr>)"

definition endFile :: "grepCollector \<Rightarrow> grepCollector" where
  "endFile c =
     (if gc_mode c \<noteq> grepModeOutput \<or> gc_texts c = [] then c
      else
        (if gc_matches c = [] then c
         else emitSpans (spanLoop (gc_contextLines c) (gc_matches c) (int (length (gc_texts c))) []
             [1..<Suc (length (gc_texts c))]) c)
        \<lparr>gc_texts := [], gc_matches := [], gc_curPath := []\<rparr>)"

section \<open>One file\<close>

text \<open>\<open>bufio.ScanLines\<close> over the file, until a line does not fit into the buffer: the lines, and whether
  that happened.\<close>

definition dropCR :: "bytes \<Rightarrow> bytes" where
  "dropCR l = (if l \<noteq> [] \<and> last l = CHR 0x0D then butlast l else l)"

definition scanLines :: "bytes \<Rightarrow> bytes list \<times> bool" where
  "scanLines data =
     (let parts = split data [CHR 0x0A];
          ls = (if last parts = [] then butlast parts else parts);
          fit = takeWhile (\<lambda>l. length l < grepScanLineMax) ls
      in (map dropCR fit, length fit < length ls))"

fun feedLines :: "(bytes \<Rightarrow> bool) \<Rightarrow> bytes \<Rightarrow> nat \<Rightarrow> bytes list \<Rightarrow> grepCollector \<Rightarrow> grepCollector" where
  "feedLines re path lineNo [] c = c"
| "feedLines re path lineNo (l # ls) c =
     feedLines re path (lineNo + 1) ls (col_line path (lineNo + 1) l (re l) c)"

text \<open>\<open>os.Open\<close>: a directory opens, but its handle cannot be read.\<close>

definition opOpenKind :: "bytes list \<Rightarrow> (fkind \<times> handle) op" where
  "opOpenKind p fs =
     (case opOpen p fs of (r, fs', fx) \<Rightarrow>
        (map_sum (\<lambda>e. e) (Pair (case nodeAt fs p of Some n \<Rightarrow> kindOf n | None \<Rightarrow> KFile)) r, fs', fx))"

definition osOpen :: "bytes \<Rightarrow> (fkind \<times> handle) ioe" where
  "osOpen p = syscall (atKernel True p opOpenKind)"

definition readAllOf :: "fkind \<Rightarrow> handle \<Rightarrow> bytes ioe" where
  "readAllOf k f = (if k = KDir then failErrno EISDIR else fReadRest f)"

text \<open>The collector afterwards and the error, if the file was skipped or cut.\<close>

definition scanFile :: "(bytes \<Rightarrow> bool) \<Rightarrow> bytes \<Rightarrow> fkind \<Rightarrow> handle \<Rightarrow> grepCollector \<Rightarrow> (goerr option \<times> grepCollector) io" where
  "scanFile re path k f col =
     readAllOf k f \<bind> (\<lambda>r1.
     case r1 of
       Inl e \<Rightarrow> ret (Some e, col)
     | Inr sniffed \<Rightarrow>
         if CHR 0x00 \<in> set (take binarySniffLen sniffed) then ret (None, col)
         else
           readAllOf k f \<bind> (\<lambda>r2.
           case r2 of
             Inl e \<Rightarrow> ret (Some e, col)
           | Inr data \<Rightarrow>
               let (ls, tooLong) = scanLines data; col1 = feedLines re path 0 ls col
               in if tooLong then ret (Some (PlainErr ''bufio.Scanner: token too long''), col1)
                  else ret (None, endFile col1)))"

definition grepFallbackFile :: "(bytes \<Rightarrow> bool) \<Rightarrow> bytes \<Rightarrow> grepCollector \<Rightarrow> (goerr option \<times> grepCollector) io" where
  "grepFallbackFile re path col =
     osOpen path \<bind> (\<lambda>r.
     case r of
       Inl e \<Rightarrow> ret (Some e, col)
     | Inr (k, f) \<Rightarrow> scanFile re path k f col \<bind> (\<lambda>out. ignore (fClose f) \<bind> (\<lambda>_. ret out)))"

section \<open>The fallback engine\<close>

definition grepGlobIncludes :: "doublestar \<Rightarrow> bytes \<Rightarrow> bytes \<Rightarrow> bytes \<Rightarrow> bool" where
  "grepGlobIncludes D glob path rel =
     (if glob = [] then True
      else
        let neg = hasPrefix glob ''!''; pat = trimPrefix glob ''!'';
            target = (if contains pat [slash] then path else Base rel)
        in if ds_MatchUnvalidated D pat target then \<not> neg else neg)"

definition grepVisit :: "doublestar \<Rightarrow> (bytes \<Rightarrow> bool) \<Rightarrow> bytes \<Rightarrow> bytes \<Rightarrow> (grepCollector \<times> bool) walkFn" where
  "grepVisit D re glob root p d e s =
     (case (e, d) of
        (Some e, Some d) \<Rightarrow> ret (if deIsDir d then WSkipDir else WNext, s)
      | (Some e, None) \<Rightarrow> ret (WNext, s)
      | (None, None) \<Rightarrow> ret (WNext, s)
      | (None, Some d) \<Rightarrow>
          gets (ctxErrAt (Some 1)) \<bind> (\<lambda>ended.
          if ended \<noteq> None then ret (WSkipAll, (fst s, True))
          else if deIsDir d then ret (WNext, s)
          else
            case Rel root p of
              None \<Rightarrow> ret (WNext, s)
            | Some rel \<Rightarrow>
                if \<not> grepGlobIncludes D glob p rel then ret (WNext, s)
                else grepFallbackFile re p (fst s) \<bind> (\<lambda>(_, col). ret (WNext, (col, snd s)))))"

fun grepWalks :: "doublestar \<Rightarrow> (bytes \<Rightarrow> bool) \<Rightarrow> bytes \<Rightarrow> bytes list \<Rightarrow> grepCollector \<times> bool \<Rightarrow> (grepCollector \<times> bool) ioe" where
  "grepWalks D re glob [] s = ok s"
| "grepWalks D re glob (root # roots) s =
     (if snd s then ok s
      else
        WalkDir (grepVisit D re glob root) root s \<bind> (\<lambda>(e, s1).
        case e of
          Some e \<Rightarrow> err (WrapErr (''grep: walk '' @ root @ '': '' @ errText e) e)
        | None \<Rightarrow> grepWalks D re glob roots s1))"

definition newCollector :: "bytes \<Rightarrow> int \<Rightarrow> grepCollector" where
  "newCollector mode ctx = \<lparr>gc_mode = mode, gc_contextLines = ctx, gc_lines = [], gc_curPath = [], gc_texts = [],
     gc_matches = [], gc_emitted = False\<rparr>"

definition grepFallback :: "Conn \<Rightarrow> grepLib \<Rightarrow> doublestar \<Rightarrow> GrepInput \<Rightarrow> bytes \<Rightarrow> bytes list \<Rightarrow> (bytes list \<times> bool) ioe" where
  "grepFallback c G D inp mode roots =
     (case gl_Compile G ((if si_CaseInsensitive inp then ''(?i)'' else []) @ si_Pattern inp) of
        Inl msg \<Rightarrow> err (badRegex c inp msg)
      | Inr re \<Rightarrow>
          withTimeout 1 \<bind> (\<lambda>_.
          bindE (grepWalks D re (si_Glob inp) roots (newCollector mode (si_Context inp), False)) (\<lambda>(col, timedOut).
          ok (gc_lines (endFile col), timedOut))))"

section \<open>The handler\<close>

definition checkGrep :: "Conn \<Rightarrow> GrepInput \<Rightarrow> bytes \<Rightarrow> goerr option" where
  "checkGrep c inp mode =
     (if si_Pattern inp = [] then Some (PlainErr ''pattern must not be empty'')
      else if mode \<noteq> grepModeFiles \<and> mode \<noteq> grepModeCount \<and> mode \<noteq> grepModeOutput
        then Some (PlainErr (''invalid output_mode '' @ goQuote (env_isPrint (c_env c)) mode @
          '': must be one of files_with_matches, content, count''))
      else if si_Context inp < 0 then Some (PlainErr (''context must be >= 0, got '' @ itoa (si_Context inp)))
      else if si_Context inp > 0 \<and> mode \<noteq> grepModeOutput
        then Some (PlainErr ''context is only valid with output_mode=content'')
      else if si_HeadLimit inp < 0 then Some (PlainErr (''head_limit must be >= 0, got '' @ itoa (si_HeadLimit inp)))
      else None)"

definition grepOutput :: "GrepInput \<Rightarrow> bool \<Rightarrow> bytes list \<times> bool \<Rightarrow> GrepOutput" where
  "grepOutput inp fallback out =
     (let (lines, timedOut) = out; total = length lines;
          over = si_HeadLimit inp > 0 \<and> int total > si_HeadLimit inp;
          notes = (if fallback then [grepFallbackNote] else []) @
            (if timedOut then [''search timed out after 120s; results may be incomplete''] else []) @
            (if over then [''showing first '' @ itoa (si_HeadLimit inp) @ '' of '' @ itoa (int total) @ '' results''] else [])
      in \<lparr>gr_Results = (if over then take (nat (si_HeadLimit inp)) lines else lines), gr_Note = join notes ''; ''\<rparr>)"

definition Grep :: "Conn \<Rightarrow> grepLib \<Rightarrow> doublestar \<Rightarrow> GrepInput \<Rightarrow> GrepOutput ioe" where
  "Grep c G D inp =
     (let mode = (if si_OutputMode inp = [] then grepModeFiles else si_OutputMode inp)
      in case checkGrep c inp mode of
           Some e \<Rightarrow> err e
         | None \<Rightarrow>
             bindE (searchRoots c (si_Path inp)) (\<lambda>roots.
             let fallback = gl_rgBin G = []
             in bindE (if fallback then grepFallback c G D inp mode roots else grepRG c G inp mode roots) (\<lambda>out.
                ok (grepOutput inp fallback out))))"

end
