(* ===== verification/GrepLines.thy ===== *)
theory GrepLines
  imports GrepTool
begin

text \<open>
  What the collector of the \<open>grep\<close> fallback makes of the lines of one file, in each output mode, without its
  spans: a line is shown when a match is near enough, and a group of shown lines after others starts with
  \<open>--\<close>.
\<close>

section \<open>Reference definitions\<close>

text \<open>The numbers of the matching lines, counted from \<open>k + 1\<close>.\<close>

fun matchNos :: "(bytes \<Rightarrow> bool) \<Rightarrow> nat \<Rightarrow> bytes list \<Rightarrow> nat list" where
  "matchNos re k [] = []"
| "matchNos re k (l # ls) = (if re l then [k + 1] else []) @ matchNos re (k + 1) ls"

definition shown :: "nat list \<Rightarrow> int \<Rightarrow> int \<Rightarrow> int \<Rightarrow> bool" where
  "shown ms ctx n i \<longleftrightarrow> 1 \<le> i \<and> i \<le> n \<and> list_ex (\<lambda>j. \<bar>i - int j\<bar> \<le> ctx) ms"

definition shownLine :: "bytes \<Rightarrow> nat list \<Rightarrow> bytes list \<Rightarrow> int \<Rightarrow> bytes" where
  "shownLine path ms ls i =
     (let sep = (if nat i \<in> set ms then '':'' else ''-'') in path @ sep @ itoa i @ sep @ ls ! (nat i - 1))"

definition contentOf :: "(bytes \<Rightarrow> bool) \<Rightarrow> int \<Rightarrow> bool \<Rightarrow> bytes \<Rightarrow> bytes list \<Rightarrow> bytes list" where
  "contentOf re ctx later path ls =
     (let ms = matchNos re 0 ls; n = int (length ls)
      in concat (map (\<lambda>i. if \<not> shown ms ctx n i then []
           else (if 0 < ctx \<and> \<not> shown ms ctx n (i - 1) \<and> (later \<or> list_ex (shown ms ctx n) [1..i - 1]) then [''--''] else []) @
             [shownLine path ms ls i]) [1..n]))"

definition countOf :: "(bytes \<Rightarrow> bool) \<Rightarrow> bytes \<Rightarrow> bytes list \<Rightarrow> bytes list" where
  "countOf re path ls =
     (let k = length (filter re ls) in if k = 0 then [] else [path @ '':'' @ itoa (int k)])"

definition nameOf :: "(bytes \<Rightarrow> bool) \<Rightarrow> bytes \<Rightarrow> bytes list \<Rightarrow> bytes list" where
  "nameOf re path ls = (if list_ex re ls then [path] else [])"

section \<open>Spans\<close>

text \<open>Spans in the order of the file, apart from each other, within the lines \<open>1\<close> to \<open>n\<close>.\<close>

definition apart :: "int \<Rightarrow> (int \<times> int) list \<Rightarrow> bool" where
  "apart n sps \<longleftrightarrow> sorted_wrt (\<lambda>x y. snd x + 2 \<le> fst y) sps \<and> (\<forall>x\<in>set sps. 1 \<le> fst x \<and> fst x \<le> snd x \<and> snd x \<le> n)"

definition covered :: "(int \<times> int) list \<Rightarrow> int \<Rightarrow> bool" where
  "covered sps i \<longleftrightarrow> (\<exists>x\<in>set sps. fst x \<le> i \<and> i \<le> snd x)"

lemma int64_id: "- (2 ^ 63) \<le> x \<Longrightarrow> x < 2 ^ 63 \<Longrightarrow> int64 x = x"
  by (simp add: int64_def)

lemma covered_simps [simp]:
  "\<not> covered [] i" "covered ((a, b) # sps) i \<longleftrightarrow> a \<le> i \<and> i \<le> b \<or> covered sps i" "covered (rev sps) i \<longleftrightarrow> covered sps i"
  by (auto simp: covered_def)

lemma apart_snoc: "apart n (sps @ [(a, b)]) \<longleftrightarrow>
    apart n sps \<and> (\<forall>x\<in>set sps. snd x + 2 \<le> a) \<and> 1 \<le> a \<and> a \<le> b \<and> b \<le> n"
  by (auto simp: apart_def sorted_wrt_append)

text \<open>The loop: the spans cover what is shown by the matches so far, and the last one ends within their reach.\<close>

lemma spanLoop_covers:
  assumes "0 \<le> ctx" and "ctx + int n < 2 ^ 63" and "1 \<le> k" and "k \<le> Suc n"
    and "apart (int n) (rev spans)"
    and "\<And>i. covered spans i \<longleftrightarrow> shown (filter (\<lambda>j. j < k) ms) ctx (int n) i"
    and "spans \<noteq> [] \<Longrightarrow> fst (hd spans) \<le> max 1 (int k - ctx) \<and> snd (hd spans) < int k + ctx"
    and "set ms \<subseteq> {1..n}"
  shows "apart (int n) (spanLoop ctx ms (int n) spans [k..<Suc n]) \<and>
    (\<forall>i. covered (spanLoop ctx ms (int n) spans [k..<Suc n]) i \<longleftrightarrow> shown ms ctx (int n) i)"
  using assms(3-7)
proof (induction "Suc n - k" arbitrary: k spans)
  case 0
  then have "k = Suc n" by simp
  moreover have "filter (\<lambda>j. j < Suc n) ms = ms" using assms(8) by (intro filter_True) auto
  ultimately show ?case using 0 by simp
next
  case (Suc m)
  then have k: "k < Suc n" by simp
  then have ks: "[k..<Suc n] = k # [Suc k..<Suc n]" by (simp add: upt_conv_Cons)
  have shown_Suc: "shown (filter (\<lambda>j. j < Suc k) ms) ctx (int n) i \<longleftrightarrow>
      shown (filter (\<lambda>j. j < k) ms) ctx (int n) i \<or> (k \<in> set ms \<and> 1 \<le> i \<and> i \<le> int n \<and> \<bar>i - int k\<bar> \<le> ctx)" for i
    by (auto simp: shown_def list_ex_iff less_Suc_eq)
  show ?case
  proof (cases "k \<in> set ms")
    case False
    with Suc.prems have "apart (int n) (spanLoop ctx ms (int n) spans [Suc k..<Suc n]) \<and>
      (\<forall>i. covered (spanLoop ctx ms (int n) spans [Suc k..<Suc n]) i \<longleftrightarrow> shown ms ctx (int n) i)"
      using Suc.hyps(2) k by (intro Suc.hyps(1)) (auto simp: shown_Suc)
    with False ks show ?thesis by simp
  next
    case True
    define lo where "lo = max 1 (int k - ctx)"
    define hi where "hi = min (int n) (int k + ctx)"
    have i64: "int64 (int k - ctx) = int k - ctx" "int64 (int k + ctx) = int k + ctx"
      using assms(1,2) k by (auto intro!: int64_id)
    have lohi: "1 \<le> lo" "lo \<le> int k" "int k \<le> hi" "hi \<le> int n" "1 \<le> int k" "int k \<le> int n"
      using assms(1) k Suc.prems(1) by (auto simp: lo_def hi_def)
    have lohi_eq: "(if int k - ctx < 1 then 1 else int k - ctx) = lo" "(if int k + ctx > int n then int n else int k + ctx) = hi"
      by (auto simp: lo_def hi_def)
    have reach: "1 \<le> i \<and> i \<le> int n \<and> \<bar>i - int k\<bar> \<le> ctx \<longleftrightarrow> lo \<le> i \<and> i \<le> hi" for i
      by (auto simp: lo_def hi_def)
    have go: ?thesis if "spanLoop ctx ms (int n) spans (k # [Suc k..<Suc n]) = spanLoop ctx ms (int n) ((a, b) # sps) [Suc k..<Suc n]"
      and "apart (int n) (rev sps @ [(a, b)])" and "a \<le> lo" and "b \<le> int k + ctx"
      and "\<And>i. covered ((a, b) # sps) i \<longleftrightarrow> covered spans i \<or> lo \<le> i \<and> i \<le> hi" for a b sps
    proof -
      have "apart (int n) (spanLoop ctx ms (int n) ((a, b) # sps) [Suc k..<Suc n]) \<and>
        (\<forall>i. covered (spanLoop ctx ms (int n) ((a, b) # sps) [Suc k..<Suc n]) i \<longleftrightarrow> shown ms ctx (int n) i)"
      proof (rule Suc.hyps(1))
        show "covered ((a, b) # sps) i \<longleftrightarrow> shown (filter (\<lambda>j. j < Suc k) ms) ctx (int n) i" for i
          using that(5) [of i] Suc.prems(4) [of i] shown_Suc [of i] reach [of i] True by blast
      qed (use Suc.hyps(2) k that(2-4) in \<open>auto simp: lo_def\<close>)
      with that(1) ks show ?thesis by simp
    qed
    show ?thesis
    proof (cases spans)
      case Nil
      then show ?thesis
        using lohi True by (intro go [of lo hi "[]"]) (auto simp: i64 lohi_eq apart_def Let_def hi_def)
    next
      case (Cons sp rest)
      obtain slo shi where sp: "sp = (slo, shi)" by (cases sp)
      have s: "slo \<le> lo" "shi < int k + ctx" "shi \<le> int n" "apart (int n) (rev rest)"
        "\<forall>x\<in>set rest. snd x + 2 \<le> slo" "1 \<le> slo" "slo \<le> shi"
        using Suc.prems(3,5) Cons sp by (auto simp: apart_snoc lo_def)
      have "shi \<le> hi" using s(2,3) by (simp add: hi_def)
      show ?thesis
      proof (cases "lo \<le> shi + 1")
        case True
        then show ?thesis
          using s lohi \<open>shi \<le> hi\<close> \<open>k \<in> set ms\<close> Cons sp
          by (intro go [of slo "max hi shi" rest]) (auto simp: i64 lohi_eq apart_snoc Let_def max_def hi_def)
      next
        case False
        have ap: "apart (int n) (rev spans @ [(lo, hi)])"
          unfolding apart_snoc using Suc.prems(3) s(5,7) lohi False Cons sp by force
        show ?thesis
          by (rule go [OF _ ap]) (use lohi False \<open>k \<in> set ms\<close> Cons sp in \<open>auto simp: i64 lohi_eq Let_def hi_def\<close>)
      qed
    qed
  qed
qed


text \<open>From the start: the spans of a file are apart and cover the shown lines.\<close>

lemma spanLoop_shown:
  assumes "0 \<le> ctx" and "ctx + int n < 2 ^ 63" and "set ms \<subseteq> {1..n}"
  shows "apart (int n) (spanLoop ctx ms (int n) [] [1..<Suc n])"
    and "covered (spanLoop ctx ms (int n) [] [1..<Suc n]) = shown ms ctx (int n)"
proof -
  have "filter (\<lambda>j. j < 1) ms = []" using assms(3) by (auto simp: filter_empty_conv)
  with spanLoop_covers [OF assms(1,2), of 1 "[]" ms] assms(3)
  show "apart (int n) (spanLoop ctx ms (int n) [] [1..<Suc n])"
    "covered (spanLoop ctx ms (int n) [] [1..<Suc n]) = shown ms ctx (int n)"
    by (auto simp: apart_def shown_def fun_eq_iff)
qed

section \<open>The lines of the spans\<close>

definition piece :: "bool \<Rightarrow> (int \<Rightarrow> bool) \<Rightarrow> (int \<Rightarrow> bytes) \<Rightarrow> bool \<Rightarrow> int \<Rightarrow> bytes list" where
  "piece wide P f later i =
     (if \<not> P i then []
      else (if wide \<and> \<not> P (i - 1) \<and> (later \<or> list_ex P [1..i - 1]) then [''--''] else []) @ [f i])"

lemma pieces_none: "(\<And>i. a \<le> i \<Longrightarrow> i \<le> b \<Longrightarrow> \<not> P i) \<Longrightarrow> concat (map (piece wide P f later) [a..b]) = []"
  by (auto simp: piece_def)

lemma pieces_inside:
  "(\<And>i. a - 1 \<le> i \<Longrightarrow> i \<le> b \<Longrightarrow> P i) \<Longrightarrow> concat (map (piece wide P f later) [a..b]) = map f [a..b]"
proof -
  assume "\<And>i. a - 1 \<le> i \<Longrightarrow> i \<le> b \<Longrightarrow> P i"
  then have "map (piece wide P f later) [a..b] = map (\<lambda>i. [f i]) [a..b]" by (auto simp: piece_def)
  then show ?thesis by (simp only: concat_map_singleton)
qed

lemma upto_append:
  fixes a b c :: int
  assumes "a \<le> b + 1" and "b \<le> c"
  shows "[a..c] = [a..b] @ [b + 1..c]"
proof (cases "a \<le> b")
  case False
  with assms(1) have "a = b + 1" by simp
  then show ?thesis by simp
qed (use assms(2) upto_split2 [of a b c] in simp)

text \<open>Emitting spans that lie at or after \<open>a\<close>.\<close>

lemma emitSpans_lines:
  assumes "apart n sps" and "1 \<le> a" and "a \<le> n + 1" and "\<And>x. x \<in> set sps \<Longrightarrow> a \<le> fst x"
  shows "emitSpans sps c = c\<lparr>gc_lines := gc_lines c @
      concat (map (piece (0 < gc_contextLines c) (covered sps) (outLine c) (gc_emitted c)) [a..n]),
    gc_emitted := gc_emitted c \<or> sps \<noteq> []\<rparr>"
  using assms
proof (induction sps arbitrary: a c)
  case (Cons sp r)
  obtain lo hi where sp: "sp = (lo, hi)" by (cases sp)
  let ?P = "covered ((lo, hi) # r)" and ?w = "0 < gc_contextLines c" and ?e = "gc_emitted c"
  let ?c = "c\<lparr>gc_lines := gc_lines c @ (if ?e \<and> ?w then [''--''] else []) @ map (outLine c) [lo..hi], gc_emitted := True\<rparr>"
  have lo: "a \<le> lo" "lo \<le> hi" "hi \<le> n" "1 \<le> lo" and r: "apart n r" "\<forall>x\<in>set r. hi + 2 \<le> fst x"
    using Cons.prems(1) Cons.prems(4) [of sp] sp by (auto simp: apart_def)
  have after: "\<not> covered r i" if "i \<le> hi + 1" for i using r(2) that by (auto simp: covered_def)
  have out: "outLine ?c = outLine c" by (simp add: fun_eq_iff outLine_def)
  have "concat (map (piece ?w ?P (outLine c) ?e) [a..n]) =
      concat (map (piece ?w ?P (outLine c) ?e) [a..lo - 1]) @ piece ?w ?P (outLine c) ?e lo @
      concat (map (piece ?w ?P (outLine c) ?e) [lo + 1..hi]) @ concat (map (piece ?w ?P (outLine c) ?e) [hi + 1..n])"
    using upto_append [of a "lo - 1" n] upto_append [of lo hi n] upto_rec1 [of lo hi] lo by simp
  also have "concat (map (piece ?w ?P (outLine c) ?e) [a..lo - 1]) = []"
    using after lo by (intro pieces_none) auto
  also have "piece ?w ?P (outLine c) ?e lo = (if ?e \<and> ?w then [''--''] else []) @ [outLine c lo]"
    using after lo by (auto simp: piece_def list_ex_iff)
  also have "concat (map (piece ?w ?P (outLine c) ?e) [lo + 1..hi]) = map (outLine c) [lo + 1..hi]"
    by (rule pieces_inside) auto
  also have "map (piece ?w ?P (outLine c) ?e) [hi + 1..n] = map (piece ?w (covered r) (outLine c) True) [hi + 1..n]"
  proof (intro map_cong refl)
    fix i
    assume "i \<in> set [hi + 1..n]"
    then have i: "hi < i" by simp
    show "piece ?w ?P (outLine c) ?e i = piece ?w (covered r) (outLine c) True i"
    proof (cases "covered r i")
      case True
      then have "hi + 1 < i" using after [of i] by fastforce
      moreover have "list_ex ?P [1..i - 1]" using lo i by (auto simp: list_ex_iff intro!: bexI [of _ lo])
      ultimately show ?thesis using True i by (simp add: piece_def)
    qed (use i in \<open>simp add: piece_def\<close>)
  qed
  finally have pieces: "concat (map (piece ?w ?P (outLine c) ?e) [a..n]) =
      (if ?e \<and> ?w then [''--''] else []) @ map (outLine c) [lo..hi] @ concat (map (piece ?w (covered r) (outLine c) True) [hi + 1..n])"
    using upto_rec1 [of lo hi] lo by (simp del: covered_simps)
  have "emitSpans (sp # r) c = emitSpans r ?c" by (simp add: sp)
  also have "\<dots> = ?c\<lparr>gc_lines := gc_lines ?c @ concat (map (piece (0 < gc_contextLines ?c) (covered r) (outLine ?c) (gc_emitted ?c)) [hi + 1..n]),
      gc_emitted := gc_emitted ?c \<or> r \<noteq> []\<rparr>"
    using r lo by (intro Cons.IH) auto
  finally show ?case using pieces by (simp add: out sp del: covered_simps)
qed (simp add: piece_def)


section \<open>One file\<close>

lemma matchNos_range: "set (matchNos re k ls) \<subseteq> {k + 1..k + length ls}"
proof (induction ls arbitrary: k)
  case (Cons l ls)
  from Cons [of "k + 1"] show ?case by auto
qed simp

lemma matchNos_filter: "length (matchNos re k ls) = length (filter re ls)"
  by (induction ls arbitrary: k) auto

text \<open>Content: the lines and the numbers of the matching ones are collected.\<close>

lemma feedLines_more:
  assumes "gc_mode c = grepModeOutput" and "gc_texts c \<noteq> []"
  shows "feedLines re path k ls c = c\<lparr>gc_texts := gc_texts c @ ls, gc_matches := gc_matches c @ matchNos re k ls\<rparr>"
  using assms by (induction ls arbitrary: k c) (simp_all add: col_line_def Let_def)

lemma feedLines_content:
  assumes "gc_mode c = grepModeOutput" and "gc_texts c = []" and "ls \<noteq> []"
  shows "feedLines re path k ls c = c\<lparr>gc_curPath := path, gc_texts := ls, gc_matches := matchNos re k ls\<rparr>"
  using assms by (cases ls) (simp_all add: col_line_def Let_def feedLines_more)

lemma grepModes [simp]:
  "grepModeCount \<noteq> grepModeOutput" "grepModeFiles \<noteq> grepModeOutput" "grepModeFiles \<noteq> grepModeCount"
  by (simp_all add: grepModeCount_def grepModeOutput_def grepModeFiles_def)

text \<open>A collector between two files.\<close>

definition betweenFiles :: "grepCollector \<Rightarrow> bool" where
  "betweenFiles c \<longleftrightarrow> gc_texts c = [] \<and> gc_matches c = [] \<and> gc_curPath c = []"

lemma endFile_content:
  assumes "gc_mode c = grepModeOutput" and "betweenFiles c" and "0 \<le> gc_contextLines c"
    and "gc_contextLines c + int (length ls) < 2 ^ 63"
  shows "endFile (feedLines re path 0 ls c) =
    c\<lparr>gc_lines := gc_lines c @ contentOf re (gc_contextLines c) (gc_emitted c) path ls,
      gc_emitted := gc_emitted c \<or> list_ex re ls\<rparr>"
proof (cases "ls = [] \<or> matchNos re 0 ls = []")
  case True
  then have "length (filter re ls) = 0" using matchNos_filter [of re 0 ls] by auto
  then have "\<not> list_ex re ls" by (auto simp: list_ex_iff filter_empty_conv)
  moreover have "contentOf re ctx later path ls = []" for ctx later
    using True by (auto simp: contentOf_def shown_def Let_def)
  moreover have same: "c\<lparr>gc_texts := [], gc_matches := [], gc_curPath := []\<rparr> = c" using assms(2) by (simp add: betweenFiles_def)
  moreover have "endFile (feedLines re path 0 ls c) = c"
  proof (cases "ls = []")
    case False
    with True have "endFile (feedLines re path 0 ls c) = c\<lparr>gc_texts := [], gc_matches := [], gc_curPath := []\<rparr>"
      using assms(1,2) by (simp add: endFile_def feedLines_content betweenFiles_def)
    with same show ?thesis by simp
  qed (use assms(2) in \<open>simp add: endFile_def betweenFiles_def\<close>)
  ultimately show ?thesis by simp
next
  case False
  let ?ms = "matchNos re 0 ls" and ?n = "int (length ls)" and ?ctx = "gc_contextLines c"
  let ?c = "c\<lparr>gc_curPath := path, gc_texts := ls, gc_matches := ?ms\<rparr>"
  let ?sps = "spanLoop ?ctx ?ms ?n [] [1..<Suc (length ls)]"
  have fed: "feedLines re path 0 ls c = ?c"
    using assms(1,2) False by (simp add: feedLines_content betweenFiles_def)
  have range: "set ?ms \<subseteq> {1..length ls}" using matchNos_range [of re 0 ls] by simp
  note sp = spanLoop_shown [OF assms(3,4) range]
  obtain j where j: "j \<in> set ?ms" using False by (cases ?ms) auto
  with range assms(3) have "shown ?ms ?ctx ?n (int j)" by (auto simp: shown_def list_ex_iff intro!: bexI [of _ j])
  with sp(2) have "?sps \<noteq> []" by (metis covered_simps(1))
  have "length (filter re ls) \<noteq> 0" using matchNos_filter [of re 0 ls] False by auto
  then have hit: "list_ex re ls" by (auto simp: list_ex_iff filter_empty_conv)
  have out: "outLine ?c = shownLine path ?ms ls" by (simp add: fun_eq_iff outLine_def shownLine_def)
  have "concat (map (piece (0 < ?ctx) (shown ?ms ?ctx ?n) (shownLine path ?ms ls) (gc_emitted c)) [1..?n]) =
      contentOf re ?ctx (gc_emitted c) path ls"
    by (simp add: contentOf_def piece_def [abs_def] Let_def)
  moreover have "emitSpans ?sps ?c = ?c\<lparr>gc_lines := gc_lines ?c @
      concat (map (piece (0 < gc_contextLines ?c) (covered ?sps) (outLine ?c) (gc_emitted ?c)) [1..?n]),
      gc_emitted := gc_emitted ?c \<or> ?sps \<noteq> []\<rparr>"
    using sp(1) by (intro emitSpans_lines) (auto simp: apart_def)
  then have "emitSpans ?sps ?c = ?c\<lparr>gc_lines := gc_lines ?c @
      concat (map (piece (0 < gc_contextLines ?c) (shown ?ms ?ctx ?n) (shownLine path ?ms ls) (gc_emitted ?c)) [1..?n]),
      gc_emitted := True\<rparr>"
    using \<open>?sps \<noteq> []\<close> unfolding sp(2) out by simp
  ultimately have "emitSpans ?sps ?c = ?c\<lparr>gc_lines := gc_lines c @ contentOf re ?ctx (gc_emitted c) path ls, gc_emitted := True\<rparr>"
    by simp
  then show ?thesis
    using False hit assms(1,2) by (simp add: endFile_def fed betweenFiles_def del: upt_Suc)
qed

text \<open>Counts: unless the last line reads as a count of this file, it gets a line of its own.\<close>

definition freshCount :: "bytes \<Rightarrow> bytes list \<Rightarrow> bool" where
  "freshCount path lines \<longleftrightarrow> lines = [] \<or>
     (hasPrefix (last lines) (path @ '':'') \<longrightarrow> atoi (drop (length path + 1) (last lines)) = None)"

definition countLine :: "bytes \<Rightarrow> int \<Rightarrow> bytes" where
  "countLine path k = path @ '':'' @ itoa k"

lemma colon_itoa: "CHR '':'' \<notin> set (itoa k)"
  using set_showNat [of "nat k"] set_showNat [of "nat (- k)"] by (auto simp: itoa_def)

lemma parseDigits_colon: "CHR '':'' \<in> set s \<Longrightarrow> parseDigits n s = None"
  by (induction n s rule: parseDigits.induct) (auto simp: digitVal_def split: option.splits)

lemma atoi_colon: "CHR '':'' \<in> set s \<Longrightarrow> atoi s = None"
proof -
  assume "CHR '':'' \<in> set s"
  then have "CHR '':'' \<in> set (if hasPrefix s ''-'' \<or> hasPrefix s ''+'' then drop 1 s else s)" by (cases s) auto
  from parseDigits_colon [OF this] show ?thesis by (simp only: atoi_def Let_def option.case if_cancel)
qed

text \<open>The count of another file never reads as a count of this one.\<close>

lemma freshCount_other:
  assumes "p \<noteq> path" and "last lines = countLine p k"
  shows "freshCount path lines"
proof -
  have "atoi (drop (length path + 1) (countLine p k)) = None" if "prefix (path @ '':'') (countLine p k)"
  proof -
    from that obtain r where r: "path @ CHR '':'' # r = p @ CHR '':'' # itoa k" by (auto simp: countLine_def elim!: prefixE)
    then have "CHR '':'' \<in> set r"
    proof (cases "length path < length p")
      case True
      with r obtain q where "p = path @ CHR '':'' # q" by (auto simp: append_eq_append_conv2 Cons_eq_append_conv)
      with r show ?thesis by auto
    next
      case False
      with r assms(1) obtain q where "q @ CHR '':'' # r = itoa k"
        by (auto simp: append_eq_append_conv2 Cons_eq_append_conv append_eq_Cons_conv)
      then have "CHR '':'' \<in> set (itoa k)" by (metis in_set_conv_decomp)
      then show ?thesis by (simp add: colon_itoa)
    qed
    moreover have "drop (length path + 1) (countLine p k) = r"
      using arg_cong [OF r, of "drop (length path + 1)"] by (simp add: countLine_def)
    ultimately show ?thesis by (simp add: atoi_colon)
  qed
  then show ?thesis by (auto simp: freshCount_def assms(2))
qed

lemma hasPrefix_append: "hasPrefix (p @ q) p"
  by (simp add: hasPrefix_iff)

lemma feedLines_counted:
  assumes "gc_mode c = grepModeCount" and "gc_lines c = pre @ [path @ '':'' @ itoa n]"
    and "0 \<le> n" and "n + int (length (filter re ls)) < 2 ^ 63"
  shows "feedLines re path k ls c = c\<lparr>gc_lines := pre @ [path @ '':'' @ itoa (n + int (length (filter re ls)))]\<rparr>"
  using assms
proof (induction ls arbitrary: k c n)
  case (Cons l ls)
  show ?case
  proof (cases "re l")
    case True
    have "hasPrefix (path @ '':'' @ itoa n) (path @ '':'')" using hasPrefix_append [of "path @ '':''" "itoa n"] by simp
    moreover have "atoi (itoa n) = Some n" using Cons.prems(3,4) by (intro atoi_itoa) auto
    ultimately have "col_line path (k + 1) l True c = c\<lparr>gc_lines := pre @ [path @ '':'' @ itoa (n + 1)]\<rparr>"
      using Cons.prems(1,2) by (simp add: col_line_def Let_def)
    with True Cons.prems Cons.IH [of "c\<lparr>gc_lines := pre @ [path @ '':'' @ itoa (n + 1)]\<rparr>" "n + 1" "k + 1"]
    show ?thesis by (simp add: add.assoc add.commute [of 1])
  next
    case False
    with Cons.prems Cons.IH [of c n "k + 1"] show ?thesis by (simp add: col_line_def)
  qed
qed simp

lemma feedLines_count:
  assumes "gc_mode c = grepModeCount" and "freshCount path (gc_lines c)" and "int (length ls) < 2 ^ 63"
  shows "feedLines re path k ls c = c\<lparr>gc_lines := gc_lines c @ countOf re path ls\<rparr>"
  using assms
proof (induction ls arbitrary: k)
  case (Cons l ls)
  show ?case
  proof (cases "re l")
    case True
    have one: "itoa 1 = ''1''" by code_simp
    have "col_line path (k + 1) l True c = c\<lparr>gc_lines := gc_lines c @ [path @ '':'' @ itoa 1]\<rparr>"
      using Cons.prems(1,2) by (auto simp: col_line_def Let_def freshCount_def one)
    moreover have "int (length (filter re ls)) < 2 ^ 63 - 1" using Cons.prems(3) length_filter_le [of re ls]
      unfolding length_Cons by linarith
    ultimately show ?thesis
      using True Cons.prems
      feedLines_counted [of "c\<lparr>gc_lines := gc_lines c @ [path @ '':'' @ itoa 1]\<rparr>" "gc_lines c" path 1 re ls "k + 1"]
      by (simp add: countOf_def Let_def add.commute)
  next
    case False
    with Cons.prems Cons.IH [of "k + 1"] show ?thesis by (simp add: col_line_def countOf_def)
  qed
qed (simp add: countOf_def)

text \<open>File names: once.\<close>

lemma feedLines_named:
  "gc_mode c = grepModeFiles \<Longrightarrow> gc_lines c \<noteq> [] \<Longrightarrow> last (gc_lines c) = path \<Longrightarrow> feedLines re path k ls c = c"
  by (induction ls arbitrary: k) (simp_all add: col_line_def)

lemma feedLines_files:
  assumes "gc_mode c = grepModeFiles" and "gc_lines c = [] \<or> last (gc_lines c) \<noteq> path"
  shows "feedLines re path k ls c = c\<lparr>gc_lines := gc_lines c @ nameOf re path ls\<rparr>"
  using assms by (induction ls arbitrary: k) (auto simp: col_line_def nameOf_def feedLines_named)

section \<open>One file after the other\<close>

fun grepLines :: "bytes \<Rightarrow> int \<Rightarrow> (bytes \<Rightarrow> bool) \<Rightarrow> bool \<Rightarrow> (bytes \<times> bytes list) list \<Rightarrow> bytes list" where
  "grepLines mode ctx re later [] = []"
| "grepLines mode ctx re later ((path, ls) # files) =
     (if mode = grepModeOutput then contentOf re ctx later path ls
      else if mode = grepModeCount then countOf re path ls
      else nameOf re path ls) @ grepLines mode ctx re (later \<or> list_ex re ls) files"

definition collectFiles :: "(bytes \<Rightarrow> bool) \<Rightarrow> (bytes \<times> bytes list) list \<Rightarrow> grepCollector \<Rightarrow> grepCollector" where
  "collectFiles re files c = foldl (\<lambda>c (path, ls). endFile (feedLines re path 0 ls c)) c files"

lemma collectFiles_simps [simp]:
  "collectFiles re [] c = c"
  "collectFiles re ((path, ls) # files) c = collectFiles re files (endFile (feedLines re path 0 ls c))"
  by (simp_all add: collectFiles_def)

lemma collect_content:
  assumes "gc_mode c = grepModeOutput" and "betweenFiles c" and "0 \<le> gc_contextLines c"
    and "\<And>path ls. (path, ls) \<in> set files \<Longrightarrow> gc_contextLines c + int (length ls) < 2 ^ 63"
  shows "gc_lines (collectFiles re files c) = gc_lines c @ grepLines grepModeOutput (gc_contextLines c) re (gc_emitted c) files \<and>
    betweenFiles (collectFiles re files c)"
  using assms
proof (induction files arbitrary: c)
  case (Cons x files)
  obtain path ls where f: "x = (path, ls)" by (cases x)
  let ?c = "c\<lparr>gc_lines := gc_lines c @ contentOf re (gc_contextLines c) (gc_emitted c) path ls, gc_emitted := gc_emitted c \<or> list_ex re ls\<rparr>"
  have "endFile (feedLines re path 0 ls c) = ?c"
    using Cons.prems(1-3) Cons.prems(4) [of path ls] f by (intro endFile_content) auto
  moreover have "gc_lines (collectFiles re files ?c) = gc_lines ?c @ grepLines grepModeOutput (gc_contextLines ?c) re (gc_emitted ?c) files \<and>
      betweenFiles (collectFiles re files ?c)"
  proof (rule Cons.IH)
    show "betweenFiles ?c" using Cons.prems(2) by (simp add: betweenFiles_def)
    show "gc_contextLines ?c + int (length ls') < 2 ^ 63" if "(path', ls') \<in> set files" for path' ls'
      using Cons.prems(4) [of path' ls'] that by simp
  qed (use Cons.prems in simp_all)
  ultimately show ?case by (simp add: f)
qed simp

lemma endFile_other: "gc_mode c \<noteq> grepModeOutput \<Longrightarrow> endFile c = c"
  by (simp add: endFile_def)

lemma collect_count:
  assumes "gc_mode c = grepModeCount" and "distinct (map fst files)"
    and "gc_lines c = [] \<or> (\<exists>p k. p \<notin> fst ` set files \<and> last (gc_lines c) = countLine p k)"
    and "\<And>path ls. (path, ls) \<in> set files \<Longrightarrow> int (length ls) < 2 ^ 63"
  shows "collectFiles re files c = c\<lparr>gc_lines := gc_lines c @ grepLines grepModeCount ctx re later files\<rparr>"
  using assms
proof (induction files arbitrary: c later)
  case (Cons x files)
  obtain path ls where f: "x = (path, ls)" by (cases x)
  let ?c = "c\<lparr>gc_lines := gc_lines c @ countOf re path ls\<rparr>"
  have "freshCount path (gc_lines c)"
    using Cons.prems(3) freshCount_other [of _ path "gc_lines c"] f by (auto simp: freshCount_def)
  then have "feedLines re path 0 ls c = ?c"
    using Cons.prems(1) Cons.prems(4) [of path ls] f by (intro feedLines_count) auto
  then have step: "endFile (feedLines re path 0 ls c) = ?c" using Cons.prems(1) by (simp add: endFile_other)
  have "collectFiles re files ?c = ?c\<lparr>gc_lines := gc_lines ?c @ grepLines grepModeCount ctx re (later \<or> list_ex re ls) files\<rparr>"
  proof (rule Cons.IH)
    show "gc_lines ?c = [] \<or> (\<exists>p k. p \<notin> fst ` set files \<and> last (gc_lines ?c) = countLine p k)"
      using Cons.prems(2,3) f by (auto simp: countOf_def Let_def countLine_def)
    show "int (length ls') < 2 ^ 63" if "(path', ls') \<in> set files" for path' ls'
      using Cons.prems(4) [of path' ls'] that by simp
  qed (use Cons.prems in simp_all)
  with step show ?case by (simp add: f)
qed simp

lemma collect_names:
  assumes "gc_mode c = grepModeFiles" and "distinct (map fst files)"
    and "gc_lines c = [] \<or> last (gc_lines c) \<notin> fst ` set files"
  shows "collectFiles re files c = c\<lparr>gc_lines := gc_lines c @ grepLines grepModeFiles ctx re later files\<rparr>"
  using assms
proof (induction files arbitrary: c later)
  case (Cons x files)
  obtain path ls where f: "x = (path, ls)" by (cases x)
  let ?c = "c\<lparr>gc_lines := gc_lines c @ nameOf re path ls\<rparr>"
  have "feedLines re path 0 ls c = ?c"
    using Cons.prems f by (intro feedLines_files) auto
  then have step: "endFile (feedLines re path 0 ls c) = ?c" using Cons.prems(1) by (simp add: endFile_other)
  have "collectFiles re files ?c = ?c\<lparr>gc_lines := gc_lines ?c @ grepLines grepModeFiles ctx re (later \<or> list_ex re ls) files\<rparr>"
  proof (rule Cons.IH)
    show "gc_lines ?c = [] \<or> last (gc_lines ?c) \<notin> fst ` set files"
      using Cons.prems(2,3) f by (auto simp: nameOf_def)
  qed (use Cons.prems in simp_all)
  with step show ?case by (simp add: f)
qed simp

end
