(* ===== verification/GrepExact.thy ===== *)
theory GrepExact
  imports QuietWalk GrepLines
begin

text \<open>
  What \<open>grep\<close> answers without \<open>rg\<close> on a machine where nobody else writes: for every text file below the
  root that the glob admits, the lines that the mode asks for.
\<close>

section \<open>One visit\<close>

definition fileData :: "fsys \<Rightarrow> bytes list \<Rightarrow> bytes" where
  "fileData fs q = (case nodeAt fs q of Some (NFile i) \<Rightarrow> i_data (fs_inodes fs i) | _ \<Rightarrow> [])"

definition textData :: "bytes \<Rightarrow> bool" where
  "textData data \<longleftrightarrow> CHR 0x00 \<notin> set (take binarySniffLen data)"

definition grepped :: "fsys \<Rightarrow> doublestar \<Rightarrow> bytes \<Rightarrow> bytes list \<Rightarrow> bytes list \<times> dirEntry \<Rightarrow> bool" where
  "grepped fs D glob root e \<longleftrightarrow> \<not> deIsDir (snd e) \<and>
     grepGlobIncludes D glob (absPath (fst e)) (relText root (fst e)) \<and> textData (fileData fs (fst e))"

definition grepSeen :: "fsys \<Rightarrow> doublestar \<Rightarrow> (bytes \<Rightarrow> bool) \<Rightarrow> bytes \<Rightarrow> bytes list \<Rightarrow> grepCollector \<times> bool \<Rightarrow>
    bytes list \<times> dirEntry \<Rightarrow> grepCollector \<times> bool" where
  "grepSeen fs D re glob root s e =
     (if grepped fs D glob root e
      then (endFile (feedLines re (absPath (fst e)) 0 (fst (scanLines (fileData fs (fst e)))) (fst s)), snd s) else s)"

text \<open>Entries are directories and files, and the lines of the files fit into the scanner's buffer.\<close>

definition plainEntry :: "fsys \<Rightarrow> bytes list \<times> dirEntry \<Rightarrow> bool" where
  "plainEntry fs e \<longleftrightarrow> deIsDir (snd e) \<or>
     (\<exists>i. nodeAt fs (fst e) = Some (NFile i)) \<and> \<not> snd (scanLines (fileData fs (fst e)))"

lemma run_quiet_read:
  assumes "calm fs x h" and "nodeAt fs cs = Some (NFile i)" and "dirsAbove fs cs"
  shows "\<exists>h'. run_state (grepFallbackFile re (absPath cs) col) h =
    ((if \<not> textData (fileData fs cs) then (None, col)
      else (let (ls, tooLong) = scanLines (fileData fs cs); col1 = feedLines re (absPath cs) 0 ls col
            in if tooLong then (Some (PlainErr ''bufio.Scanner: token too long''), col1) else (None, endFile col1))), h') \<and>
    calm fs x h'"
proof -
  note same = calm_same [OF assms(1)]
  define f where "f = \<lparr>hd_ino = i, hd_path = cs, hd_pos = 0\<rparr>"
  let ?h1 = "applyTick quietTick h"
  have open1: "run_state (osOpen (absPath cs)) h = (Inr (KFile, f), ?h1)"
    unfolding osOpen_def using assms(2,3) same
    by (intro run_lookup_quiet [OF calm_sched [OF assms(1)]])
      (auto simp: opOpenKind_def opOpen_def okOp_def f_def sameDisk_simps split: option.split)
  have read: "run_state (readAllOf KFile f) h' = (Inr (fileData fs cs), applyTick quietTick h')" if "calm fs x h'" for h'
    using calm_sched [OF that] calm_same(7) [OF that] assms(2)
    by (simp add: readAllOf_def fReadRest_def run_syscall_quiet run_runOp opReadRest_def okOp_def f_def fileData_def applyTick_quiet)
  have close: "run_state (ignore (fClose f)) h' = ((), applyTick quietTick h')" if "calm fs x h'" for h'
    using calm_sched [OF that] by (simp add: ignore_def fClose_def run_syscall_quiet run_runOp okOp_def applyTick_quiet)
  show ?thesis
    using open1 read close calm_tick [OF assms(1)] calm_tick
    by (cases "textData (fileData fs cs)"; cases "scanLines (fileData fs cs)"; cases "snd (scanLines (fileData fs cs))")
      (auto simp: grepFallbackFile_def scanFile_def textData_def Let_def)
qed

lemma grepVisit_quiet:
  assumes "calm fs None h" and "entryAt fs cs d" and "prefix root cs" and "list_all (plainEntry fs) ((cs, d) # es)"
  shows "\<exists>h'. run_state (grepVisit D re glob (absPath root) (absPath cs) (Some d) None s) h =
    ((WNext, grepSeen fs D re glob root s (cs, d)), h') \<and> calm fs None h' \<and> list_all (plainEntry fs) es"
proof -
  from assms(3) obtain ds where ds: "cs = root @ ds" by (rule prefixE)
  have ok: "list_all okComp cs" "list_all okComp root" "dirsAbove fs cs" using assms(2) ds by (simp_all add: entryAt_def dirsAbove_def)
  have rel: "Rel (absPath root) (absPath cs) = Some (relText root cs)"
    using Rel_below [of "absPath root" "absPath cs" ds] ok ds by (simp add: relText_def)
  have going: "ctxErrAt (Some 1) h = None" using calm_ctx [OF assms(1)] by (simp add: ctxErrAt_def)
  show ?thesis
  proof (cases "\<not> deIsDir d \<and> grepGlobIncludes D glob (absPath cs) (relText root cs)")
    case False
    with assms(1,4) going rel show ?thesis by (auto simp: grepVisit_def grepSeen_def grepped_def)
  next
    case True
    with assms(4) obtain i where i: "nodeAt fs cs = Some (NFile i)" "\<not> snd (scanLines (fileData fs cs))"
      by (auto simp: plainEntry_def)
    from run_quiet_read [OF assms(1) i(1) ok(3), of re "fst s"] i(2) True assms(4) going rel show ?thesis
      by (cases s; cases "scanLines (fileData fs cs)") (auto simp: grepVisit_def grepSeen_def grepped_def)
  qed
qed

interpretation grepquiet: quiet_walk "grepVisit D re glob (absPath root)" fs None root "grepSeen fs D re glob root"
    "\<lambda>s. list_all (plainEntry fs)"
  for D re glob root fs
  by unfold_locales (fact grepVisit_quiet, simp add: grepVisit_def)

section \<open>The files below the root\<close>

definition grepFiles :: "fsys \<Rightarrow> doublestar \<Rightarrow> bytes \<Rightarrow> bytes list \<Rightarrow> (bytes list \<times> dirEntry) list \<Rightarrow> (bytes \<times> bytes list) list" where
  "grepFiles fs D glob root es =
     map (\<lambda>e. (absPath (fst e), fst (scanLines (fileData fs (fst e))))) (filter (grepped fs D glob root) es)"

lemma foldl_grepSeen:
  "foldl (grepSeen fs D re glob root) (c, b) es = (collectFiles re (grepFiles fs D glob root es) c, b)"
  by (induction es arbitrary: c) (simp_all add: grepSeen_def grepFiles_def)

text \<open>The text files below a root that the glob admits, with their lines.\<close>

definition grepAll :: "fsys \<Rightarrow> doublestar \<Rightarrow> bytes \<Rightarrow> bytes list \<Rightarrow> (bytes \<times> bytes list) set" where
  "grepAll fs D glob root = {(absPath q, fst (scanLines (i_data (fs_inodes fs i)))) |q i.
     prefix root q \<and> nodeAt fs q = Some (NFile i) \<and> grepGlobIncludes D glob (absPath q) (relText root q) \<and>
     textData (i_data (fs_inodes fs i))}"

definition plainTree :: "fsys \<Rightarrow> bytes list \<Rightarrow> int \<Rightarrow> bool" where
  "plainTree fs root ctx \<longleftrightarrow> (\<forall>q n. nodeAt fs q = Some n \<and> prefix root q \<longrightarrow>
     (case n of
        NDir i \<Rightarrow> True
      | NLink t \<Rightarrow> False
      | NFile i \<Rightarrow> \<not> snd (scanLines (i_data (fs_inodes fs i))) \<and>
          ctx + int (length (fst (scanLines (i_data (fs_inodes fs i))))) < 2 ^ 63))"

lemma treeOf_plain:
  assumes "entryAt fs root d" and "plainTree fs root ctx" and "(q, e) \<in> set (treeOf fs n root d)"
  shows "plainEntry fs (q, e)"
proof -
  from treeOf_entryAt [OF assms(1,3)] obtain m where m: "nodeAt fs q = Some m" "de_kind e = kindOf m" "prefix root q"
    by (auto simp: entryAt_def)
  with assms(2) have "case m of NDir i \<Rightarrow> True | NLink t \<Rightarrow> False | NFile i \<Rightarrow> \<not> snd (scanLines (i_data (fs_inodes fs i))) \<and>
      ctx + int (length (fst (scanLines (i_data (fs_inodes fs i))))) < 2 ^ 63"
    unfolding plainTree_def by blast
  with m show ?thesis by (cases m) (auto simp: plainEntry_def deIsDir_def fileData_def)
qed

lemma grepFiles_all:
  fixes D :: doublestar and glob :: bytes
  assumes "entryAt fs root d" and "treeClosed fs root" and "deIsDir d" and "plainTree fs root ctx"
  defines "files \<equiv> grepFiles fs D glob root (treeOf fs walkDepth root d)"
  shows "distinct (map fst files)" and "set files = grepAll fs D glob root"
proof -
  let ?es = "treeOf fs walkDepth root d"
  have e: "entryAt fs q e" "prefix root q" "plainEntry fs (q, e)" if "(q, e) \<in> set ?es" for q e
    using treeOf_entryAt [OF assms(1) that] treeOf_plain [OF assms(1,4) that] by simp_all
  have "distinct (map fst ?es)" by (rule treeOf_names(1) [OF assms(1)])
  then have "distinct (map fst (filter (grepped fs D glob root) ?es))" by (rule distinct_map_filter)
  moreover have "inj_on absPath (set (map fst (filter (grepped fs D glob root) ?es)))"
  proof (rule inj_onI)
    fix p q
    assume "p \<in> set (map fst (filter (grepped fs D glob root) ?es))" "q \<in> set (map fst (filter (grepped fs D glob root) ?es))"
      and "absPath p = absPath q"
    moreover from this have "list_all okComp p" "list_all okComp q"
      using e(1) by (auto simp: entryAt_def dirsAbove_def)
    ultimately show "p = q" by (simp add: absPath_inject)
  qed
  ultimately have "distinct (map absPath (map fst (filter (grepped fs D glob root) ?es)))" by (simp only: distinct_map)
  then show "distinct (map fst files)" by (simp add: files_def grepFiles_def comp_def)
  show "set files = grepAll fs D glob root"
  proof (intro set_eqI iffI)
    fix m
    assume "m \<in> set files"
    then obtain q x where qe: "(q, x) \<in> set ?es" "grepped fs D glob root (q, x)" "m = (absPath q, fst (scanLines (fileData fs q)))"
      by (auto simp: files_def grepFiles_def)
    from e(3) [OF qe(1)] qe(2) obtain i where "nodeAt fs q = Some (NFile i)" by (auto simp: plainEntry_def grepped_def)
    with e(2) [OF qe(1)] qe(2,3) show "m \<in> grepAll fs D glob root"
      by (auto simp: grepAll_def grepped_def fileData_def)
  next
    fix m
    assume "m \<in> grepAll fs D glob root"
    then obtain q i where q: "m = (absPath q, fst (scanLines (i_data (fs_inodes fs i))))" "prefix root q"
      "nodeAt fs q = Some (NFile i)" "grepGlobIncludes D glob (absPath q) (relText root q)" "textData (i_data (fs_inodes fs i))"
      by (auto simp: grepAll_def)
    with assms(2) have "dirsAbove fs q" "length q \<le> length root + walkDepth" by (auto simp: treeClosed_def)
    then have "q \<in> set (map fst ?es)" by (rule treeOf_complete [OF assms(1) q(3,2)])
    then obtain d' where d': "(q, d') \<in> set ?es" by auto
    with e(1) [OF d'] q have "grepped fs D glob root (q, d')"
      by (auto simp: grepped_def entryAt_def deIsDir_def fileData_def)
    with d' q show "m \<in> set files" by (auto simp: files_def grepFiles_def fileData_def intro!: image_eqI [of _ _ "(q, d')"])
  qed
qed

section \<open>The exact answer\<close>

lemma collected:
  assumes "mode \<in> {grepModeFiles, grepModeCount, grepModeOutput}" and "0 \<le> ctx" and "distinct (map fst files)"
    and "\<And>path ls. (path, ls) \<in> set files \<Longrightarrow> ctx + int (length ls) < 2 ^ 63"
  shows "gc_lines (endFile (collectFiles re files (newCollector mode ctx))) = grepLines mode ctx re False files"
proof -
  let ?c = "newCollector mode ctx"
  have c: "gc_mode ?c = mode" "gc_lines ?c = []" "gc_contextLines ?c = ctx" "betweenFiles ?c" "gc_emitted ?c = False"
    by (simp_all add: newCollector_def betweenFiles_def)
  have short: "int (length ls) < 2 ^ 63" if "(path, ls) \<in> set files" for path ls using assms(2,4) that by fastforce
  consider "mode = grepModeOutput" | "mode = grepModeCount" | "mode = grepModeFiles" using assms(1) by blast
  then show ?thesis
  proof cases
    case 1
    with collect_content [of ?c files re] c assms(2,4) show ?thesis by (auto simp: endFile_def betweenFiles_def)
  next
    case 2
    with collect_count [of ?c files re ctx False] c assms(3) short show ?thesis by (simp add: endFile_def)
  next
    case 3
    with collect_names [of ?c files re ctx False] c assms(3) show ?thesis by (simp add: endFile_def)
  qed
qed

lemma run_grepFallback_quiet:
  assumes "calm fs None h" and "realDir fs root" and "treeClosed fs root" and "plainTree fs root (si_Context inp)"
    and "mode \<in> {grepModeFiles, grepModeCount, grepModeOutput}" and "0 \<le> si_Context inp"
    and "gl_Compile G ((if si_CaseInsensitive inp then ''(?i)'' else []) @ si_Pattern inp) = Inr re"
  shows "\<exists>files h'. run_state (grepFallback c G D inp mode [absPath root]) h =
      (Inr (grepLines mode (si_Context inp) re False files, False), h') \<and>
      distinct (map fst files) \<and> set files = grepAll fs D (si_Glob inp) root"
proof -
  from assms(2) obtain i where i: "dirsAbove fs root" "nodeAt fs root = Some (NDir i)" by (auto simp: realDir_def)
  define d where "d = \<lparr>de_name = Base (absPath root), de_kind = KDir, de_info = Some (infoOf fs (NDir i))\<rparr>"
  have dir: "deIsDir d" and e: "entryAt fs root d" using i by (simp_all add: entryAt_def deIsDir_def d_def)
  let ?t = "treeOf fs walkDepth root d" and ?c = "newCollector mode (si_Context inp)"
  let ?files = "grepFiles fs D (si_Glob inp) root ?t"
  note files = grepFiles_all [OF e assms(3) dir assms(4), of D "si_Glob inp"]
  have "list_all (plainEntry fs) ?t" using treeOf_plain [OF e assms(4)] by (auto simp: list_all_iff)
  from grepquiet.WalkDir_walked [OF assms(1) i(2,1) d_def this, of D re "si_Glob inp" "(?c, False)"] obtain h' where
    walk: "run_state (WalkDir (grepVisit D re (si_Glob inp) (absPath root)) (absPath root) (?c, False)) h =
      ((None, collectFiles re ?files ?c, False), h')" by (auto simp: foldl_grepSeen)
  have "si_Context inp + int (length ls) < 2 ^ 63" if "(path, ls) \<in> set ?files" for path ls
    using that assms(4) unfolding files(2) grepAll_def plainTree_def by fastforce
  note lines = collected [OF assms(5,6) files(1) this, where re = re]
  have timeout: "run_state (withTimeout 1) h = ((), h)" using calm_ctx [OF assms(1)] by (simp add: withTimeout_def)
  have "run_state (grepFallback c G D inp mode [absPath root]) h =
      (Inr (grepLines mode (si_Context inp) re False ?files, False), h')"
    using walk lines timeout by (simp add: grepFallback_def assms(7) run_bindE)
  with files show ?thesis by blast
qed

definition grepMode :: "GrepInput \<Rightarrow> bytes" where
  "grepMode inp = (if si_OutputMode inp = [] then grepModeFiles else si_OutputMode inp)"


definition demoGrepLib :: grepLib where
  "demoGrepLib = \<lparr>gl_rgBin = [], gl_rg = (\<lambda>h as. \<lparr>rg_stdout = [], rg_stderr = [], rg_exit = RgNotRun, rg_errText = []\<rparr>),
     gl_Compile = (\<lambda>p. Inr (\<lambda>l. contains l p))\<rparr>"

definition demoGrep :: GrepInput where
  "demoGrep = \<lparr>si_Pattern = ''b'', si_Path = ''/d'', si_Glob = [], si_OutputMode = ''content'', si_CaseInsensitive = False,
     si_Context = 1, si_HeadLimit = 0\<rparr>"


text \<open>Past that bound a line number plus the context wraps around: two matching lines of a file come out as
  one separator.\<close>

lemma grep_context_overflow:
  "gc_lines (endFile (collectFiles (\<lambda>l. l = ''b'') [(''/f'', [''a'', ''b'', ''b''])] (newCollector grepModeOutput (2 ^ 63 - 1)))) = [''--'']"
  by code_simp

end
