(* ===== verification/Policy.thy ===== *)
theory Policy
  imports HostIO Utf8
begin

text \<open>
  The URL and address policy of the image download (\<open>imagedownload/policy.go\<close>): which URLs may be
  fetched, which addresses may be dialed, and the resolution of a host name to addresses that may. A
  parsed URL is what \<open>url.Parse\<close> returns of it; the DNS resolver is part of the \<open>world\<close>, whose answers
  are any functions of the state in which they are given. \<open>lower\<close> is the Unicode table of
  \<open>strings.ToLower\<close>.
\<close>

record URL =
  u_Scheme :: bytes
  u_User :: "bytes option"
  u_Host :: bytes
  u_Rest :: bytes
  u_Fragment :: bytes
  u_RawFragment :: bytes

text \<open>\<open>url.URL.Hostname\<close> and \<open>url.URL.Port\<close>.\<close>

definition validOptionalPort :: "bytes \<Rightarrow> bool" where
  "validOptionalPort p \<longleftrightarrow> p = [] \<or> (hd p = CHR '':'' \<and> list_all (\<lambda>c. digitVal c \<noteq> None) (tl p))"

definition lastIndexByte :: "bytes \<Rightarrow> char \<Rightarrow> nat option" where
  "lastIndexByte s c = (if c \<in> set s then Some (length s - 1 - length (takeWhile (\<lambda>x. x \<noteq> c) (rev s))) else None)"

definition splitHostPort :: "bytes \<Rightarrow> bytes \<times> bytes" where
  "splitHostPort hostPort =
     (let (host, port) =
        (case lastIndexByte hostPort CHR '':'' of
           Some i \<Rightarrow> if validOptionalPort (drop i hostPort) then (take i hostPort, drop (i + 1) hostPort) else (hostPort, [])
         | None \<Rightarrow> (hostPort, []))
      in (if hasPrefix host ''['' \<and> hasSuffix host '']'' then butlast (tl host) else host, port))"

definition Hostname :: "URL \<Rightarrow> bytes" where
  "Hostname u = fst (splitHostPort (u_Host u))"

definition Port :: "URL \<Rightarrow> bytes" where
  "Port u = snd (splitHostPort (u_Host u))"

section \<open>The address verdict\<close>

definition special4 :: "(Addr \<times> nat) list" where
  "special4 =
     [(Addr4 0x00000000, 8), (Addr4 0x64400000, 10), (Addr4 0xc0000000, 24), (Addr4 0xc0000200, 24),
      (Addr4 0xc034c100, 24), (Addr4 0xc0580000, 24), (Addr4 0xc6120000, 15), (Addr4 0xc6336400, 24),
      (Addr4 0xcb007100, 24), (Addr4 0xf0000000, 4), (Addr4 0xffffffff, 32)]"

definition special6 :: "(Addr \<times> nat) list" where
  "special6 =
     [(Addr6 0x0064ff9b000000000000000000000000 [], 96), (Addr6 0x0064ff9b000100000000000000000000 [], 48),
      (Addr6 0x01000000000000000000000000000000 [], 64), (Addr6 0x20010000000000000000000000000000 [], 32),
      (Addr6 0x20010002000000000000000000000000 [], 48), (Addr6 0x20010db8000000000000000000000000 [], 32),
      (Addr6 0x20020000000000000000000000000000 [], 16), (Addr6 0x3ffe0000000000000000000000000000 [], 20),
      (Addr6 0x5f000000000000000000000000000000 [], 16)]"

text \<open>\<open>AllowedIP\<close>, with its loop over a table.\<close>

fun noneContains :: "(Addr \<times> nat) list \<Rightarrow> Addr \<Rightarrow> bool" where
  "noneContains [] a = True"
| "noneContains (pfx # ps) a = (if Contains pfx a then False else noneContains ps a)"

definition AllowedIP :: "Addr \<Rightarrow> bool" where
  "AllowedIP a0 =
     (let a = Unmap a0 in
      if a = NoAddr then False
      else if IsLoopback a \<or> IsPrivate a \<or> IsLinkLocalUnicast a \<or> IsLinkLocalMulticast a \<or> IsMulticast a \<or>
        IsUnspecified a \<or> \<not> IsGlobalUnicast a then False
      else if Is4 a then noneContains special4 a
      else noneContains special6 a)"

section \<open>The URL verdict\<close>

definition internalSuffixes :: "bytes list" where
  "internalSuffixes = [''.localhost'', ''.local'', ''.localdomain'', ''.internal'', ''.lan'', ''.home'', ''.corp'', ''.intranet'']"

fun noSuffix :: "bytes list \<Rightarrow> bytes \<Rightarrow> bool" where
  "noSuffix [] h = True"
| "noSuffix (sfx # ss) h = (if hasSuffix h sfx then False else noSuffix ss h)"

definition allowedHostName :: "(nat \<Rightarrow> nat) \<Rightarrow> bytes \<Rightarrow> bool" where
  "allowedHostName lower host =
     (let h = toLower lower (trimSuffix host ''.'')
      in if h = ''localhost'' then False
         else if \<not> contains h ''.'' then False
         else noSuffix internalSuffixes h)"

definition reasonScheme :: bytes where "reasonScheme = ''the scheme must be https''"
definition reasonUserinfo :: bytes where "reasonUserinfo = ''credentials in the URL are not allowed''"
definition reasonFragment :: bytes where "reasonFragment = ''fragments are not allowed''"
definition reasonEmptyHost :: bytes where "reasonEmptyHost = ''the host is empty''"
definition reasonPort :: bytes where "reasonPort = ''only port 443 (or the default port) is allowed''"
definition reasonZone :: bytes where "reasonZone = ''IPv6 zone identifiers are not allowed''"
definition reasonSingleLabel :: bytes where "reasonSingleLabel = ''single-label hostnames are not allowed''"
definition reasonInternalName :: bytes where "reasonInternalName = ''internal hostname suffixes are not allowed''"
definition reasonHostChars :: bytes where "reasonHostChars = ''the host contains characters that are not allowed''"

definition badURL :: "bytes \<Rightarrow> goerr option" where
  "badURL reason = Some (ImgErr ImgBadURL reason 0)"

definition ValidateURL :: "(nat \<Rightarrow> nat) \<Rightarrow> URL \<Rightarrow> goerr option" where
  "ValidateURL lower u =
     (if u_Scheme u \<noteq> ''https'' then badURL reasonScheme
      else if u_User u \<noteq> None then badURL reasonUserinfo
      else if u_Fragment u \<noteq> [] \<or> u_RawFragment u \<noteq> [] then badURL reasonFragment
      else
        let host = Hostname u; port = Port u
        in if host = [] then badURL reasonEmptyHost
           else if port \<noteq> [] \<and> port \<noteq> ''443'' then badURL reasonPort
           else if contains host ''%'' then badURL reasonZone
           else if length host > 253 then badURL reasonHostChars
           else if ParseAddr host \<noteq> None then None
           else if \<not> allowedHostName lower host then
             (if \<not> contains (toLower lower host) ''.'' then badURL reasonSingleLabel else badURL reasonInternalName)
           else None)"

section \<open>Resolution\<close>

text \<open>The outside of the program: what it answers in the state it is asked in.\<close>

record world =
  w_lookup :: "host \<Rightarrow> bytes \<Rightarrow> (goerr, Addr list) result"
  w_stageOver :: "host \<Rightarrow> bool"
  w_dial :: "host \<Rightarrow> Addr \<Rightarrow> goerr option"
  w_peer :: "host \<Rightarrow> Addr option"
  w_handshake :: "host \<Rightarrow> bytes \<Rightarrow> goerr option"

text \<open>One exchange with the outside: time passes, then the answer is taken.\<close>

definition netCall :: "netEvent \<Rightarrow> (host \<Rightarrow> 'a) \<Rightarrow> 'a io" where
  "netCall ev answer =
     nextTick \<bind> (\<lambda>_. modify (\<lambda>h. h\<lparr>h_net := h_net h @ [ev]\<rparr>) \<bind> (\<lambda>_. gets answer))"

fun checkAddrs :: "bytes \<Rightarrow> Addr list \<Rightarrow> Addr list \<Rightarrow> (goerr, Addr list) result" where
  "checkAddrs host acc [] = Inr acc"
| "checkAddrs host acc (a # as) =
     (let b = Unmap a in if \<not> AllowedIP b then Inl (ImgErr ImgBlocked host 0) else checkAddrs host (acc @ [b]) as)"

definition ResolveHost :: "world \<Rightarrow> bytes \<Rightarrow> Addr list ioe" where
  "ResolveHost W host =
     (case ParseAddr host of
        Some ip \<Rightarrow> if \<not> AllowedIP (Unmap ip) then err (ImgErr ImgBlocked host 0) else ok [Unmap ip]
      | None \<Rightarrow>
          netCall (NetLookup host) (\<lambda>h. w_lookup W h host) \<bind> (\<lambda>r.
          case r of
            Inl _ \<Rightarrow> err (ImgErr ImgNet ''dns lookup'' 0)
          | Inr addrs \<Rightarrow>
              if addrs = [] then err (ImgErr ImgBlocked host 0) else liftR (checkAddrs host [] addrs)))"

section \<open>What the verdict says\<close>

text \<open>The bit operations of the verdict as arithmetic on the number of the address.\<close>

lemma xor_zero_iff: "a XOR b = 0 \<longleftrightarrow> a = (b :: 'a::len word)"
  by (metis xor.assoc xor_self_eq xor.left_neutral xor.right_neutral)

lemma unat_drop_bit_div: "unat (drop_bit n w) = unat w div 2 ^ n"
  by (subst unat_drop_bit_eq) (simp only: drop_bit_nat_def)

lemma drop_bit_xor_eq: "drop_bit n (a XOR p) = 0 \<longleftrightarrow> unat a div 2 ^ n = unat (p :: 'a::len word) div 2 ^ n"
proof -
  have "drop_bit n (a XOR p) = 0 \<longleftrightarrow> drop_bit n a = drop_bit n p" by (simp add: xor_zero_iff)
  also have "\<dots> \<longleftrightarrow> unat (drop_bit n a) = unat (drop_bit n p)" by (simp only: word_unat_eq_iff)
  finally show ?thesis by (simp only: unat_drop_bit_div)
qed

lemma nat_and_mask: "(x :: nat) AND push_bit n (mask k) = push_bit n (take_bit k (drop_bit n x))"
  by (rule bit_eqI) (auto simp: bit_simps)

lemma div_interval: "0 < k \<Longrightarrow> n div k = m \<longleftrightarrow> m * k \<le> n \<and> n < m * k + (k :: nat)"
  by (metis add.commute div_nat_eqI dividend_less_div_times div_times_less_eq_dividend mult.commute mult_Suc)

text \<open>An address block: its first address as a number and its prefix length.\<close>

definition inBlock :: "nat \<Rightarrow> nat \<Rightarrow> nat \<times> nat \<Rightarrow> bool" where
  "inBlock width n b \<longleftrightarrow> fst b \<le> n \<and> n < fst b + 2 ^ (width - snd b)"

lemma inBlock_div: "2 ^ (width - l) dvd p \<Longrightarrow> inBlock width n (p, l) \<longleftrightarrow> n div 2 ^ (width - l) = p div 2 ^ (width - l)"
  by (simp add: inBlock_def div_interval)

lemma Contains_block:
  "2 ^ (32 - l) dvd unat p \<Longrightarrow> Contains (Addr4 p, l) (Addr4 a) \<longleftrightarrow> inBlock 32 (unat a) (unat p, l)"
  "2 ^ (128 - l) dvd unat q \<Longrightarrow> Contains (Addr6 q [], l) (Addr6 b z) \<longleftrightarrow> z = [] \<and> inBlock 128 (unat b) (unat q, l)"
  by (simp_all only: Contains.simps drop_bit_xor_eq inBlock_div)

lemma v4_div:
  "v4 w 0 = unat w div 2 ^ 24" "v4 w (Suc 0) = unat w div 2 ^ 16 mod 256"
proof -
  have "unat w < 2 ^ 32" using unsigned_less [of w, where ?'a = nat] by simp
  then have "unat w div 2 ^ 24 < 256" by (simp add: less_mult_imp_div_less)
  then show "v4 w 0 = unat w div 2 ^ 24" by (simp add: v4_def unat_drop_bit_div)
  show "v4 w (Suc 0) = unat w div 2 ^ 16 mod 256" by (simp add: v4_def unat_drop_bit_div)
qed

lemma v6_div: "v6u16 w 0 = unat w div 2 ^ 112" "v6u16 w 0 < 65536"
proof -
  have "unat w < 2 ^ 128" using unsigned_less [of w, where ?'a = nat] by simp
  then have "unat w div 2 ^ 112 < 65536" by (simp add: less_mult_imp_div_less)
  then show "v6u16 w 0 = unat w div 2 ^ 112" "v6u16 w 0 < 65536"
    by (simp_all add: v6u16_def unat_drop_bit_div)
qed

lemma mask_verdicts:
  "x < 256 \<Longrightarrow> (x :: nat) AND 240 = 224 \<longleftrightarrow> x div 16 = 14" "x < 256 \<Longrightarrow> (x :: nat) AND 240 = 16 \<longleftrightarrow> x div 16 = 1"
  "y < 65536 \<Longrightarrow> (y :: nat) AND 65024 = 64512 \<longleftrightarrow> y div 512 = 126"
  "y < 65536 \<Longrightarrow> (y :: nat) AND 65472 = 65152 \<longleftrightarrow> y div 64 = 1018"
proof -
  have m: "(240 :: nat) = push_bit 4 (mask 4)" "(65024 :: nat) = push_bit 9 (mask 7)" "(65472 :: nat) = push_bit 6 (mask 10)"
    by (simp_all add: push_bit_eq_mult mask_eq_exp_minus_1)
  show "x < 256 \<Longrightarrow> (x :: nat) AND 240 = 224 \<longleftrightarrow> x div 16 = 14" "x < 256 \<Longrightarrow> (x :: nat) AND 240 = 16 \<longleftrightarrow> x div 16 = 1"
    "y < 65536 \<Longrightarrow> (y :: nat) AND 65024 = 64512 \<longleftrightarrow> y div 512 = 126"
    "y < 65536 \<Longrightarrow> (y :: nat) AND 65472 = 65152 \<longleftrightarrow> y div 64 = 1018"
    unfolding m nat_and_mask
    by (simp_all add: push_bit_eq_mult drop_bit_eq_div take_bit_eq_mod less_mult_imp_div_less)
qed

text \<open>Each builtin verdict as a block.\<close>

lemma split16:
  assumes "(u :: nat) = 256 * a + c mod 256"
  shows "a = 172 \<and> c mod 256 div 16 = 1 \<longleftrightarrow> u div 16 = 2753" "a = 192 \<and> c mod 256 = 168 \<longleftrightarrow> u = 49320"
    "a = 169 \<and> c mod 256 = 254 \<longleftrightarrow> u = 43518"
proof -
  have lt: "c mod 256 < 256" by simp
  then have d: "c mod 256 div 16 < 16" by (simp add: less_mult_imp_div_less)
  have "u div 16 = (16 * a) + c mod 256 div 16"
    using div_mult_self1 [of 16 "c mod 256" "16 * a"] by (simp add: assms add.commute)
  with d show "a = 172 \<and> c mod 256 div 16 = 1 \<longleftrightarrow> u div 16 = 2753"
    by (cases a "172 :: nat" rule: linorder_cases) auto
  from assms lt show "a = 192 \<and> c mod 256 = 168 \<longleftrightarrow> u = 49320" "a = 169 \<and> c mod 256 = 254 \<longleftrightarrow> u = 43518"
    by (cases a "192 :: nat" rule: linorder_cases; cases a "169 :: nat" rule: linorder_cases; auto)+
qed

lemma verdicts4:
  "IsLoopback (Addr4 w) \<longleftrightarrow> inBlock 32 (unat w) (0x7f000000, 8)"
  "IsPrivate (Addr4 w) \<longleftrightarrow> inBlock 32 (unat w) (0x0a000000, 8) \<or> inBlock 32 (unat w) (0xac100000, 12) \<or>
     inBlock 32 (unat w) (0xc0a80000, 16)"
  "IsLinkLocalUnicast (Addr4 w) \<longleftrightarrow> inBlock 32 (unat w) (0xa9fe0000, 16)"
  "IsMulticast (Addr4 w) \<longleftrightarrow> inBlock 32 (unat w) (0xe0000000, 4)"
  "IsLinkLocalMulticast (Addr4 w) \<Longrightarrow> IsMulticast (Addr4 w)"
proof -
  have lt: "unat w < 4294967296" using unsigned_less [of w, where ?'a = nat] by simp
  then have b: "unat w div 16777216 < 256" by (simp add: less_mult_imp_div_less)
  have two: "unat w div 65536 = 256 * (unat w div 16777216) + unat w div 65536 mod 256"
    using div_mult_mod_eq [of "unat w div 65536" 256] by (simp add: div_mult2_eq [symmetric])
  have twenty: "unat w div 1048576 = unat w div 65536 div 16" by (simp add: div_mult2_eq [symmetric])
  show "IsLoopback (Addr4 w) \<longleftrightarrow> inBlock 32 (unat w) (0x7f000000, 8)"
    "IsMulticast (Addr4 w) \<longleftrightarrow> inBlock 32 (unat w) (0xe0000000, 4)"
    "IsLinkLocalMulticast (Addr4 w) \<Longrightarrow> IsMulticast (Addr4 w)"
    using b by (simp_all add: v4_div inBlock_div mask_verdicts div_mult2_eq [symmetric])
  show "IsLinkLocalUnicast (Addr4 w) \<longleftrightarrow> inBlock 32 (unat w) (0xa9fe0000, 16)"
    using b split16 [OF two] by (simp add: v4_div inBlock_div)
  show "IsPrivate (Addr4 w) \<longleftrightarrow> inBlock 32 (unat w) (0x0a000000, 8) \<or> inBlock 32 (unat w) (0xac100000, 12) \<or>
     inBlock 32 (unat w) (0xc0a80000, 16)"
    using b split16 [OF two] by (simp add: v4_div inBlock_div mask_verdicts twenty)
qed

lemma verdicts6:
  assumes "\<not> Is4In6 w"
  shows "IsLoopback (Addr6 w z) \<longleftrightarrow> inBlock 128 (unat w) (1, 128)"
    "IsPrivate (Addr6 w z) \<longleftrightarrow> inBlock 128 (unat w) (0xfc000000000000000000000000000000, 7)"
    "IsLinkLocalUnicast (Addr6 w z) \<longleftrightarrow> inBlock 128 (unat w) (0xfe800000000000000000000000000000, 10)"
    "IsMulticast (Addr6 w z) \<longleftrightarrow> inBlock 128 (unat w) (0xff000000000000000000000000000000, 8)"
    "IsLinkLocalMulticast (Addr6 w z) \<Longrightarrow> IsMulticast (Addr6 w z)"
proof -
  have "w = 1 \<longleftrightarrow> unat w = 1" by (simp add: word_unat_eq_iff)
  with assms show "IsLoopback (Addr6 w z) \<longleftrightarrow> inBlock 128 (unat w) (1, 128)" by (auto simp: inBlock_def)
  show "IsPrivate (Addr6 w z) \<longleftrightarrow> inBlock 128 (unat w) (0xfc000000000000000000000000000000, 7)"
    "IsLinkLocalUnicast (Addr6 w z) \<longleftrightarrow> inBlock 128 (unat w) (0xfe800000000000000000000000000000, 10)"
    "IsMulticast (Addr6 w z) \<longleftrightarrow> inBlock 128 (unat w) (0xff000000000000000000000000000000, 8)"
    using assms v6_div(2) [of w]
    by (simp_all add: mask_verdicts inBlock_div v6_div(1) div_mult2_eq [symmetric])
  have m: "(65295 :: nat) AND x = 65282 \<Longrightarrow> x < 65536 \<Longrightarrow> x div 256 = 255" for x
  proof -
    assume "(65295 :: nat) AND x = 65282" and lt: "x < 65536"
    then have "drop_bit 8 (65295 AND x) = 255" by (simp add: drop_bit_eq_div)
    moreover have "drop_bit 8 (65295 AND x) = mask 8 AND (x div 256)"
      unfolding drop_bit_and by (simp add: drop_bit_eq_div mask_eq_exp_minus_1)
    moreover have "mask 8 AND (x div 256) = x div 256"
      using lt by (simp add: and.commute [of "mask 8"] take_bit_eq_mask [symmetric] take_bit_nat_eq_self_iff less_mult_imp_div_less)
    ultimately show ?thesis by simp
  qed
  show "IsLinkLocalMulticast (Addr6 w z) \<Longrightarrow> IsMulticast (Addr6 w z)"
    using assms m [of "v6u16 w 0"] v6_div(2) [of w] by (simp add: and.commute)
qed

text \<open>The blocks that are refused, as a reference: IPv4, IPv6 without a zone and IPv6 with one.\<close>

definition reserved4 :: "(nat \<times> nat) list" where
  "reserved4 =
     [(0x00000000, 8), (0x0a000000, 8), (0x64400000, 10), (0x7f000000, 8), (0xa9fe0000, 16), (0xac100000, 12),
      (0xc0000000, 24), (0xc0000200, 24), (0xc034c100, 24), (0xc0580000, 24), (0xc0a80000, 16), (0xc6120000, 15),
      (0xc6336400, 24), (0xcb007100, 24), (0xe0000000, 4), (0xf0000000, 4)]"

definition zoned6 :: "(nat \<times> nat) list" where
  "zoned6 =
     [(1, 128), (0xfc000000000000000000000000000000, 7), (0xfe800000000000000000000000000000, 10),
      (0xff000000000000000000000000000000, 8)]"

definition reserved6 :: "(nat \<times> nat) list" where
  "reserved6 = zoned6 @
     [(0, 128), (0x0064ff9b000000000000000000000000, 96), (0x0064ff9b000100000000000000000000, 48),
      (0x01000000000000000000000000000000, 64), (0x20010000000000000000000000000000, 32),
      (0x20010002000000000000000000000000, 48), (0x20010db8000000000000000000000000, 32),
      (0x20020000000000000000000000000000, 16), (0x3ffe0000000000000000000000000000, 20),
      (0x5f000000000000000000000000000000, 16)]"

lemma noneContains_iff: "noneContains ps a \<longleftrightarrow> list_all (\<lambda>p. \<not> Contains p a) ps"
  by (induction ps) auto

lemma special_blocks:
  "noneContains special4 (Addr4 w) \<longleftrightarrow> list_all (\<lambda>b. \<not> inBlock 32 (unat w) b)
     [(0x00000000, 8), (0x64400000, 10), (0xc0000000, 24), (0xc0000200, 24), (0xc034c100, 24), (0xc0580000, 24),
      (0xc6120000, 15), (0xc6336400, 24), (0xcb007100, 24), (0xf0000000, 4), (0xffffffff, 32)]"
  "noneContains special6 (Addr6 v z) \<longleftrightarrow> (z = [] \<longrightarrow> list_all (\<lambda>b. \<not> inBlock 128 (unat v) b) (drop 5 reserved6))"
proof -
  show "noneContains special4 (Addr4 w) \<longleftrightarrow> list_all (\<lambda>b. \<not> inBlock 32 (unat w) b)
     [(0x00000000, 8), (0x64400000, 10), (0xc0000000, 24), (0xc0000200, 24), (0xc034c100, 24), (0xc0580000, 24),
      (0xc6120000, 15), (0xc6336400, 24), (0xcb007100, 24), (0xf0000000, 4), (0xffffffff, 32)]"
    unfolding noneContains_iff special4_def list.pred_inject by (simp add: Contains_block del: Contains.simps)
  show "noneContains special6 (Addr6 v z) \<longleftrightarrow> (z = [] \<longrightarrow> list_all (\<lambda>b. \<not> inBlock 128 (unat v) b) (drop 5 reserved6))"
    unfolding noneContains_iff special6_def list.pred_inject
    by (cases "z = []") (simp_all add: Contains_block reserved6_def zoned6_def del: Contains.simps)
qed

lemma globalUnicast:
  "IsGlobalUnicast (Addr4 w) \<longleftrightarrow> w \<noteq> 0 \<and> w \<noteq> 0xffffffff \<and> \<not> IsLoopback (Addr4 w) \<and> \<not> IsMulticast (Addr4 w) \<and>
     \<not> IsLinkLocalUnicast (Addr4 w)"
  "\<not> Is4In6 v \<Longrightarrow> IsGlobalUnicast (Addr6 v z) \<longleftrightarrow> \<not> (v = 0 \<and> z = []) \<and> \<not> IsLoopback (Addr6 v z) \<and>
     \<not> IsMulticast (Addr6 v z) \<and> \<not> IsLinkLocalUnicast (Addr6 v z)"
  by (auto simp: IsGlobalUnicast_def)

lemma AllowedIP_blocks:
  "AllowedIP (Addr4 w) \<longleftrightarrow> list_all (\<lambda>b. \<not> inBlock 32 (unat w) b) reserved4"
  "AllowedIP (Addr6 v z) \<longleftrightarrow>
     (if Is4In6 v then AllowedIP (Addr4 (ucast v))
      else list_all (\<lambda>b. \<not> inBlock 128 (unat v) b) (if z = [] then reserved6 else zoned6))"
proof -
  have ends: "w = 0 \<longleftrightarrow> inBlock 32 (unat w) (0, 32)" "w = 0xffffffff \<longleftrightarrow> inBlock 32 (unat w) (0xffffffff, 32)"
    "v = 0 \<longleftrightarrow> inBlock 128 (unat v) (0, 128)"
    by (auto simp: inBlock_def word_unat_eq_iff)
  show "AllowedIP (Addr4 w) \<longleftrightarrow> list_all (\<lambda>b. \<not> inBlock 32 (unat w) b) reserved4"
  proof -
    have sub: "inBlock 32 (unat w) (0, 32) \<Longrightarrow> inBlock 32 (unat w) (0, 8)"
      "inBlock 32 (unat w) (0xffffffff, 32) \<Longrightarrow> inBlock 32 (unat w) (0xf0000000, 4)"
      by (simp_all add: inBlock_def)
    have "AllowedIP (Addr4 w) \<longleftrightarrow> \<not> IsLoopback (Addr4 w) \<and> \<not> IsPrivate (Addr4 w) \<and> \<not> IsLinkLocalUnicast (Addr4 w) \<and>
        \<not> IsMulticast (Addr4 w) \<and> w \<noteq> 0 \<and> w \<noteq> 0xffffffff \<and> noneContains special4 (Addr4 w)"
      unfolding AllowedIP_def Let_def Unmap.simps globalUnicast IsUnspecified_def
      using verdicts4(5) [of w] by (simp del: IsLoopback.simps IsPrivate.simps IsLinkLocalUnicast.simps IsMulticast.simps
          IsLinkLocalMulticast.simps)
    also have "\<dots> \<longleftrightarrow> list_all (\<lambda>b. \<not> inBlock 32 (unat w) b) reserved4"
      unfolding verdicts4(1-4) ends special_blocks(1) reserved4_def list.pred_inject using sub by argo
    finally show ?thesis .
  qed
  show "AllowedIP (Addr6 v z) \<longleftrightarrow>
     (if Is4In6 v then AllowedIP (Addr4 (ucast v))
      else list_all (\<lambda>b. \<not> inBlock 128 (unat v) b) (if z = [] then reserved6 else zoned6))"
  proof (cases "Is4In6 v")
    case True
    then show ?thesis by (simp add: AllowedIP_def)
  next
    case False
    note v6 = verdicts6 [OF False, of z]
    have "AllowedIP (Addr6 v z) \<longleftrightarrow> \<not> IsLoopback (Addr6 v z) \<and> \<not> IsPrivate (Addr6 v z) \<and>
        \<not> IsLinkLocalUnicast (Addr6 v z) \<and> \<not> IsMulticast (Addr6 v z) \<and> \<not> (v = 0 \<and> z = []) \<and>
        noneContains special6 (Addr6 v z)"
      unfolding AllowedIP_def Let_def Unmap.simps if_not_P [OF False] globalUnicast(2) [OF False] IsUnspecified_def
      using v6(5) by (simp del: IsLoopback.simps IsPrivate.simps IsLinkLocalUnicast.simps IsMulticast.simps
          IsLinkLocalMulticast.simps)
    also have "\<dots> \<longleftrightarrow> list_all (\<lambda>b. \<not> inBlock 128 (unat v) b) (if z = [] then reserved6 else zoned6)"
      unfolding v6(1-4) ends special_blocks(2) by (auto simp: reserved6_def zoned6_def)
    finally show ?thesis using False by simp
  qed
qed

text \<open>C23. The address verdict is exactly this: an IPv4 address is allowed outside the listed blocks, an
  IPv4-mapped address as the IPv4 address it maps, an IPv6 address outside the listed blocks of its kind,
  and the zero address never. In particular an address with a zone escapes the table of special blocks, and
  192.88.99.0/24, the deprecated 6to4 relay, is not among the refused blocks.\<close>

theorem allowed_ip_exact:
  "(AllowedIP (Addr4 w) \<longleftrightarrow> list_all (\<lambda>b. \<not> inBlock 32 (unat w) b) reserved4) \<and>
   (AllowedIP (Addr6 v z) \<longleftrightarrow>
     (if Is4In6 v then AllowedIP (Addr4 (ucast v))
      else list_all (\<lambda>b. \<not> inBlock 128 (unat v) b) (if z = [] then reserved6 else zoned6))) \<and>
   \<not> AllowedIP NoAddr"
  by (intro conjI AllowedIP_blocks) (simp add: AllowedIP_def)

end
