(* ===== verification/Client.thy ===== *)
theory Client
  imports Policy
begin

text \<open>
  The restricted HTTPS client (\<open>imagedownload/client.go\<close>): \<open>Get\<close> with its explicit redirect loop, the dial
  hook of the transport and the error classification. The outside (\<open>world\<close>) answers name lookups,
  connection attempts, handshakes and requests; \<open>urlLib\<close> is \<open>net/url\<close> and the request constructor.
  \<open>RoundTrip\<close> is the outside's: how \<open>http.Transport\<close> pools connections is not modelled, every connection
  it opens comes from \<open>dialTLS\<close>.
\<close>

text \<open>A response body: the chunks that arrive, then the end of the stream or an error.\<close>

record body =
  bd_chunks :: "bytes list"
  bd_end :: "goerr option"

record httpResp =
  hr_StatusCode :: nat
  hr_Header :: "bytes \<Rightarrow> bytes"
  hr_ContentLength :: int
  hr_Body :: body

record Response =
  rs_StatusCode :: nat
  rs_Header :: "bytes \<Rightarrow> bytes"
  rs_Body :: body
  rs_ContentLength :: int
  rs_URL :: URL

record urlLib =
  ul_Parse :: "bytes \<Rightarrow> URL option"
  ul_String :: "URL \<Rightarrow> bytes"
  ul_ResolveReference :: "URL \<Rightarrow> URL \<Rightarrow> URL"
  ul_NewRequest :: "bytes \<Rightarrow> bool"

record Limits =
  l_MaxURLBytes :: nat
  l_MaxImageBytes :: int
  l_MaxRedirects :: nat
  l_DNSLimit :: nat
  l_ConnectLimit :: nat
  l_TLSLimit :: nat
  l_HeaderLimit :: nat
  l_MaxHeaderBytes :: int
  l_SniffBytes :: nat
  l_SVGPrologBytes :: nat
  l_CopyBuffer :: nat

definition DefaultLimits :: Limits where
  "DefaultLimits = \<lparr>l_MaxURLBytes = 8192, l_MaxImageBytes = 20 * 2 ^ 20, l_MaxRedirects = 3, l_DNSLimit = 2000,
     l_ConnectLimit = 3000, l_TLSLimit = 3000, l_HeaderLimit = 5000, l_MaxHeaderBytes = 64 * 2 ^ 10,
     l_SniffBytes = 512, l_SVGPrologBytes = 64 * 2 ^ 10, l_CopyBuffer = 32 * 2 ^ 10\<rparr>"

text \<open>A fetcher with its policy, its limits and what it talks to.\<close>

record Fetcher =
  f_lower :: "nat \<Rightarrow> nat"
  f_world :: world
  f_roundTrip :: "host \<Rightarrow> bytes \<Rightarrow> (goerr, httpResp) result"
  f_url :: urlLib
  f_limits :: Limits

definition NewFetcher :: "(nat \<Rightarrow> nat) \<Rightarrow> world \<Rightarrow> (host \<Rightarrow> bytes \<Rightarrow> (goerr, httpResp) result) \<Rightarrow> urlLib \<Rightarrow> Fetcher" where
  "NewFetcher lower W rt U =
     \<lparr>f_lower = lower, f_world = W, f_roundTrip = rt, f_url = U, f_limits = DefaultLimits\<rparr>"

section \<open>Error classification\<close>

definition StageDNS :: bytes where "StageDNS = ''dns lookup''"
definition StageConnect :: bytes where "StageConnect = ''connection''"
definition StageTLS :: bytes where "StageTLS = ''tls handshake''"
definition StageHeader :: bytes where "StageHeader = ''response header''"
definition StageBody :: bytes where "StageBody = ''response body''"
definition ReasonEncoding :: bytes where "ReasonEncoding = ''unsupported content encoding''"
definition ReasonTrunc :: bytes where "ReasonTrunc = ''truncated response body''"
definition ReasonConflict :: bytes where "ReasonConflict = ''content type conflicts with the detected image type''"
definition ReasonEmpty :: bytes where "ReasonEmpty = ''empty response body''"
definition ReasonRemoteIP :: bytes where "ReasonRemoteIP = ''dialed address changed unexpectedly''"

definition classifyTransport :: "goerr \<Rightarrow> goerr" where
  "classifyTransport e =
     (case asImgErr e of
        Some (k, d, st) \<Rightarrow> ImgErr k d st
      | None \<Rightarrow>
          if isCtxErr e DeadlineExceeded then ImgErr ImgTimeout StageHeader 0
          else if isTimeout e then ImgErr ImgTimeout StageHeader 0
          else ImgErr ImgNet StageConnect 0)"

section \<open>Connecting\<close>

text \<open>\<open>net.SplitHostPort\<close>.\<close>

definition SplitHostPort :: "bytes \<Rightarrow> (bytes \<times> bytes) option" where
  "SplitHostPort hp =
     (case lastIndexByte hp CHR '':'' of
        None \<Rightarrow> None
      | Some i \<Rightarrow>
          (let bracket = (hp \<noteq> [] \<and> hd hp = CHR ''[''); close = index hp '']''
           in if bracket then
                (case close of
                   None \<Rightarrow> None
                 | Some e \<Rightarrow>
                     if e + 1 \<noteq> i then None
                     else if contains (drop 1 hp) ''['' \<or> contains (drop (e + 1) hp) '']'' then None
                     else Some (drop 1 (take e hp), drop (i + 1) hp))
              else if contains (take i hp) '':'' then None
              else if contains hp ''['' \<or> contains hp '']'' then None
              else Some (take i hp, drop (i + 1) hp)))"

text \<open>Whether a stage's own context has ended: its timer, or the caller's context.\<close>

definition stageErr :: "world \<Rightarrow> nat \<Rightarrow> host \<Rightarrow> bool" where
  "stageErr W ctx h \<longleftrightarrow> w_stageOver W h \<or> ctxErrAt (Some ctx) h \<noteq> None"

definition resolveOnce :: "Fetcher \<Rightarrow> nat \<Rightarrow> bytes \<Rightarrow> Addr list ioe" where
  "resolveOnce F ctx host =
     ResolveHost (f_world F) host \<bind> (\<lambda>r.
     case r of
       Inr ips \<Rightarrow> ok ips
     | Inl e \<Rightarrow>
         gets (stageErr (f_world F) ctx) \<bind> (\<lambda>over.
         if isCtxErr e DeadlineExceeded \<or> over then err (ImgErr ImgTimeout StageDNS 0) else err e))"

definition remoteIs :: "world \<Rightarrow> Addr \<Rightarrow> bool io" where
  "remoteIs W ip =
     gets (\<lambda>h. case w_peer W h of None \<Rightarrow> False | Some rip \<Rightarrow> rip \<noteq> NoAddr \<and> Unmap rip = ip)"

definition closeConn :: "Addr \<Rightarrow> unit io" where
  "closeConn ip = netCall (NetClose ip) (\<lambda>_. ())"

text \<open>A connection is its peer's address.\<close>

definition dialOne :: "Fetcher \<Rightarrow> nat \<Rightarrow> bytes \<Rightarrow> Addr \<Rightarrow> Addr ioe" where
  "dialOne F ctx host ip =
     netCall (NetDial ip) (\<lambda>h. w_dial (f_world F) h ip) \<bind> (\<lambda>d.
     case d of
       Some e \<Rightarrow> err (classifyTransport e)
     | None \<Rightarrow>
         remoteIs (f_world F) ip \<bind> (\<lambda>same.
         if \<not> same then closeConn ip \<bind> (\<lambda>_. err (ImgErr ImgNet ReasonRemoteIP 0))
         else
           netCall (NetTLS host ip) (\<lambda>h. (w_handshake (f_world F) h host, stageErr (f_world F) ctx h)) \<bind> (\<lambda>(t, over).
           case t of
             Some e \<Rightarrow>
               closeConn ip \<bind> (\<lambda>_.
               if isCtxErr e DeadlineExceeded \<or> over then err (ImgErr ImgTimeout StageTLS 0)
               else err (ImgErr ImgNet StageTLS 0))
           | None \<Rightarrow>
               remoteIs (f_world F) ip \<bind> (\<lambda>same.
               if \<not> same then closeConn ip \<bind> (\<lambda>_. err (ImgErr ImgNet ReasonRemoteIP 0))
               else ok ip))))"

text \<open>Go returns \<open>nil, lastErr\<close> after the loop; without an error that is no connection.\<close>

fun dialLoop :: "Fetcher \<Rightarrow> nat \<Rightarrow> bytes \<Rightarrow> goerr option \<Rightarrow> Addr list \<Rightarrow> Addr option ioe" where
  "dialLoop F ctx host lastErr [] = (case lastErr of Some e \<Rightarrow> err e | None \<Rightarrow> ok None)"
| "dialLoop F ctx host lastErr (ip # ips) =
     dialOne F ctx host ip \<bind> (\<lambda>r.
     case r of
       Inl e \<Rightarrow> dialLoop F ctx host (Some e) ips
     | Inr conn \<Rightarrow> ok (Some conn))"

definition dialTLS :: "Fetcher \<Rightarrow> nat \<Rightarrow> bytes \<Rightarrow> Addr option ioe" where
  "dialTLS F ctx addr =
     (case SplitHostPort addr of
        None \<Rightarrow> err (ImgErr ImgBadURL reasonEmptyHost 0)
      | Some (host, port) \<Rightarrow>
          if port \<noteq> ''443'' then err (ImgErr ImgBadURL reasonPort 0)
          else bindE (resolveOnce F ctx host) (dialLoop F ctx host None))"

section \<open>Get\<close>

definition isRedirect :: "nat \<Rightarrow> bool" where
  "isRedirect code \<longleftrightarrow> code = 301 \<or> code = 302 \<or> code = 303 \<or> code = 307 \<or> code = 308"

definition acceptOK :: "Limits \<Rightarrow> URL \<Rightarrow> httpResp \<Rightarrow> (goerr, Response) result" where
  "acceptOK L current resp =
     (if hr_ContentLength resp > l_MaxImageBytes L then Inl (ImgErr ImgTooLarge [] 0)
      else
        let enc = hr_Header resp ''Content-Encoding''
        in if enc \<noteq> [] \<and> enc \<noteq> ''identity'' then Inl (ImgErr ImgNet ReasonEncoding 0)
           else Inr \<lparr>rs_StatusCode = hr_StatusCode resp, rs_Header = hr_Header resp, rs_Body = hr_Body resp,
             rs_ContentLength = hr_ContentLength resp, rs_URL = current\<rparr>)"

text \<open>The loop of \<open>Get\<close>; \<open>left\<close> is \<open>MaxRedirects - hop\<close>.\<close>

fun getLoop :: "Fetcher \<Rightarrow> nat \<Rightarrow> URL \<Rightarrow> Response ioe" where
  "getLoop F left current =
     (if \<not> ul_NewRequest (f_url F) (ul_String (f_url F) current)
      then err (ImgErr ImgBadURL ''the URL is not usable as a request'' 0)
      else
        netCall (NetRequest (ul_String (f_url F) current))
          (\<lambda>h. f_roundTrip F h (ul_String (f_url F) current)) \<bind> (\<lambda>r.
        case r of
          Inl e \<Rightarrow> err (classifyTransport e)
        | Inr resp \<Rightarrow>
            if hr_StatusCode resp = 200 then liftR (acceptOK (f_limits F) current resp)
            else if isRedirect (hr_StatusCode resp) then
              (let loc = hr_Header resp ''Location''
               in if loc = [] then err (ImgErr ImgStatus [] (int (hr_StatusCode resp)))
                  else
                    case left of
                      0 \<Rightarrow> err (ImgErr ImgRedirects [] 0)
                    | Suc left' \<Rightarrow>
                        (case ul_Parse (f_url F) loc of
                           None \<Rightarrow> err (ImgErr ImgBadURL ''the redirect location is not parseable'' 0)
                         | Some locURL \<Rightarrow>
                             (let next = ul_ResolveReference (f_url F) current locURL
                              in case ValidateURL (f_lower F) next of
                                   Some e \<Rightarrow> err e
                                 | None \<Rightarrow> getLoop F left' next)))
            else err (ImgErr ImgStatus [] (int (hr_StatusCode resp)))))"

declare getLoop.simps [simp del]

definition Get :: "Fetcher \<Rightarrow> bytes \<Rightarrow> Response ioe" where
  "Get F rawURL =
     (if length rawURL > l_MaxURLBytes (f_limits F) then err (ImgErr ImgBadURL ''the URL exceeds the length limit'' 0)
      else if list_ex (\<lambda>c. (of_char c :: nat) < 32 \<or> (of_char c :: nat) = 127) rawURL
        then err (ImgErr ImgBadURL ''the URL contains control characters'' 0)
      else
        case ul_Parse (f_url F) rawURL of
          None \<Rightarrow> err (ImgErr ImgBadURL ''the URL is not parseable'' 0)
        | Some u \<Rightarrow>
            (case ValidateURL (f_lower F) u of
               Some e \<Rightarrow> err e
             | None \<Rightarrow> getLoop F (l_MaxRedirects (f_limits F)) u))"

section \<open>What is dialed\<close>

lemma netCallE:
  assumes "run_state (netCall ev f) h = (r, h')"
  shows "r = f h'" "h_net h' = h_net h @ [ev]"
proof -
  obtain t h1 where t: "run_state nextTick h = (t, h1)" by fastforce
  then have "h_net h1 = h_net h" by (auto simp: nextTick_def applyTick_def split: list.splits)
  with assms t show "r = f h'" "h_net h' = h_net h @ [ev]" by (auto simp: netCall_def)
qed

lemma checkAddrs_Inr:
  "checkAddrs host acc as = Inr ips \<Longrightarrow> ips = acc @ map Unmap as \<and> list_all (AllowedIP \<circ> Unmap) as"
  by (induction as arbitrary: acc) (auto simp: Let_def split: if_splits, fastforce)

lemma Unmap_idem [simp]: "Unmap (Unmap a) = Unmap a"
  by (cases a) auto

lemma AllowedIP_Unmap [simp]: "AllowedIP (Unmap a) = AllowedIP a"
  by (simp add: AllowedIP_def)

text \<open>The addresses that may be dialed: allowed, and in unmapped form.\<close>

definition dialable :: "Addr \<Rightarrow> bool" where
  "dialable ip \<longleftrightarrow> AllowedIP ip \<and> Unmap ip = ip"

lemma ResolveHost_Inr:
  assumes "run_state (ResolveHost W host) h = (r, h')"
  shows "\<exists>evs. h_net h' = h_net h @ evs \<and> set evs \<subseteq> {NetLookup host} \<and> length evs \<le> 1 \<and>
    (\<forall>ips. r = Inr ips \<longrightarrow> ips \<noteq> [] \<and> list_all dialable ips)"
proof (cases "ParseAddr host")
  case (Some ip)
  with assms show ?thesis by (auto simp: ResolveHost_def dialable_def split: if_splits)
next
  case None
  obtain r1 h1 where l: "run_state (netCall (NetLookup host) (\<lambda>h. w_lookup W h host)) h = (r1, h1)" by fastforce
  note n = netCallE [OF l]
  show ?thesis
    using assms None l n(2)
    by (auto simp: ResolveHost_def list_all_iff dialable_def split: sum.splits if_splits dest!: checkAddrs_Inr)
qed

lemma dialOne_run:
  assumes "run_state (dialOne F ctx host ip) h = (r, h')"
  shows "\<exists>evs. h_net h' = h_net h @ evs \<and> set evs \<subseteq> {NetDial ip, NetTLS host ip, NetClose ip} \<and>
    (\<forall>c. r = Inr c \<longrightarrow> c = ip \<and> evs = [NetDial ip, NetTLS host ip] \<and>
      (\<exists>peer. w_peer (f_world F) h' = Some peer \<and> Unmap peer = ip))"
proof -
  have close: "h_net h2 = h_net h1 @ [NetClose ip]" if "run_state (closeConn ip) h1 = ((), h2)" for h1 h2
    using netCallE(2) that by (simp add: closeConn_def)
  obtain d h1 where d: "run_state (netCall (NetDial ip) (\<lambda>h. w_dial (f_world F) h ip)) h = (d, h1)" by fastforce
  note n1 = netCallE(2) [OF d]
  define h2 where "h2 = snd (run_state (closeConn ip) h1)"
  then have c1: "run_state (closeConn ip) h1 = ((), h2)" by (simp add: prod_eq_iff)
  obtain to h3 where to: "run_state (netCall (NetTLS host ip)
      (\<lambda>h. (w_handshake (f_world F) h host, stageErr (f_world F) ctx h))) h1 = (to, h3)"
    by fastforce
  obtain t over where "to = (t, over)" by fastforce
  note t = to [unfolded this]
  note n3 = netCallE(2) [OF t]
  define h4 where "h4 = snd (run_state (closeConn ip) h3)"
  then have c3: "run_state (closeConn ip) h3 = ((), h4)" by (simp add: prod_eq_iff)
  note cl = close [OF c1] close [OF c3]
  show ?thesis
  proof (cases d)
    case (Some e)
    with assms d n1 show ?thesis by (auto simp: dialOne_def)
  next
    case None
    show ?thesis
    proof (cases "fst (run_state (remoteIs (f_world F) ip) h1)")
      case False
      with assms d None n1 c1 cl(1) show ?thesis by (simp add: dialOne_def remoteIs_def) blast
    next
      case True
      with assms d None t have run: "run_state (case t of
           Some e \<Rightarrow>
             closeConn ip \<bind> (\<lambda>_.
             if isCtxErr e DeadlineExceeded \<or> over then err (ImgErr ImgTimeout StageTLS 0)
             else err (ImgErr ImgNet StageTLS 0))
         | None \<Rightarrow>
             remoteIs (f_world F) ip \<bind> (\<lambda>same.
             if \<not> same then closeConn ip \<bind> (\<lambda>_. err (ImgErr ImgNet ReasonRemoteIP 0)) else ok ip)) h3 = (r, h')"
        by (simp add: dialOne_def remoteIs_def)
      show ?thesis
      proof (cases "t = None \<and> fst (run_state (remoteIs (f_world F) ip) h3)")
        case True
        with run n1 n3 show ?thesis by (auto simp: remoteIs_def split: option.splits)
      next
        case False
        with run n1 n3 c3 cl(2) have "isl r" "h' = h4" by (auto simp: remoteIs_def split: option.splits if_splits)
        with n1 n3 cl(2) show ?thesis by auto
      qed
    qed
  qed
qed

lemma dialLoop_run:
  assumes "run_state (dialLoop F ctx host e ips) h = (r, h')" and "ips \<noteq> [] \<or> e \<noteq> None"
  shows "\<exists>evs. h_net h' = h_net h @ evs \<and> set evs \<subseteq> (\<Union>ip \<in> set ips. {NetDial ip, NetTLS host ip, NetClose ip}) \<and>
    (\<forall>c. r = Inr c \<longrightarrow> (\<exists>ip \<in> set ips. \<exists>evs1 peer. c = Some ip \<and> evs = evs1 @ [NetDial ip, NetTLS host ip] \<and>
      w_peer (f_world F) h' = Some peer \<and> Unmap peer = ip))"
  using assms
proof (induction ips arbitrary: e h)
  case Nil
  then show ?case by auto
next
  case (Cons ip ips)
  obtain r1 h1 where d: "run_state (dialOne F ctx host ip) h = (r1, h1)" by fastforce
  from dialOne_run [OF d] obtain evs1 where e1: "h_net h1 = h_net h @ evs1"
    "set evs1 \<subseteq> {NetDial ip, NetTLS host ip, NetClose ip}"
    "\<And>c. r1 = Inr c \<Longrightarrow> c = ip \<and> evs1 = [NetDial ip, NetTLS host ip] \<and>
      (\<exists>peer. w_peer (f_world F) h1 = Some peer \<and> Unmap peer = ip)"
    by blast
  show ?case
  proof (cases r1)
    case (Inl e')
    with Cons.prems(1) d have "run_state (dialLoop F ctx host (Some e') ips) h1 = (r, h')" by simp
    from Cons.IH [OF this] obtain evs2 where
      "h_net h' = h_net h1 @ evs2" "set evs2 \<subseteq> (\<Union>ip \<in> set ips. {NetDial ip, NetTLS host ip, NetClose ip})"
      "\<forall>c. r = Inr c \<longrightarrow> (\<exists>ip \<in> set ips. \<exists>evs1 peer. c = Some ip \<and> evs2 = evs1 @ [NetDial ip, NetTLS host ip] \<and>
        w_peer (f_world F) h' = Some peer \<and> Unmap peer = ip)"
      by auto
    with e1(1,2) show ?thesis by (intro exI [of _ "evs1 @ evs2"]) fastforce
  next
    case (Inr c)
    with Cons.prems(1) d have "r = Inr (Some c)" "h' = h1" by auto
    with e1 Inr show ?thesis by (intro exI [of _ evs1]) auto
  qed
qed

text \<open>C22. The dial hook connects to validated addresses only, whatever the resolver, the network and the peers
  answer: it looks the host name up at most once, every address it dials is allowed by the verdict, the
  handshake is always for the host name the transport asked for, on port 443, and a connection it returns
  was dialed and handshaken last, with its peer at the dialed address.\<close>

theorem dial_validated:
  assumes "run_state (dialTLS F ctx addr) h = (r, h')"
  shows "\<exists>evs. h_net h' = h_net h @ evs \<and> length (filter (\<lambda>ev. \<exists>n. ev = NetLookup n) evs) \<le> 1 \<and>
    (\<forall>ip. NetDial ip \<in> set evs \<longrightarrow> AllowedIP ip) \<and>
    (\<forall>name ip. NetTLS name ip \<in> set evs \<longrightarrow> SplitHostPort addr = Some (name, ''443'') \<and> AllowedIP ip) \<and>
    (\<forall>conn. r = Inr conn \<longrightarrow> (\<exists>ip name evs1 peer. conn = Some ip \<and> evs = evs1 @ [NetDial ip, NetTLS name ip] \<and>
      w_peer (f_world F) h' = Some peer \<and> Unmap peer = ip))"
proof (cases "\<exists>host. SplitHostPort addr = Some (host, ''443'')")
  case False
  with assms have "isl r \<and> h_net h' = h_net h" by (auto simp: dialTLS_def split: option.splits if_splits)
  then show ?thesis by auto
next
  case True
  then obtain host where sp: "SplitHostPort addr = Some (host, ''443'')" by blast
  obtain r1 h1 where rs: "run_state (ResolveHost (f_world F) host) h = (r1, h1)" by fastforce
  from ResolveHost_Inr [OF rs] obtain evs1 where e1: "h_net h1 = h_net h @ evs1" "set evs1 \<subseteq> {NetLookup host}"
    "length evs1 \<le> 1" "\<And>ips. r1 = Inr ips \<Longrightarrow> ips \<noteq> [] \<and> list_all dialable ips"
    by blast
  have f1: "length (filter (\<lambda>ev. \<exists>n. ev = NetLookup n) evs1) \<le> 1"
    using length_filter_le e1(3) le_trans by blast
  show ?thesis
  proof (cases r1)
    case (Inl e)
    with assms sp rs have "isl r \<and> h' = h1" by (auto simp: dialTLS_def resolveOnce_def run_bindE split: if_splits)
    with e1(1,2) f1 show ?thesis by (intro exI [of _ evs1]) auto
  next
    case (Inr ips)
    with assms sp rs have run: "run_state (dialLoop F ctx host None ips) h1 = (r, h')"
      by (simp add: dialTLS_def resolveOnce_def run_bindE)
    from e1(4) [OF Inr] have ips: "ips \<noteq> []" "\<And>ip. ip \<in> set ips \<Longrightarrow> AllowedIP ip" by (auto simp: list_all_iff dialable_def)
    from dialLoop_run [OF run] ips(1) obtain evs2 where e2: "h_net h' = h_net h1 @ evs2"
      "set evs2 \<subseteq> (\<Union>ip \<in> set ips. {NetDial ip, NetTLS host ip, NetClose ip})"
      "\<And>c. r = Inr c \<Longrightarrow> (\<exists>ip \<in> set ips. \<exists>evs1 peer. c = Some ip \<and> evs2 = evs1 @ [NetDial ip, NetTLS host ip] \<and>
        w_peer (f_world F) h' = Some peer \<and> Unmap peer = ip)"
      by blast
    have "filter (\<lambda>ev. \<exists>n. ev = NetLookup n) evs2 = []" using e2(2) by (auto simp: filter_empty_conv)
    with f1 have "length (filter (\<lambda>ev. \<exists>n. ev = NetLookup n) (evs1 @ evs2)) \<le> 1" by simp
    moreover have "\<forall>conn. r = Inr conn \<longrightarrow> (\<exists>ip name evs0 peer. conn = Some ip \<and>
        evs1 @ evs2 = evs0 @ [NetDial ip, NetTLS name ip] \<and> w_peer (f_world F) h' = Some peer \<and> Unmap peer = ip)"
      using e2(3) by (metis append.assoc)
    ultimately show ?thesis using e1(1,2) e2(1,2) ips(2) sp by (intro exI [of _ "evs1 @ evs2"]) fastforce
  qed
qed

text \<open>A fetcher whose outside answers every question well.\<close>

definition demoURL :: URL where
  "demoURL = \<lparr>u_Scheme = ''https'', u_User = None, u_Host = ''8.8.8.8'', u_Rest = ''/a.gif'', u_Fragment = [], u_RawFragment = []\<rparr>"

definition demoFetcher :: Fetcher where
  "demoFetcher = NewFetcher (\<lambda>n. n)
     \<lparr>w_lookup = (\<lambda>h name. Inr [Addr4 0x08080808]), w_stageOver = (\<lambda>h. False), w_dial = (\<lambda>h ip. None),
       w_peer = (\<lambda>h. Some (Addr4 0x08080808)), w_handshake = (\<lambda>h name. None)\<rparr>
     (\<lambda>h url. Inr \<lparr>hr_StatusCode = (if length (h_net h) = 1 then 302 else 200),
        hr_Header = (\<lambda>k. if k = ''Location'' then ''/a.gif'' else []), hr_ContentLength = 6,
        hr_Body = \<lparr>bd_chunks = [''GIF8'', ''9a''], bd_end = None\<rparr>\<rparr>)
     \<lparr>ul_Parse = (\<lambda>s. Some demoURL), ul_String = (\<lambda>u. ''https://'' @ u_Host u @ u_Rest u),
       ul_ResolveReference = (\<lambda>u v. v), ul_NewRequest = (\<lambda>s. True)\<rparr>"

lemma dial_validated_witness:
  "fst (run_state (dialTLS demoFetcher 2 ''dns.google:443'') emptyHost) = Inr (Some (Addr4 0x08080808)) \<and>
    AllowedIP (Addr4 0x08080808)"
proof -
  obtain r h' where run: "run_state (dialTLS demoFetcher 2 ''dns.google:443'') emptyHost = (r, h')" by fastforce
  have ev: "fst (run_state (dialTLS demoFetcher 2 ''dns.google:443'') emptyHost) = Inr (Some (Addr4 0x08080808))"
    by code_simp
  with run have r: "r = Inr (Some (Addr4 0x08080808))" by simp
  from dial_validated [OF run] r have "AllowedIP (Addr4 0x08080808)" by auto
  with ev show ?thesis by blast
qed

section \<open>What is requested\<close>

lemma ValidateURL_ImgErr: "ValidateURL lower u = Some e \<Longrightarrow> \<exists>k d s. e = ImgErr k d s"
  by (auto simp: ValidateURL_def badURL_def Let_def split: if_splits)

lemma classifyTransport_ImgErr: "\<exists>k d s. classifyTransport e = ImgErr k d s"
  by (auto simp: classifyTransport_def split: option.split)

definition requested :: "Fetcher \<Rightarrow> URL list \<Rightarrow> host \<Rightarrow> (goerr, Response) result \<Rightarrow> host \<Rightarrow> bool" where
  "requested F us h r h' \<longleftrightarrow>
     h_net h' = h_net h @ map (NetRequest \<circ> ul_String (f_url F)) us \<and>
     list_all (\<lambda>u. ValidateURL (f_lower F) u = None) us \<and>
     (\<forall>resp. r = Inr resp \<longrightarrow> us \<noteq> [] \<and> rs_URL resp = last us \<and> rs_StatusCode resp = 200 \<and>
       rs_ContentLength resp \<le> l_MaxImageBytes (f_limits F)) \<and>
     (\<forall>e. r = Inl e \<longrightarrow> (\<exists>k d s. e = ImgErr k d s))"

lemma requested_error: "requested F [] h (Inl (ImgErr k d s)) h"
  by (simp add: requested_def)

text \<open>One round of the loop: it ends, or goes on to a validated location with one hop less.\<close>

lemma getLoop_step:
  assumes "run_state (getLoop F left current) h = (r, h')" and "ValidateURL (f_lower F) current = None"
  obtains (over) us where "requested F us h r h'" "length us \<le> 1"
  | (hop) left' "next" h1 where "left = Suc left'" "ValidateURL (f_lower F) next = None"
      "h_net h1 = h_net h @ [NetRequest (ul_String (f_url F) current)]" "run_state (getLoop F left' next) h1 = (r, h')"
proof (cases "ul_NewRequest (f_url F) (ul_String (f_url F) current)")
  case False
  with assms(1) show ?thesis
    by (intro over [of "[]"]) (auto simp: getLoop.simps [of F left] requested_error)
next
  case True
  let ?u = "ul_String (f_url F) current"
  obtain q h1 where q: "run_state (netCall (NetRequest ?u) (\<lambda>h. f_roundTrip F h ?u)) h = (q, h1)" by fastforce
  note n = netCallE(2) [OF q]
  have fail: "requested F [current] h (Inl (ImgErr k d s)) h1" for k d s
    using n assms(2) by (simp add: requested_def)
  show ?thesis
  proof (cases q)
    case (Inl e)
    with assms(1) True q have "r = Inl (classifyTransport e)" "h' = h1" by (auto simp: getLoop.simps [of F left])
    with fail classifyTransport_ImgErr [of e] show ?thesis by (intro over [of "[current]"]) auto
  next
    case (Inr resp)
    show ?thesis
    proof (cases "hr_StatusCode resp = 200")
      case ok: True
      with assms(1) True q Inr have "r = acceptOK (f_limits F) current resp" "h' = h1" by (auto simp: getLoop.simps [of F left])
      with fail ok n assms(2) show ?thesis
        by (intro over [of "[current]"]) (auto simp: acceptOK_def Let_def requested_def)
    next
      case False
      then have "(\<exists>k d s. r = Inl (ImgErr k d s) \<and> h' = h1) \<or> (\<exists>left' next. left = Suc left' \<and>
          ValidateURL (f_lower F) next = None \<and> run_state (getLoop F left' next) h1 = (r, h'))"
        using assms(1) True q Inr
        by (auto simp: getLoop.simps [of F left current] Let_def dest: ValidateURL_ImgErr
            split: if_splits nat.splits option.splits)
      with fail n show ?thesis
        by (elim disjE exE conjE) (rule over [of "[current]"], simp_all, rule hop, simp_all)
    qed
  qed
qed

lemma getLoop_run:
  assumes "run_state (getLoop F left current) h = (r, h')" and "ValidateURL (f_lower F) current = None"
  shows "\<exists>us. requested F us h r h' \<and> length us \<le> left + 1"
  using assms
proof (induction left arbitrary: current h)
  case (0 current h)
  from 0 show ?case by (cases rule: getLoop_step) auto
next
  case (Suc left current h)
  from Suc.prems show ?case
  proof (cases rule: getLoop_step)
    case (over us)
    then show ?thesis by auto
  next
    case (hop left' "next" h1)
    with Suc.IH [of "next" h1] obtain us where us: "requested F us h1 r h'" "length us \<le> left + 1" by auto
    have "requested F (current # us) h r h'"
      using us(1) hop(3) Suc.prems(2) by (auto simp: requested_def)
    with us(2) show ?thesis by (intro exI [of _ "current # us"]) simp
  qed
qed

text \<open>C21. \<open>Get\<close> ends after at most \<open>MaxRedirects + 1\<close> requests, each for a URL that passes the URL policy,
  redirect targets included; it returns the response of the last of them, with status 200 and a declared
  length within the cap, or an error of the download taxonomy.\<close>

theorem get_bounded:
  assumes "run_state (Get F rawURL) h = (r, h')"
  shows "\<exists>us. h_net h' = h_net h @ map (NetRequest \<circ> ul_String (f_url F)) us \<and>
    length us \<le> l_MaxRedirects (f_limits F) + 1 \<and>
    list_all (\<lambda>u. ValidateURL (f_lower F) u = None) us \<and>
    (\<forall>resp. r = Inr resp \<longrightarrow> us \<noteq> [] \<and> rs_URL resp = last us \<and> rs_StatusCode resp = 200 \<and>
      rs_ContentLength resp \<le> l_MaxImageBytes (f_limits F)) \<and>
    (\<forall>e. r = Inl e \<longrightarrow> (\<exists>k d s. e = ImgErr k d s))"
proof -
  have "\<exists>us. requested F us h r h' \<and> length us \<le> l_MaxRedirects (f_limits F) + 1"
  proof (cases "\<exists>u. run_state (getLoop F (l_MaxRedirects (f_limits F)) u) h = (r, h') \<and> ValidateURL (f_lower F) u = None")
    case True
    then show ?thesis using getLoop_run by blast
  next
    case False
    with assms have "\<exists>k d s. r = Inl (ImgErr k d s) \<and> h' = h"
      by (auto simp: Get_def split: if_splits option.splits dest: ValidateURL_ImgErr)
    then show ?thesis by (intro exI [of _ "[]"]) (auto simp: requested_error)
  qed
  then show ?thesis unfolding requested_def by blast
qed

lemma get_bounded_witness:
  "\<not> isl (fst (run_state (Get demoFetcher ''https://8.8.8.8/a'') emptyHost)) \<and>
    h_net (snd (run_state (Get demoFetcher ''https://8.8.8.8/a'') emptyHost)) =
      [NetRequest ''https://8.8.8.8/a.gif'', NetRequest ''https://8.8.8.8/a.gif''] \<and>
    ValidateURL (\<lambda>n. n) demoURL = None"
proof -
  obtain r h' where run: "run_state (Get demoFetcher ''https://8.8.8.8/a'') emptyHost = (r, h')" by fastforce
  have ev: "h_net (snd (run_state (Get demoFetcher ''https://8.8.8.8/a'') emptyHost)) =
      [NetRequest ''https://8.8.8.8/a.gif'', NetRequest ''https://8.8.8.8/a.gif'']"
    "\<not> isl (fst (run_state (Get demoFetcher ''https://8.8.8.8/a'') emptyHost))"
    "ValidateURL (\<lambda>n. n) demoURL = None"
    by code_simp+
  from get_bounded [OF run] ev run have "\<not> isl r" by auto
  with ev run show ?thesis by simp
qed

end
