(* ===== verification/ImageBody.thy ===== *)
theory ImageBody
  imports Client
begin

text \<open>
  Image content validation (\<open>imagedownload/image.go\<close>): the magic numbers, the check of an SVG's root
  element, the byte cap, and \<open>ConsumeBody\<close>, the one pass that streams a body through them into the
  caller's sink. A reader is a value that each read returns updated; a sink is an action on a state of its
  own. \<open>encoding/xml\<close> and \<open>mime.ParseMediaType\<close> are the fields of \<open>imgLib\<close>: the tokens the decoder gets
  from the bytes so far (with the end of the input or not), and the media type of a header.
\<close>

record Detected =
  MIME :: bytes
  Ext :: bytes

datatype xmlTok = XProcInst bytes | XDirective | XComment | XCharData bytes | XStart bytes bytes | XOther

record imgLib =
  il_tokens :: "bytes \<Rightarrow> bool \<Rightarrow> xmlTok list \<times> bool"
  il_mediaType :: "bytes \<Rightarrow> bytes option"

definition sniffMagic :: "bytes \<Rightarrow> Detected option" where
  "sniffMagic b =
     (if length b \<ge> 16 \<and> take 8 b = [CHR 0x89, CHR 0x50, CHR 0x4E, CHR 0x47, CHR 0x0D, CHR 0x0A, CHR 0x1A, CHR 0x0A] \<and>
        take 4 (drop 12 b) = ''IHDR'' then Some \<lparr>MIME = ''image/png'', Ext = ''.png''\<rparr>
      else if length b \<ge> 3 \<and> take 3 b = [CHR 0xFF, CHR 0xD8, CHR 0xFF] then Some \<lparr>MIME = ''image/jpeg'', Ext = ''.jpg''\<rparr>
      else if length b \<ge> 6 \<and> (take 6 b = ''GIF87a'' \<or> take 6 b = ''GIF89a'') then Some \<lparr>MIME = ''image/gif'', Ext = ''.gif''\<rparr>
      else if length b \<ge> 12 \<and> take 4 b = ''RIFF'' \<and> take 4 (drop 8 b) = ''WEBP'' then Some \<lparr>MIME = ''image/webp'', Ext = ''.webp''\<rparr>
      else if length b \<ge> 12 \<and> take 4 (drop 4 b) = ''ftyp'' \<and> (take 4 (drop 8 b) = ''avif'' \<or> take 4 (drop 8 b) = ''avis'')
        then Some \<lparr>MIME = ''image/avif'', Ext = ''.avif''\<rparr>
      else None)"

definition svgDetected :: Detected where
  "svgDetected = \<lparr>MIME = ''image/svg+xml'', Ext = ''.svg''\<rparr>"

section \<open>Readers\<close>

text \<open>How a \<open>Read\<close> ends: with more to come, at the end of the stream, or with an error.\<close>

datatype rstat = RMore | REof | RErr goerr

text \<open>A read of a response body delivers at least one byte, or the end.\<close>

definition bodyRead :: "nat \<Rightarrow> body \<Rightarrow> bytes \<times> rstat \<times> body" where
  "bodyRead n b =
     (case dropWhile (\<lambda>c. c = []) (bd_chunks b) of
        [] \<Rightarrow> ([], (case bd_end b of None \<Rightarrow> REof | Some e \<Rightarrow> RErr e), b\<lparr>bd_chunks := []\<rparr>)
      | c # cs \<Rightarrow> (take n c, RMore, b\<lparr>bd_chunks := drop n c # cs\<rparr>))"

record capReader =
  cr_r :: body
  cr_remain :: int
  cr_tooLarge :: bool

definition capRead :: "nat \<Rightarrow> capReader \<Rightarrow> bytes \<times> rstat \<times> capReader" where
  "capRead n c =
     (if cr_remain c \<le> 0 then ([], RErr (ImgErr ImgTooLarge [] 0), c\<lparr>cr_tooLarge := True\<rparr>)
      else
        let n' = (if int n > cr_remain c then nat (cr_remain c) else n);
            (d, st, b) = bodyRead n' (cr_r c)
        in (d, st, c\<lparr>cr_r := b, cr_remain := cr_remain c - int (length d)\<rparr>))"

text \<open>What is left to read, to see that the loops end.\<close>

definition bodySize :: "body \<Rightarrow> nat" where
  "bodySize b = length (concat (bd_chunks b))"

lemma concat_dropWhile_Nil: "concat (dropWhile (\<lambda>c. c = []) cs) = concat cs"
  by (induction cs) auto

lemma bodyRead_more:
  assumes "bodyRead n b = (d, st, b')"
  shows "concat (bd_chunks b) = d @ concat (bd_chunks b') \<and> bd_end b' = bd_end b \<and> length d \<le> n \<and>
    (st = RMore \<and> 0 < n \<longrightarrow> d \<noteq> []) \<and> (st \<noteq> RMore \<longrightarrow> d = [] \<and> concat (bd_chunks b') = []) \<and>
    (st = REof \<longrightarrow> bd_end b = None) \<and> (\<forall>e. st = RErr e \<longrightarrow> bd_end b = Some e)"
proof (cases "dropWhile (\<lambda>c. c = []) (bd_chunks b)")
  case Nil
  with assms concat_dropWhile_Nil [of "bd_chunks b"] show ?thesis
    by (auto simp: bodyRead_def split: option.splits)
next
  case (Cons x xs)
  then have "x \<noteq> []" by (metis (full_types) hd_dropWhile list.distinct(1) list.sel(1))
  moreover have "concat (bd_chunks b) = x @ concat xs" using Cons concat_dropWhile_Nil [of "bd_chunks b"] by simp
  ultimately show ?thesis using Cons assms by (auto simp: bodyRead_def)
qed

lemma capRead_more:
  assumes "capRead n c = (d, st, c')"
  shows "concat (bd_chunks (cr_r c)) = d @ concat (bd_chunks (cr_r c')) \<and> bd_end (cr_r c') = bd_end (cr_r c) \<and>
    cr_remain c' = cr_remain c - int (length d) \<and> (st = RMore \<and> 0 < n \<longrightarrow> d \<noteq> []) \<and> length d \<le> n \<and>
    (st \<noteq> RMore \<longrightarrow> d = []) \<and> (0 \<le> cr_remain c \<longrightarrow> 0 \<le> cr_remain c') \<and>
    (cr_tooLarge c' \<longleftrightarrow> cr_tooLarge c \<or> cr_remain c \<le> 0) \<and>
    (cr_remain c \<le> 0 \<longrightarrow> st = RErr (ImgErr ImgTooLarge [] 0)) \<and>
    (st = REof \<longrightarrow> bd_end (cr_r c) = None \<and> concat (bd_chunks (cr_r c')) = [])"
proof (cases "cr_remain c \<le> 0")
  case True
  with assms show ?thesis by (auto simp: capRead_def)
next
  case False
  define n1 where "n1 = (if int n > cr_remain c then nat (cr_remain c) else n)"
  have n1: "int n1 \<le> cr_remain c" "n1 \<le> n" "0 < n \<longrightarrow> 0 < n1" using False by (auto simp: n1_def)
  obtain d1 s1 b1 where b: "bodyRead n1 (cr_r c) = (d1, s1, b1)" by (metis prod_cases3)
  with False assms have d: "d = d1" "st = s1" "c' = c\<lparr>cr_r := b1, cr_remain := cr_remain c - int (length d1)\<rparr>"
    by (auto simp: capRead_def simp flip: n1_def)
  from bodyRead_more [OF b] n1 False show ?thesis unfolding d by auto
qed

lemma capRead_size:
  assumes "capRead n c = (d, RMore, c')" and "0 < n"
  shows "bodySize (cr_r c') < bodySize (cr_r c)"
  using capRead_more [OF assms(1)] assms(2) by (simp add: bodySize_def)

text \<open>A sink takes its state and the bytes; it answers an error or nothing.\<close>

type_synonym 's sink = "'s \<Rightarrow> bytes \<Rightarrow> (goerr option \<times> 's) io"

text \<open>\<open>io.TeeReader\<close>: what was read goes to the sink; a sink error is the read's error.\<close>

definition teeWrite :: "'s sink \<Rightarrow> 's \<Rightarrow> bytes \<Rightarrow> (goerr option \<times> 's) io" where
  "teeWrite sink s d = (if d = [] then ret (None, s) else sink s d)"

text \<open>\<open>io.ReadFull\<close> on the tee, up to \<open>n\<close> more bytes: what was read, and an error other than the end.\<close>

function readFull :: "'s sink \<Rightarrow> nat \<Rightarrow> bytes \<Rightarrow> capReader \<Rightarrow> 's \<Rightarrow> (bytes \<times> goerr option \<times> capReader \<times> 's) io" where
  "readFull sink n acc c s =
     (if n = 0 then ret (acc, None, c, s)
      else
        case capRead n c of
          (d, RMore, c') \<Rightarrow>
            teeWrite sink s d \<bind> (\<lambda>(e, s').
            case e of
              Some e \<Rightarrow> ret (acc @ d, if length d = n then None else Some e, c', s')
            | None \<Rightarrow> readFull sink (n - length d) (acc @ d) c' s')
        | (d, REof, c') \<Rightarrow> ret (acc, None, c', s)
        | (d, RErr e, c') \<Rightarrow> ret (acc, Some e, c', s))"
  by pat_completeness auto
termination
  by (relation "measure (\<lambda>(sink, n, acc, c, s). bodySize (cr_r c))") (auto dest!: capRead_size [OF sym])

declare readFull.simps [simp del]

text \<open>\<open>io.Copy\<close> of the tee into \<open>io.Discard\<close>, which reads 8 KiB at a time.\<close>

function copyDiscard :: "'s sink \<Rightarrow> nat \<Rightarrow> capReader \<Rightarrow> 's \<Rightarrow> (nat \<times> goerr option \<times> capReader \<times> 's) io" where
  "copyDiscard sink n c s =
     (case capRead 8192 c of
        (d, RMore, c') \<Rightarrow>
          teeWrite sink s d \<bind> (\<lambda>(e, s').
          case e of
            Some e \<Rightarrow> ret (n + length d, Some e, c', s')
          | None \<Rightarrow> copyDiscard sink (n + length d) c' s')
      | (d, REof, c') \<Rightarrow> ret (n, None, c', s)
      | (d, RErr e, c') \<Rightarrow> ret (n, Some e, c', s))"
  by pat_completeness auto
termination
  by (relation "measure (\<lambda>(sink, n, c, s). bodySize (cr_r c))") (auto dest!: capRead_size [OF sym])

declare copyDiscard.simps [simp del]

section \<open>The SVG root\<close>

definition isXMLSpace :: "bytes \<Rightarrow> bool" where
  "isXMLSpace b = list_all (\<lambda>c. c = CHR '' '' \<or> c = CHR 0x09 \<or> c = CHR 0x0D \<or> c = CHR 0x0A) b"

definition typeErr :: "bytes \<Rightarrow> goerr" where
  "typeErr detail = ImgErr ImgType detail 0"

text \<open>The token loop of \<open>svgRootCheck\<close> on the tokens at hand: an error, the root found, or neither yet.\<close>

fun rootTokens :: "xmlTok list \<Rightarrow> (goerr, bool) result" where
  "rootTokens [] = Inr False"
| "rootTokens (t # ts) =
     (case t of
        XProcInst target \<Rightarrow>
          if target \<noteq> ''xml'' then Inl (typeErr ''processing instructions are not allowed'') else rootTokens ts
      | XDirective \<Rightarrow> Inl (typeErr ''DTD or directives are not allowed'')
      | XComment \<Rightarrow> rootTokens ts
      | XCharData b \<Rightarrow>
          if \<not> isXMLSpace b then Inl (typeErr ''content appears before the root element'') else rootTokens ts
      | XStart space local \<Rightarrow>
          if local \<noteq> ''svg'' \<or> space \<noteq> ''http://www.w3.org/2000/svg''
          then Inl (typeErr ''the root element is not an svg in the SVG namespace'') else Inr True
      | XOther \<Rightarrow> Inl (typeErr ''unexpected XML structure''))"

definition noRoot :: goerr where
  "noRoot = typeErr ''svg root element not found before the prolog limit''"

text \<open>The decoder's buffer fills 4 KiB at a time from the head and then from the tee, within the prolog
  limit; \<open>lim\<close> bytes of it are left, \<open>seen\<close> are the bytes so far and \<open>k\<close> tokens of them have passed.\<close>

function svgLoop :: "imgLib \<Rightarrow> 's sink \<Rightarrow> nat \<Rightarrow> bytes \<Rightarrow> nat \<Rightarrow> bool \<Rightarrow> capReader \<Rightarrow> 's \<Rightarrow>
    (goerr option \<times> capReader \<times> 's) io" where
  "svgLoop L sink lim seen k ended c s =
     (let (toks, more) = il_tokens L seen ended
      in case rootTokens (drop k toks) of
           Inl e \<Rightarrow> ret (Some e, c, s)
         | Inr True \<Rightarrow> ret (None, c, s)
         | Inr False \<Rightarrow>
             if ended \<or> \<not> more then ret (Some noRoot, c, s)
             else if lim = 0 then svgLoop L sink 0 seen (length toks) True c s
             else
               case capRead (min 4096 lim) c of
                 (d, RMore, c') \<Rightarrow>
                   teeWrite sink s d \<bind> (\<lambda>(e, s').
                   case e of
                     Some _ \<Rightarrow> svgLoop L sink 0 (seen @ d) (length toks) True c' s'
                   | None \<Rightarrow> svgLoop L sink (lim - length d) (seen @ d) (length toks) False c' s')
               | (d, _, c') \<Rightarrow> svgLoop L sink 0 seen (length toks) True c' s)"
  by pat_completeness auto
termination
  by (relation "measures [\<lambda>(L, sink, lim, seen, k, ended, c, s). if ended then 0 else 1,
      \<lambda>(L, sink, lim, seen, k, ended, c, s). bodySize (cr_r c)]") (auto dest!: capRead_size [OF sym])

declare svgLoop.simps [simp del]

definition svgRootCheck :: "imgLib \<Rightarrow> Limits \<Rightarrow> 's sink \<Rightarrow> bytes \<Rightarrow> capReader \<Rightarrow> 's \<Rightarrow> (goerr option \<times> capReader \<times> 's) io" where
  "svgRootCheck L lims sink head c s =
     (let lim = l_SVGPrologBytes lims + 1; seen = take lim head
      in svgLoop L sink (lim - length seen) seen 0 False c s)"

section \<open>ConsumeBody\<close>

definition crossCheckContentType :: "imgLib \<Rightarrow> bytes \<Rightarrow> bytes \<Rightarrow> goerr option" where
  "crossCheckContentType L header detected =
     (if header = [] then None
      else
        case il_mediaType L header of
          None \<Rightarrow> Some (typeErr ReasonConflict)
        | Some mt \<Rightarrow>
            if mt = ''application/octet-stream'' then None
            else if mt = detected then None
            else Some (typeErr ReasonConflict))"

definition classifyBody :: "goerr \<Rightarrow> goerr" where
  "classifyBody e =
     (case asImgErr e of
        Some (k, d, st) \<Rightarrow> ImgErr k d st
      | None \<Rightarrow>
          if isCtxErr e DeadlineExceeded then ImgErr ImgTimeout StageBody 0
          else if isTimeout e then ImgErr ImgTimeout StageBody 0
          else if isCertErr e then ImgErr ImgNet StageTLS 0
          else ImgErr ImgNet StageBody 0)"

text \<open>The verdict on a finished copy.\<close>

definition bodyVerdict :: "imgLib \<Rightarrow> Limits \<Rightarrow> Response \<Rightarrow> Detected \<Rightarrow> nat \<Rightarrow> goerr option \<Rightarrow> capReader \<Rightarrow>
    (goerr, nat \<times> Detected) result" where
  "bodyVerdict L lims resp det n e c =
     (case e of
        Some e \<Rightarrow> if cr_tooLarge c then Inl (ImgErr ImgTooLarge [] 0) else Inl (classifyBody e)
      | None \<Rightarrow>
          if cr_tooLarge c \<or> int n > l_MaxImageBytes lims then Inl (ImgErr ImgTooLarge [] 0)
          else if rs_ContentLength resp > 0 \<and> int n < rs_ContentLength resp then Inl (ImgErr ImgNet ReasonTrunc 0)
          else
            case crossCheckContentType L (rs_Header resp ''Content-Type'') (MIME det) of
              Some e \<Rightarrow> Inl e
            | None \<Rightarrow> Inr (n, det))"

definition consumeTail :: "imgLib \<Rightarrow> Limits \<Rightarrow> Response \<Rightarrow> 's sink \<Rightarrow> nat \<Rightarrow> Detected \<Rightarrow> capReader \<Rightarrow> 's \<Rightarrow>
    ((goerr, nat \<times> Detected) result \<times> 's) io" where
  "consumeTail L lims resp sink hn det c s =
     copyDiscard sink 0 c s \<bind> (\<lambda>(tn, e, c', s'). ret (bodyVerdict L lims resp det (hn + tn) e c', s'))"

definition ConsumeBody :: "imgLib \<Rightarrow> Limits \<Rightarrow> Response \<Rightarrow> 's sink \<Rightarrow> 's \<Rightarrow> ((goerr, nat \<times> Detected) result \<times> 's) io" where
  "ConsumeBody L lims resp sink s =
     readFull sink (l_SniffBytes lims) []
       \<lparr>cr_r = rs_Body resp, cr_remain = l_MaxImageBytes lims + 1, cr_tooLarge = False\<rparr> s \<bind> (\<lambda>(head, e, c1, s1).
     case e of
       Some e \<Rightarrow> ret (Inl (classifyBody e), s1)
     | None \<Rightarrow>
         if head = [] then ret (Inl (typeErr ReasonEmpty), s1)
         else
           case sniffMagic head of
             Some d \<Rightarrow> consumeTail L lims resp sink (length head) d c1 s1
           | None \<Rightarrow>
               svgRootCheck L lims sink head c1 s1 \<bind> (\<lambda>(e, c2, s2).
               case e of
                 Some e \<Rightarrow> ret (Inl e, s2)
               | None \<Rightarrow> consumeTail L lims resp sink (length head) svgDetected c2 s2))"

section \<open>What reaches the sink\<close>

text \<open>The contract of a sink: it keeps what it took, in order, and once it has failed it stays failed.\<close>

locale body_sink =
  fixes sink :: "'s sink" and recv :: "'s \<Rightarrow> bytes" and failed :: "'s \<Rightarrow> bool"
  assumes sink_ok: "run_state (sink s d) h = ((None, s'), h') \<Longrightarrow> recv s' = recv s @ d \<and> failed s' = failed s"
    and sink_err: "run_state (sink s d) h = ((Some e, s'), h') \<Longrightarrow> failed s'"
begin

lemma teeWrite_sink:
  assumes "run_state (teeWrite sink s d) h = ((e, s'), h')"
  shows "if e = None then recv s' = recv s @ d \<and> failed s' = failed s else failed s'"
  using assms sink_ok [of s d h s' h'] sink_err [of s d h _ s' h']
  by (cases e) (auto simp: teeWrite_def split: if_splits)

text \<open>What a reading loop has done: taken \<open>d\<close> from the body and, unless the sink failed, passed it on.\<close>

definition took :: "bytes \<Rightarrow> capReader \<Rightarrow> 's \<Rightarrow> capReader \<Rightarrow> 's \<Rightarrow> bool" where
  "took d c s c' s' \<longleftrightarrow>
     concat (bd_chunks (cr_r c)) = d @ concat (bd_chunks (cr_r c')) \<and> bd_end (cr_r c') = bd_end (cr_r c) \<and>
     cr_remain c' = cr_remain c - int (length d) \<and> (failed s \<longrightarrow> failed s') \<and>
     (\<not> failed s' \<longrightarrow> recv s' = recv s @ d)"

lemma took_trans: "took d1 c1 s1 c2 s2 \<Longrightarrow> took d2 c2 s2 c3 s3 \<Longrightarrow> took (d1 @ d2) c1 s1 c3 s3"
  by (auto simp: took_def)

lemma took_read:
  assumes "capRead n c = (d, RMore, c')" and "run_state (teeWrite sink s d) h = ((e, s'), h')"
  shows "took d c s c' s'"
  using capRead_more [OF assms(1)] teeWrite_sink [OF assms(2)] by (auto simp: took_def split: if_splits)

lemma took_end:
  assumes "capRead n c = (d, st, c')" and "st \<noteq> RMore"
  shows "took [] c s c' s"
  using capRead_more [OF assms(1)] assms(2) by (auto simp: took_def)

lemma readFull_took:
  assumes "run_state (readFull sink n acc c s) h = ((acc', e, c', s'), h')"
  shows "\<exists>d. acc' = acc @ d \<and> took d c s c' s' \<and> length d \<le> n \<and>
    (e = None \<longrightarrow> length d = n \<or> concat (bd_chunks (cr_r c')) = [])"
  using assms
proof (induction "bodySize (cr_r c)" arbitrary: n acc c s h rule: less_induct)
  case less
  show ?case
  proof (cases "n = 0")
    case True
    with less.prems show ?thesis by (auto simp: readFull.simps [of sink 0] took_def)
  next
    case False
    obtain d st c1 where r: "capRead n c = (d, st, c1)" by (metis prod_cases3)
    show ?thesis
    proof (cases "st = RMore")
      case True
      note r = r [unfolded this]
      obtain w h1 where "run_state (teeWrite sink s d) h = (w, h1)" by fastforce
      then obtain e1 s1 where w: "run_state (teeWrite sink s d) h = ((e1, s1), h1)" by (cases w) auto
      note t1 = took_read [OF r w]
      have l: "length d \<le> n" using capRead_more [OF r] by simp
      show ?thesis
      proof (cases e1)
        case None
        with less.prems False r w have "run_state (readFull sink (n - length d) (acc @ d) c1 s1) h1 = ((acc', e, c', s'), h')"
          by (simp add: readFull.simps [of sink n])
        from less.hyps [OF capRead_size [OF r] this] False obtain d2 where
          "acc' = acc @ d @ d2" "took d2 c1 s1 c' s'" "length d2 \<le> n - length d"
          "e = None \<longrightarrow> length d2 = n - length d \<or> concat (bd_chunks (cr_r c')) = []" by auto
        with took_trans [OF t1] l show ?thesis by (intro exI [of _ "d @ d2"]) auto
      next
        case (Some x)
        with less.prems False r w t1 l show ?thesis by (auto simp: readFull.simps [of sink n] split: if_splits)
      qed
    next
      case st: False
      with less.prems False r took_end [OF r st, of s] capRead_more [OF r] show ?thesis
        by (cases st) (auto simp: readFull.simps [of sink n])
    qed
  qed
qed

lemma copyDiscard_took:
  assumes "run_state (copyDiscard sink n c s) h = ((n', e, c', s'), h')"
  shows "\<exists>d. n' = n + length d \<and> took d c s c' s' \<and>
    (e = None \<longrightarrow> concat (bd_chunks (cr_r c')) = [] \<and> bd_end (cr_r c') = None \<and> 0 < cr_remain c')"
  using assms
proof (induction "bodySize (cr_r c)" arbitrary: n c s h rule: less_induct)
  case less
  obtain d st c1 where r: "capRead 8192 c = (d, st, c1)" by (metis prod_cases3)
  show ?case
  proof (cases "st = RMore")
    case True
    note r = r [unfolded this]
    obtain w h1 where "run_state (teeWrite sink s d) h = (w, h1)" by fastforce
    then obtain e1 s1 where w: "run_state (teeWrite sink s d) h = ((e1, s1), h1)" by (cases w) auto
    note t1 = took_read [OF r w]
    show ?thesis
    proof (cases e1)
      case None
      with less.prems r w have "run_state (copyDiscard sink (n + length d) c1 s1) h1 = ((n', e, c', s'), h')"
        by (simp add: copyDiscard.simps [of sink n])
      from less.hyps [OF capRead_size [OF r] this] obtain d2 where
        "n' = n + length d + length d2" "took d2 c1 s1 c' s'"
        "e = None \<longrightarrow> concat (bd_chunks (cr_r c')) = [] \<and> bd_end (cr_r c') = None \<and> 0 < cr_remain c'" by auto
      with took_trans [OF t1] show ?thesis by (intro exI [of _ "d @ d2"]) auto
    next
      case (Some x)
      with less.prems r w t1 show ?thesis by (auto simp: copyDiscard.simps [of sink n])
    qed
  next
    case False
    have "0 < cr_remain c1" if "st = REof" using capRead_more [OF r] that by (cases "cr_remain c \<le> 0") auto
    with less.prems False r took_end [OF r False, of s] capRead_more [OF r] show ?thesis
      by (cases st) (auto simp: copyDiscard.simps [of sink n])
  qed
qed

lemma svgLoop_over:
  assumes "run_state (svgLoop L sink lim seen k True c s) h = ((e, c', s'), h')"
  shows "c' = c \<and> s' = s"
  using assms by (auto simp: svgLoop.simps [of L sink lim seen k True] split: prod.splits sum.splits bool.splits)

lemma svgLoop_took:
  assumes "run_state (svgLoop L sink lim seen k ended c s) h = ((e, c', s'), h')"
  shows "\<exists>d. took d c s c' s'"
  using assms
proof (induction "bodySize (cr_r c)" arbitrary: lim seen k ended c s h rule: less_induct)
  case less
  obtain toks more where tk: "il_tokens L seen ended = (toks, more)" by fastforce
  note step = less.prems [unfolded svgLoop.simps [of L sink lim seen k ended]]
  have still: "took [] c s c s" by (simp add: took_def)
  show ?case
  proof (cases "rootTokens (drop k toks) \<noteq> Inr False \<or> ended \<or> \<not> more \<or> lim = 0")
    case True
    with step tk have "c' = c \<and> s' = s"
      by (auto split: sum.splits bool.splits if_splits dest: svgLoop_over)
    with still show ?thesis by auto
  next
    case False
    obtain d st c1 where r: "capRead (min 4096 lim) c = (d, st, c1)" by (metis prod_cases3)
    show ?thesis
    proof (cases "st = RMore")
      case True
      note r = r [unfolded this]
      obtain w h1 where "run_state (teeWrite sink s d) h = (w, h1)" by fastforce
      then obtain e1 s1 where w: "run_state (teeWrite sink s d) h = ((e1, s1), h1)" by (cases w) auto
      note t1 = took_read [OF r w]
      show ?thesis
      proof (cases e1)
        case None
        with step tk False r w have "run_state (svgLoop L sink (lim - length d) (seen @ d) (length toks) False c1 s1) h1 =
            ((e, c', s'), h')"
          by simp
        from less.hyps [OF capRead_size [OF r] this] False t1 show ?thesis by (auto intro: took_trans)
      next
        case (Some x)
        with step tk False r w have "run_state (svgLoop L sink 0 (seen @ d) (length toks) True c1 s1) h1 = ((e, c', s'), h')"
          by simp
        with svgLoop_over t1 show ?thesis by blast
      qed
    next
      case st: False
      with step tk False r have "run_state (svgLoop L sink 0 seen (length toks) True c1 s) h = ((e, c', s'), h')"
        by (cases st) auto
      with svgLoop_over took_end [OF r st, of s] show ?thesis by blast
    qed
  qed
qed

text \<open>A successful \<open>ConsumeBody\<close> has seen the whole body, within the cap, and unless the sink failed it has
  every byte of it.\<close>

lemma consumeTail_Inr:
  assumes "run_state (consumeTail L lims resp sink hn det c s) h = ((Inr (n, det'), s'), h')"
  shows "\<exists>d. concat (bd_chunks (cr_r c)) = d \<and> n = hn + length d \<and> det' = det \<and> bd_end (cr_r c) = None \<and>
    int (length d) < cr_remain c \<and> (failed s \<longrightarrow> failed s') \<and> (\<not> failed s' \<longrightarrow> recv s' = recv s @ d) \<and>
    int n \<le> l_MaxImageBytes lims \<and> rs_ContentLength resp \<le> max 0 (int n)"
proof -
  obtain w h1 where "run_state (copyDiscard sink 0 c s) h = (w, h1)" by fastforce
  then obtain tn e c1 s1 where cp: "run_state (copyDiscard sink 0 c s) h = ((tn, e, c1, s1), h1)" by (cases w) auto
  with assms have v: "bodyVerdict L lims resp det (hn + tn) e c1 = Inr (n, det')" "s' = s1"
    by (auto simp: consumeTail_def)
  from v(1) have "e = None" "n = hn + tn" "det' = det" "int n \<le> l_MaxImageBytes lims" "rs_ContentLength resp \<le> max 0 (int n)"
    by (auto simp: bodyVerdict_def split: option.splits if_splits)
  moreover from copyDiscard_took [OF cp] obtain d where "tn = length d" "took d c s c1 s1"
    "e = None \<longrightarrow> concat (bd_chunks (cr_r c1)) = [] \<and> bd_end (cr_r c1) = None \<and> 0 < cr_remain c1" by auto
  ultimately show ?thesis using v(2) by (intro exI [of _ d]) (auto simp: took_def simp del: concat_eq_Nil_conv)
qed

lemma sniffMagic_not_svg: "sniffMagic b \<noteq> Some svgDetected"
  by (auto simp: sniffMagic_def svgDetected_def)

text \<open>What is known of a body that was accepted.\<close>

definition accepted :: "Limits \<Rightarrow> Response \<Rightarrow> nat \<Rightarrow> Detected \<Rightarrow> bytes \<Rightarrow> bool" where
  "accepted lims resp n det all \<longleftrightarrow>
     all = concat (bd_chunks (rs_Body resp)) \<and> all \<noteq> [] \<and> bd_end (rs_Body resp) = None \<and>
     int (length all) \<le> l_MaxImageBytes lims \<and> n \<le> length all \<and> rs_ContentLength resp \<le> int n \<and>
     (case sniffMagic (take (l_SniffBytes lims) all) of
        Some d \<Rightarrow> det = d \<and> n = length all
      | None \<Rightarrow> det = svgDetected)"

lemma ConsumeBody_Inr:
  assumes "run_state (ConsumeBody L lims resp sink s) h = ((Inr (n, det), s'), h')"
  shows "\<exists>all. accepted lims resp n det all \<and> (failed s \<longrightarrow> failed s') \<and> (\<not> failed s' \<longrightarrow> recv s' = recv s @ all)"
proof -
  let ?c0 = "\<lparr>cr_r = rs_Body resp, cr_remain = l_MaxImageBytes lims + 1, cr_tooLarge = False\<rparr>"
  obtain w h1 where "run_state (readFull sink (l_SniffBytes lims) [] ?c0 s) h = (w, h1)" by fastforce
  then obtain hd0 e c1 s1 where rf: "run_state (readFull sink (l_SniffBytes lims) [] ?c0 s) h = ((hd0, e, c1, s1), h1)"
    by (cases w) auto
  with assms have ne: "e = None" "hd0 \<noteq> []" by (auto simp: ConsumeBody_def split: option.splits if_splits)
  from readFull_took [OF rf] ne have t1: "took hd0 ?c0 s c1 s1" "length hd0 \<le> l_SniffBytes lims"
    "length hd0 = l_SniffBytes lims \<or> concat (bd_chunks (cr_r c1)) = []" by auto
  have "\<exists>d c2 s2 h2. took d c1 s1 c2 s2 \<and>
      run_state (consumeTail L lims resp sink (length hd0) det c2 s2) h2 = ((Inr (n, det), s'), h') \<and>
      (case sniffMagic hd0 of Some d' \<Rightarrow> det = d' \<and> d = [] | None \<Rightarrow> det = svgDetected)"
  proof (cases "sniffMagic hd0")
    case (Some d')
    with assms rf ne have "run_state (consumeTail L lims resp sink (length hd0) d' c1 s1) h1 = ((Inr (n, det), s'), h')"
      by (simp add: ConsumeBody_def)
    moreover from consumeTail_Inr [OF this] have "det = d'" by blast
    moreover have "took [] c1 s1 c1 s1" by (simp add: took_def)
    ultimately show ?thesis using Some by (intro exI [of _ "[]"]) auto
  next
    case None
    obtain w2 h2 where "run_state (svgRootCheck L lims sink hd0 c1 s1) h1 = (w2, h2)" by fastforce
    then obtain e2 c2 s2 where sv: "run_state (svgRootCheck L lims sink hd0 c1 s1) h1 = ((e2, c2, s2), h2)"
      by (cases w2) auto
    with assms rf ne None have
      tail: "run_state (consumeTail L lims resp sink (length hd0) svgDetected c2 s2) h2 = ((Inr (n, det), s'), h')"
      by (auto simp: ConsumeBody_def split: option.splits)
    from consumeTail_Inr [OF this] have "det = svgDetected" by blast
    moreover from svgLoop_took sv obtain d where "took d c1 s1 c2 s2" by (fastforce simp: svgRootCheck_def Let_def)
    ultimately show ?thesis using tail None by auto
  qed
  then obtain d c2 s2 h2 where t2: "took d c1 s1 c2 s2" and
    tail: "run_state (consumeTail L lims resp sink (length hd0) det c2 s2) h2 = ((Inr (n, det), s'), h')" and
    det: "case sniffMagic hd0 of Some d' \<Rightarrow> det = d' \<and> d = [] | None \<Rightarrow> det = svgDetected"
    by blast
  from consumeTail_Inr [OF tail] obtain d3 where d3: "concat (bd_chunks (cr_r c2)) = d3" "n = length hd0 + length d3"
    "bd_end (cr_r c2) = None" "int (length d3) < cr_remain c2" "failed s2 \<longrightarrow> failed s'"
    "\<not> failed s' \<longrightarrow> recv s' = recv s2 @ d3" "rs_ContentLength resp \<le> max 0 (int n)"
    by blast
  let ?all = "hd0 @ d @ d3"
  have all: "concat (bd_chunks (rs_Body resp)) = ?all" "bd_end (rs_Body resp) = None"
    "int (length ?all) \<le> l_MaxImageBytes lims" "failed s \<longrightarrow> failed s'" "\<not> failed s' \<longrightarrow> recv s' = recv s @ ?all"
    using took_trans [OF t1(1) t2] d3 by (auto simp: took_def simp del: concat_eq_Nil_conv)
  have "take (l_SniffBytes lims) ?all = hd0"
    using t1(2,3) t2 d3(1) by (auto simp: took_def simp del: concat_eq_Nil_conv)
  then have "accepted lims resp n det ?all"
    using all det d3(2,7) ne(2) by (auto simp: accepted_def split: option.splits)
  with all(4,5) show ?thesis by blast
qed

end

end
