(* ===== verification/Publish.thy ===== *)
theory Publish
  imports ImageBody FileTools
begin

text \<open>
  The commit core of \<open>upload\<close> (\<open>publish.go\<close>): a download streams into a temporary file beside its target,
  an existing target is compared byte by byte, and a missing one is published without a replace window,
  by a hard link or by an exclusive create and copy. Reading a whole file (\<open>io.Copy\<close>) is one step. Log
  lines, and the origin that only they show, are not modelled. \<open>uploader\<close> holds the digest function and
  the interface \<open>fetcher\<close> of \<open>server.go\<close>.
\<close>

text \<open>The sink of a download: an open file, its first write error, and the bytes the hasher has taken.\<close>

record streamState =
  ss_file :: handle
  ss_err :: "goerr option"
  ss_hashed :: bytes

record uploader =
  up_sha :: "bytes \<Rightarrow> bytes"
  up_Get :: "nat \<Rightarrow> bytes \<Rightarrow> Response ioe"
  up_ConsumeBody :: "Response \<Rightarrow> streamState sink \<Rightarrow> streamState \<Rightarrow> ((goerr, nat \<times> Detected) result \<times> streamState) io"
  up_lower :: "nat \<Rightarrow> nat"
  up_attempts :: nat

record downloaded =
  dl_tmpRel :: bytes
  dl_size :: int
  dl_sha :: bytes
  dl_det :: Detected

text \<open>\<open>errWriter\<close> around the file, in front of the hasher (\<open>io.MultiWriter\<close>).\<close>

definition streamSink :: "streamState sink" where
  "streamSink s d =
     (case ss_err s of
        Some e \<Rightarrow> ret (Some e, s)
      | None \<Rightarrow>
          fWrite (ss_file s) d \<bind> (\<lambda>r.
          case r of
            Inl e \<Rightarrow> ret (Some e, s\<lparr>ss_err := Some e\<rparr>)
          | Inr f \<Rightarrow> ret (None, s\<lparr>ss_file := f, ss_hashed := ss_hashed s @ d\<rparr>)))"

text \<open>The claim of a temporary name, and the streaming into it.\<close>

definition tempOnce :: "bytes list \<Rightarrow> bytes \<Rightarrow> bytes ioe" where
  "tempOnce base rel =
     bindE (createTempIn base (Dir rel)) (\<lambda>(n, f).
     fClose f \<bind> (\<lambda>r. case r of Inl e \<Rightarrow> err e | Inr _ \<Rightarrow> ok n))"

definition streamInto :: "uploader \<Rightarrow> Response \<Rightarrow> bytes \<Rightarrow> bytes list \<Rightarrow> bytes \<Rightarrow> (nat \<times> Detected \<times> bytes) ioe" where
  "streamInto U resp tmpRel base rel =
     bindE (rOpenWrite base tmpRel) (\<lambda>f.
     up_ConsumeBody U resp streamSink \<lparr>ss_file = f, ss_err = None, ss_hashed = []\<rparr> \<bind> (\<lambda>(r, s).
     case r of
       Inl cerr \<Rightarrow>
         ignore (fClose (ss_file s)) \<bind> (\<lambda>_.
         (case ss_err s of Some e \<Rightarrow> err e | None \<Rightarrow> err cerr))
     | Inr (n, det) \<Rightarrow>
         ignore (fSync (ss_file s)) \<bind> (\<lambda>_.
         bindE (fClose (ss_file s)) (\<lambda>_.
         ignore (rChmod base tmpRel 420) \<bind> (\<lambda>_.
         ok (n, det, ss_hashed s))))))"

definition cleanupTemp :: "Conn \<Rightarrow> bytes \<Rightarrow> bytes \<Rightarrow> unit io" where
  "cleanupTemp c resolved tmpRel =
     ignore (WithRoot (c_dirs c) resolved (\<lambda>base rel. ignore (rRemove base tmpRel) \<bind> (\<lambda>_. ok ())))"

definition streamOnce :: "Conn \<Rightarrow> uploader \<Rightarrow> nat \<Rightarrow> bytes \<Rightarrow> Response \<Rightarrow> downloaded ioe" where
  "streamOnce c U ctx resolved resp =
     bindE (runFSContext ctx ''temp create'' (WithRoot (c_dirs c) resolved tempOnce)) (\<lambda>tmpRel.
     WithRoot (c_dirs c) resolved (streamInto U resp tmpRel) \<bind> (\<lambda>r.
     case r of
       Inl e \<Rightarrow> cleanupTemp c resolved tmpRel \<bind> (\<lambda>_. err e)
     | Inr (n, det, hashed) \<Rightarrow>
         ok \<lparr>dl_tmpRel = tmpRel, dl_size = int n, dl_sha = up_sha U hashed, dl_det = det\<rparr>))"

definition isStorageStreamErr :: "goerr \<Rightarrow> bool" where
  "isStorageStreamErr e = (if asImgErr e \<noteq> None then False else asCatalog e = None)"

section \<open>An existing target\<close>

definition deferClose :: "handle \<Rightarrow> 'a ioe \<Rightarrow> 'a ioe" where
  "deferClose f m = m \<bind> (\<lambda>r. ignore (fClose f) \<bind> (\<lambda>_. ret r))"

definition compareExisting :: "Conn \<Rightarrow> uploader \<Rightarrow> bytes \<Rightarrow> finfo \<Rightarrow> downloaded \<Rightarrow> bytes list \<Rightarrow> bytes \<Rightarrow> bool ioe" where
  "compareExisting c U resolved before dl base rel =
     bindE (rOpen base rel) (\<lambda>f. deferClose f (
     bindE (fReadRest f) (\<lambda>data.
     let content = take (nat (MaxImageBytes (c_limits c) + 1)) data; n = int (length content)
     in if n > MaxImageBytes (c_limits c) then err (EExistsConflict resolved)
        else
          bindE (rLstat base rel) (\<lambda>after.
          if fi_size after \<noteq> fi_size before \<or> fi_mtime after \<noteq> fi_mtime before then err (ETargetChanged resolved)
          else if n \<noteq> fi_size before then err (ETargetChanged resolved)
          else if n \<noteq> dl_size dl \<or> up_sha U content \<noteq> dl_sha dl then ok False
          else ok True))))"

definition compareTarget ::
  "Conn \<Rightarrow> uploader \<Rightarrow> bytes \<Rightarrow> finfo \<Rightarrow> downloaded \<Rightarrow> bytes list \<Rightarrow> bytes \<Rightarrow> (bytes \<times> bytes) ioe" where
  "compareTarget c U resolved info dl base rel =
     (if IsDir info then err (EIsDir resolved)
      else if \<not> IsRegular info then err (EExistsConflict resolved)
      else
        bindE (compareExisting c U resolved info dl base rel) (\<lambda>same.
        if same then ok (''skipped'', []) else err (EExistsConflict resolved)))"

section \<open>A missing target\<close>

definition isUnsupportedLink :: "goerr \<Rightarrow> bool" where
  "isUnsupportedLink e =
     (case asErrno e of
        None \<Rightarrow> False
      | Some n \<Rightarrow> n = ENOSYS \<or> n = EOPNOTSUPP \<or> n = EPERM \<or> n = EACCES \<or> n = EMLINK \<or> n = EXDEV)"

definition copyInto :: "handle \<Rightarrow> handle \<Rightarrow> (nat \<times> handle) ioe" where
  "copyInto dst src =
     bindE (fReadRest src) (\<lambda>data.
     if data = [] then ok (0, dst) else bindE (fWrite dst data) (\<lambda>dst'. ok (length data, dst')))"

definition degradedPublish :: "bytes list \<Rightarrow> bytes \<Rightarrow> bytes \<Rightarrow> int \<Rightarrow> bytes ioe" where
  "degradedPublish base rel tmpRel sz =
     bindE (rCreateExcl base rel 420) (\<lambda>dst.
     bindE (rOpen base tmpRel) (\<lambda>src. deferClose src (
       bindE (copyInto dst src) (\<lambda>(n, dst').
       ignore (fSync dst') \<bind> (\<lambda>_.
       bindE (fClose dst') (\<lambda>_.
       if int n \<noteq> sz
       then err (PlainErr (''degraded copy wrote '' @ itoa (int n) @ '' of '' @ itoa sz @ '' bytes''))
       else ignore (rChmod base rel 420) \<bind> (\<lambda>_. ok ''created''))))))
     \<bind> (\<lambda>r.
     case r of
       Inl e \<Rightarrow> ignore (rRemove base rel) \<bind> (\<lambda>_. err e)
     | Inr st \<Rightarrow> ok st))"

definition publishNoReplace :: "downloaded \<Rightarrow> bytes list \<Rightarrow> bytes \<Rightarrow> (bytes \<times> bytes) ioe" where
  "publishNoReplace dl base rel =
     rLstat base (dl_tmpRel dl) \<bind> (\<lambda>r.
     case r of
       Inl e \<Rightarrow> err (EBackend (PlainErr ''upload temp file vanished before publish''))
     | Inr info \<Rightarrow>
         if \<not> IsRegular info \<or> fi_size info \<noteq> dl_size dl
         then err (EBackend (PlainErr ''upload temp file changed before publish''))
         else
           rLink base (dl_tmpRel dl) rel \<bind> (\<lambda>l.
           case l of
             Inr _ \<Rightarrow>
               rRemove base (dl_tmpRel dl) \<bind> (\<lambda>m.
               ok (''created'', (case m of Inl _ \<Rightarrow> CodeTempCleanup | Inr _ \<Rightarrow> [])))
           | Inl e \<Rightarrow>
               if isExist e then err RacedErr
               else if isUnsupportedLink e then
                 degradedPublish base rel (dl_tmpRel dl) (dl_size dl) \<bind> (\<lambda>d.
                 case d of
                   Inl derr \<Rightarrow> if isExist derr then err RacedErr else err derr
                 | Inr st \<Rightarrow>
                     rRemove base (dl_tmpRel dl) \<bind> (\<lambda>m.
                     ok (st, (case m of Inl _ \<Rightarrow> CodeTempCleanup @ '';'' @ CodeAtomicDegraded | Inr _ \<Rightarrow> CodeAtomicDegraded))))
               else err e))"

section \<open>The decision\<close>

definition publishOnce :: "Conn \<Rightarrow> uploader \<Rightarrow> bytes \<Rightarrow> downloaded \<Rightarrow> bytes list \<Rightarrow> bytes \<Rightarrow> (bytes \<times> bytes) ioe" where
  "publishOnce c U resolved dl base rel =
     rLstat base rel \<bind> (\<lambda>r.
     case r of
       Inr info \<Rightarrow> compareTarget c U resolved info dl base rel
     | Inl e \<Rightarrow>
         if isNotExist e then
           publishNoReplace dl base rel \<bind> (\<lambda>p.
           case p of
             Inr out \<Rightarrow> ok out
           | Inl perr \<Rightarrow>
               if isRaced perr then
                 bindE (rLstat base rel) (\<lambda>info2. compareTarget c U resolved info2 dl base rel)
               else err perr)
         else err e)"

definition publishItem :: "Conn \<Rightarrow> uploader \<Rightarrow> nat \<Rightarrow> bytes \<Rightarrow> downloaded \<Rightarrow> (bytes \<times> bytes) ioe" where
  "publishItem c U ctx resolved dl =
     runFSContext ctx ''publish'' (WithRoot (c_dirs c) resolved (publishOnce c U resolved dl))"

section \<open>What a successful download has read\<close>

text \<open>The sink keeps the contract of \<open>body_sink\<close>: the hasher has every byte that reached the file.\<close>

interpretation stream: body_sink streamSink ss_hashed "\<lambda>s. ss_err s \<noteq> None"
  by unfold_locales (auto simp: streamSink_def split: option.splits prod.splits sum.splits)


text \<open>A GIF in two chunks.\<close>

definition demoResponse :: Response where
  "demoResponse = \<lparr>rs_StatusCode = 200, rs_Header = (\<lambda>k. []),
     rs_Body = \<lparr>bd_chunks = [''GIF8'', ''9a;''], bd_end = None\<rparr>, rs_ContentLength = 7, rs_URL = demoURL\<rparr>"

definition demoImgLib :: imgLib where
  "demoImgLib = \<lparr>il_tokens = (\<lambda>b e. ([], False)), il_mediaType = Some\<rparr>"

definition demoStream :: streamState where
  "demoStream = \<lparr>ss_file = \<lparr>hd_ino = 2, hd_path = [''d'', ''f''], hd_pos = 0\<rparr>, ss_err = None, ss_hashed = []\<rparr>"


end
