(* ===== verification/Upload.thy ===== *)
theory Upload
  imports Publish Tools
begin

text \<open>
  The \<open>upload\<close> handler (\<open>upload.go\<close>): batch validation, the gates, the pipeline of one item and the
  aggregation of results. Whether a gate has a free slot is the schedule's choice. The workers of a batch
  take the items in input order; their interleaving with each other and with other calls shows as changes
  that others make to the file system between any two steps. The loop that downloads again after a storage
  failure runs at most \<open>up_attempts\<close> times, which stands for the item budget: after it the item's context
  has ended.
\<close>

record UploadItem =
  ui_URL :: bytes
  ui_FilePath :: bytes

record UploadItemResult =
  ur_Index :: nat
  ur_FilePath :: bytes
  ur_Status :: bytes
  ur_Bytes :: int
  ur_SHA256 :: bytes
  ur_ContentType :: bytes
  ur_ErrorCode :: bytes
  ur_Error :: bytes
  ur_DetectedContentType :: bytes
  ur_SuggestedExtension :: bytes
  ur_WarningCode :: bytes

record UploadSummary =
  us_Created :: nat
  us_Skipped :: nat
  us_Failed :: nat

record UploadOutput =
  uo_Results :: "UploadItemResult list"
  uo_Summary :: UploadSummary

definition emptyResult :: UploadItemResult where
  "emptyResult = \<lparr>ur_Index = 0, ur_FilePath = [], ur_Status = [], ur_Bytes = 0, ur_SHA256 = [], ur_ContentType = [],
     ur_ErrorCode = [], ur_Error = [], ur_DetectedContentType = [], ur_SuggestedExtension = [], ur_WarningCode = []\<rparr>"

definition acceptedExts :: "bytes list" where
  "acceptedExts = [''.png'', ''.jpg'', ''.jpeg'', ''.gif'', ''.webp'', ''.avif'', ''.svg'']"

definition extMatchesDetected :: "bytes \<Rightarrow> Detected \<Rightarrow> bool" where
  "extMatchesDetected ext det =
     (if MIME det = ''image/jpeg'' then ext = ''.jpg'' \<or> ext = ''.jpeg'' else ext = Ext det)"

text \<open>\<open>filepath.Ext\<close>.\<close>

definition pathExt :: "bytes \<Rightarrow> bytes" where
  "pathExt p =
     (let r = takeWhile (\<lambda>c. c \<noteq> slash \<and> c \<noteq> CHR ''.'') (rev p); rest = drop (length r) (rev p)
      in if rest \<noteq> [] \<and> hd rest = CHR ''.'' then CHR ''.'' # rev r else [])"

definition itemFailed :: "nat \<Rightarrow> bytes \<Rightarrow> goerr \<Rightarrow> UploadItemResult" where
  "itemFailed idx path e = emptyResult\<lparr>ur_Index := idx, ur_FilePath := path, ur_Status := ''failed'',
     ur_ErrorCode := Code e, ur_Error := errText e\<rparr>"

section \<open>Error mapping\<close>

definition mapImgErr :: "imgKind \<Rightarrow> bytes \<Rightarrow> int \<Rightarrow> int \<Rightarrow> goerr" where
  "mapImgErr k detail status maxBytes =
     (case k of
        ImgBadURL \<Rightarrow> EInvalidURL detail
      | ImgBlocked \<Rightarrow> ESSRFBlocked detail
      | ImgRedirects \<Rightarrow> ERedirectLimit
      | ImgStatus \<Rightarrow> EHTTPStatus status
      | ImgNet \<Rightarrow> EDownload detail
      | ImgTimeout \<Rightarrow> ETimeout detail
      | ImgTooLarge \<Rightarrow> ETooLarge maxBytes
      | ImgType \<Rightarrow> EImageType detail)"

definition mapFetchErr :: "bool \<Rightarrow> goerr \<Rightarrow> int \<Rightarrow> goerr" where
  "mapFetchErr ctxOver e maxBytes =
     (case asImgErr e of
        Some (k, detail, status) \<Rightarrow> mapImgErr k detail status maxBytes
      | None \<Rightarrow> if isCtxErr e DeadlineExceeded \<or> ctxOver then ETimeout ''download'' else EDownload ''request'')"

definition mapStreamErr :: "bool \<Rightarrow> goerr \<Rightarrow> int \<Rightarrow> goerr" where
  "mapStreamErr ctxOver e maxBytes =
     (case asImgErr e of
        Some (k, detail, status) \<Rightarrow> mapFetchErr ctxOver (ImgErr k detail status) maxBytes
      | None \<Rightarrow> if isCtxErr e DeadlineExceeded \<or> ctxOver then ETimeout ''download'' else EBackend e)"

definition mapPublishErr :: "goerr \<Rightarrow> goerr" where
  "mapPublishErr e = (if isCtxErr e Canceled \<or> isCtxErr e DeadlineExceeded then ETimeout ''publish'' else e)"

section \<open>One item\<close>

definition ctxOver :: "nat \<Rightarrow> bool io" where
  "ctxOver k = gets (\<lambda>h. ctxErrAt (Some k) h \<noteq> None)"

text \<open>The download loop: a downloaded image or the error to report.\<close>

fun downloadLoop :: "Conn \<Rightarrow> uploader \<Rightarrow> bytes \<Rightarrow> bytes \<Rightarrow> nat \<Rightarrow> downloaded ioe" where
  "downloadLoop c U url resolved 0 = err (ETimeout ''download'')"
| "downloadLoop c U url resolved (Suc attempts) =
     up_Get U 2 url \<bind> (\<lambda>g.
     case g of
       Inl e \<Rightarrow> ctxOver 2 \<bind> (\<lambda>over. err (mapFetchErr over e (MaxImageBytes (c_limits c))))
     | Inr resp \<Rightarrow>
         streamOnce c U 2 resolved resp \<bind> (\<lambda>r.
         case r of
           Inr dl \<Rightarrow> ok dl
         | Inl e \<Rightarrow>
             ctxOver 2 \<bind> (\<lambda>over.
             if isStorageStreamErr e \<and> \<not> over then downloadLoop c U url resolved attempts
             else err (mapStreamErr over e (MaxImageBytes (c_limits c))))))"

text \<open>The part under the path locks.\<close>

definition publishLocked :: "Conn \<Rightarrow> uploader \<Rightarrow> nat \<Rightarrow> bytes \<Rightarrow> downloaded \<Rightarrow> UploadItemResult io" where
  "publishLocked c U idx resolved dl =
     publishItem c U 2 resolved dl \<bind> (\<lambda>p.
     case p of
       Inl e \<Rightarrow> cleanupTemp c resolved (dl_tmpRel dl) \<bind> (\<lambda>_. ret (itemFailed idx resolved (mapPublishErr e)))
     | Inr (status, warning) \<Rightarrow>
         (if status = ''created'' then sessForget c resolved else ret ()) \<bind> (\<lambda>_.
         ret (emptyResult\<lparr>ur_Index := idx, ur_FilePath := resolved, ur_Status := status, ur_Bytes := dl_size dl,
           ur_SHA256 := dl_sha dl, ur_ContentType := MIME (dl_det dl), ur_WarningCode := warning\<rparr>)))"

definition uploadItem :: "Conn \<Rightarrow> uploader \<Rightarrow> nat \<Rightarrow> UploadItem \<Rightarrow> bytes \<Rightarrow> UploadItemResult io" where
  "uploadItem c U idx item resolved =
     (let fail = (\<lambda>e. ret (itemFailed idx resolved e)); ext = toLower (up_lower U) (pathExt resolved)
      in if ext \<notin> set acceptedExts
         then fail (EImageType (''target extension '' @ ext @ '' is not an accepted image extension''))
         else
           nextTick \<bind> (\<lambda>t.
           ctxOver 1 \<bind> (\<lambda>over.
           if over \<and> t_fault t \<noteq> NoFault then fail (ETimeout ''download queue'')
           else
             withTimeout 2 \<bind> (\<lambda>_.
             downloadLoop c U (ui_URL item) resolved (up_attempts U) \<bind> (\<lambda>d.
             case d of
               Inl e \<Rightarrow> fail e
             | Inr dl \<Rightarrow>
                 if \<not> extMatchesDetected ext (dl_det dl) then
                   cleanupTemp c resolved (dl_tmpRel dl) \<bind> (\<lambda>_.
                   ret ((itemFailed idx resolved
                       (EImageType (''detected '' @ MIME (dl_det dl) @ '' does not match extension '' @ ext)))
                     \<lparr>ur_DetectedContentType := MIME (dl_det dl), ur_SuggestedExtension := Ext (dl_det dl)\<rparr>))
                 else
                   LockContext 2 PLocks resolved \<bind> (\<lambda>l.
                   case l of
                     Inl _ \<Rightarrow> cleanupTemp c resolved (dl_tmpRel dl) \<bind> (\<lambda>_. fail (ETimeout ''publish lock''))
                   | Inr _ \<Rightarrow>
                       LockFile (c_token c) resolved \<bind> (\<lambda>_.
                       publishLocked c U idx resolved dl \<bind> (\<lambda>res.
                       release (SessLocks (c_token c)) resolved \<bind> (\<lambda>_.
                       release PLocks resolved \<bind> (\<lambda>_. ret res))))))))))"

section \<open>The batch\<close>

text \<open>The shape of a batch; the first offending item is reported.\<close>

fun checkItems :: "UploadLimits \<Rightarrow> nat \<Rightarrow> UploadItem list \<Rightarrow> goerr option" where
  "checkItems L i [] = None"
| "checkItems L i (it # its) =
     (if ui_URL it = [] then Some (EInvalidBatch (''item '' @ itoa (int (i + 1)) @ '': url is empty''))
      else if length (ui_URL it) > MaxURLBytes L
        then Some (EInvalidBatch (''item '' @ itoa (int (i + 1)) @ '': url exceeds the length limit''))
      else if ui_FilePath it = [] then Some (EInvalidBatch (''item '' @ itoa (int (i + 1)) @ '': file_path is empty''))
      else checkItems L (i + 1) its)"

definition checkBatch :: "UploadLimits \<Rightarrow> UploadItem list \<Rightarrow> goerr option" where
  "checkBatch L files =
     (if files = [] then Some (EInvalidBatch ''files must contain at least 1 item'')
      else if length files > MaxBatchItems L
        then Some (EInvalidBatch (''files must contain at most '' @ itoa (int (MaxBatchItems L)) @ '' items, got '' @
          itoa (int (length files))))
      else checkItems L 0 files)"

text \<open>Validation of every path: the results so far, and the resolved paths (empty when failed).\<close>

fun validateItems :: "Conn \<Rightarrow> nat \<Rightarrow> UploadItem list \<Rightarrow> (UploadItemResult \<times> bytes) list io" where
  "validateItems c i [] = ret []"
| "validateItems c i (it # its) =
     c_validate c (ui_FilePath it) \<bind> (\<lambda>r.
     validateItems c (i + 1) its \<bind> (\<lambda>rest.
     ret ((case r of
        Inl e \<Rightarrow> (itemFailed (i + 1) (ui_FilePath it) e, [])
      | Inr p \<Rightarrow> (emptyResult, p)) # rest)))"

text \<open>Items that share a target all fail.\<close>

definition markDuplicates :: "UploadItem list \<Rightarrow> (UploadItemResult \<times> bytes) list \<Rightarrow> (UploadItemResult \<times> bytes) list" where
  "markDuplicates files rs =
     map (\<lambda>(i, it, res, p).
        if p \<noteq> [] \<and> length (filter (\<lambda>(_, q). q = p) rs) > 1
        then (itemFailed (i + 1) (ui_FilePath it) (EDuplicateTarget p), [])
        else (res, p))
      (zip [0..<length rs] (zip files rs))"

fun runItems :: "Conn \<Rightarrow> uploader \<Rightarrow> nat \<Rightarrow> UploadItem list \<Rightarrow> (UploadItemResult \<times> bytes) list \<Rightarrow> UploadItemResult list io" where
  "runItems c U i (it # its) ((res, p) # rs) =
     (if p \<noteq> [] \<and> ur_Status res = [] then
        ctxOver 1 \<bind> (\<lambda>over.
        if over then ret (itemFailed (i + 1) (ui_FilePath it) (ETimeout ''batch''))
        else uploadItem c U (i + 1) it p)
      else ret res) \<bind> (\<lambda>r.
     runItems c U (i + 1) its rs \<bind> (\<lambda>rest. ret (r # rest)))"
| "runItems c U i its rs = ret []"

fun summarise :: "UploadItemResult list \<Rightarrow> UploadSummary" where
  "summarise [] = \<lparr>us_Created = 0, us_Skipped = 0, us_Failed = 0\<rparr>"
| "summarise (r # rs) =
     (let s = summarise rs in
      if ur_Status r = ''created'' then s\<lparr>us_Created := us_Created s + 1\<rparr>
      else if ur_Status r = ''skipped'' then s\<lparr>us_Skipped := us_Skipped s + 1\<rparr>
      else s\<lparr>us_Failed := us_Failed s + 1\<rparr>)"

text \<open>The handler: whether the call is an error result, and its output.\<close>

definition Upload :: "Conn \<Rightarrow> uploader \<Rightarrow> UploadItem list \<Rightarrow> (bool \<times> UploadOutput) ioe" where
  "Upload c U files =
     (case checkBatch (c_limits c) files of
        Some e \<Rightarrow> err e
      | None \<Rightarrow>
          nextTick \<bind> (\<lambda>t.
          if t_fault t \<noteq> NoFault then err EBusy
          else
            withTimeout 1 \<bind> (\<lambda>_.
            validateItems c 0 files \<bind> (\<lambda>rs.
            runItems c U 0 files (markDuplicates files rs) \<bind> (\<lambda>results.
            let s = summarise results
            in ok (us_Failed s > 0, \<lparr>uo_Results = results, uo_Summary = s\<rparr>))))))"

text \<open>The server's uploader: the restricted fetcher of \<open>imagedownload\<close> behind the interface.\<close>

definition fetchUploader :: "Fetcher \<Rightarrow> imgLib \<Rightarrow> (bytes \<Rightarrow> bytes) \<Rightarrow> nat \<Rightarrow> uploader" where
  "fetchUploader F L sha attempts =
     \<lparr>up_sha = sha, up_Get = (\<lambda>ctx. Get F), up_ConsumeBody = ConsumeBody L (f_limits F), up_lower = f_lower F,
      up_attempts = attempts\<rparr>"

section \<open>What a batch reports\<close>

text \<open>A decision is a creation or a skip.\<close>

interpretation some: handler_rel "\<lambda>_ _. True" ds for ds
  by unfold_locales (simp_all add: state_io_rel_def)

lemma compareTarget_status:
  "run_state (compareTarget c U resolved info dl base rel) h = (Inr (st, w), h') \<Longrightarrow> st = ''skipped''"
  by (auto simp: compareTarget_def run_bindE split: if_splits prod.splits sum.splits)

lemma degradedPublish_status:
  "run_state (degradedPublish base rel tmpRel n) h = (Inr st, h') \<Longrightarrow> st = ''created''"
  by (auto simp: degradedPublish_def deferClose_def run_bindE split: if_splits prod.splits sum.splits)

lemma publishNoReplace_status:
  assumes "run_state (publishNoReplace dl base rel) h = (Inr (st, w), h')"
  shows "st = ''created''"
proof -
  obtain st0 st1 h1 where "run_state (rLstat base (dl_tmpRel dl)) h = (st0, h1)" by fastforce
  with assms show ?thesis
    by (auto simp: publishNoReplace_def split: if_splits prod.splits sum.splits dest: degradedPublish_status)
qed

lemma publishOnce_status:
  "run_state (publishOnce c U resolved dl base rel) h = (Inr (st, w), h') \<Longrightarrow> st \<in> {''created'', ''skipped''}"
  by (auto simp: publishOnce_def run_bindE split: if_splits prod.splits sum.splits
      dest: publishNoReplace_status compareTarget_status)

lemma publishItem_status:
  assumes "run_state (publishItem c U ctx resolved dl) h = (Inr (st, w), h')"
  shows "st \<in> {''created'', ''skipped''}"
proof -
  have "state_io_rel (\<lambda>_ _. True) (WithRoot (c_dirs c) resolved (publishOnce c U resolved dl))"
    by (simp add: state_io_rel_def)
  from some.retry_Inr(3) [OF this assms [unfolded publishItem_def]] obtain h1 h2 where
    "run_state (WithRoot (c_dirs c) resolved (publishOnce c U resolved dl)) h1 = (Inr (st, w), h2)" by blast
  then show ?thesis
    by (auto simp: run_WithRoot split: prod.splits sum.splits dest: publishOnce_status)
qed

text \<open>The row of one item: its index, and either a failure with its code or a success for the resolved path.\<close>

definition resultRow :: "nat \<Rightarrow> bytes \<Rightarrow> UploadItemResult \<Rightarrow> bool" where
  "resultRow idx p r \<longleftrightarrow> ur_Index r = idx \<and>
     (ur_Status r = ''failed'' \<or>
      (ur_Status r \<in> {''created'', ''skipped''} \<and> ur_ErrorCode r = [] \<and> ur_Error r = [] \<and> ur_FilePath r = p \<and> p \<noteq> []))"

lemma resultRow_failed: "resultRow idx p (itemFailed idx q e)"
  by (simp add: resultRow_def itemFailed_def emptyResult_def)

lemma rets_after: "rets P m \<Longrightarrow> rets P (m \<bind> (\<lambda>r. n1 \<bind> (\<lambda>_. n2 \<bind> (\<lambda>_. ret r))))"
  by (simp add: rets_def split: prod.split) (metis fst_conv)

lemma rets_publishLocked: "p \<noteq> [] \<Longrightarrow> rets (resultRow idx p) (publishLocked c U idx p dl)"
  unfolding rets_def
proof
  fix h assume p: "p \<noteq> []"
  obtain r h1 where r: "run_state (publishItem c U 2 p dl) h = (r, h1)" by fastforce
  with p publishItem_status [of c U 2 p dl h] show "resultRow idx p (fst (run_state (publishLocked c U idx p dl) h))"
    by (auto simp: publishLocked_def resultRow_failed split: sum.split prod.splits)
      (auto simp: resultRow_def emptyResult_def)
qed

lemma rets_uploadItem: "p \<noteq> [] \<Longrightarrow> rets (resultRow idx p) (uploadItem c U idx item p)"
  unfolding uploadItem_def Let_def
  by (intro rets_after rets_intros rets_publishLocked resultRow_failed)
    (auto simp: resultRow_def itemFailed_def emptyResult_def)

text \<open>Before the workers start: a row is a failure, or open for its resolved path.\<close>

definition openRow :: "nat \<Rightarrow> UploadItemResult \<times> bytes \<Rightarrow> bool" where
  "openRow idx rp \<longleftrightarrow> (snd rp = [] \<and> resultRow idx [] (fst rp)) \<or> (snd rp \<noteq> [] \<and> fst rp = emptyResult)"

lemma rets_runItems:
  assumes "length rs = length files" and "\<And>k. k < length rs \<Longrightarrow> openRow (i + k + 1) (rs ! k)"
  shows "rets (\<lambda>out. length out = length rs \<and> (\<forall>k < length rs. resultRow (i + k + 1) (snd (rs ! k)) (out ! k)))
    (runItems c U i files rs)"
  using assms
proof (induction c U i files rs rule: runItems.induct)
  case (1 c U i it its res p rs)
  from "1.prems"(2) [of 0] have o: "openRow (i + 1) (res, p)" by simp
  have tl: "rets (\<lambda>out. length out = length rs \<and> (\<forall>k < length rs. resultRow (i + 1 + k + 1) (snd (rs ! k)) (out ! k)))
      (runItems c U (i + 1) its rs)"
    using "1.IH" "1.prems"(1) "1.prems"(2) [of "Suc _"] by fastforce
  have hd: "rets (resultRow (i + 1) p)
      (if p \<noteq> [] \<and> ur_Status res = [] then
        ctxOver 1 \<bind> (\<lambda>over.
        if over then ret (itemFailed (i + 1) (ui_FilePath it) (ETimeout ''batch''))
        else uploadItem c U (i + 1) it p)
      else ret res)"
  proof (cases "p = []")
    case True
    with o show ?thesis by (simp add: openRow_def rets_intros)
  next
    case False
    with o have "ur_Status res = []" by (simp add: openRow_def emptyResult_def)
    with False have open_row: "p \<noteq> [] \<and> ur_Status res = []" by simp
    from False have "rets (resultRow (i + 1) p) (ctxOver 1 \<bind> (\<lambda>over.
        if over then ret (itemFailed (i + 1) (ui_FilePath it) (ETimeout ''batch''))
        else uploadItem c U (i + 1) it p))" (is "rets _ ?m")
      by (intro rets_intros rets_uploadItem resultRow_failed)
    then show ?thesis by (simp only: if_P [OF open_row])
  qed
  show ?case
    unfolding rets_def runItems.simps
  proof
    fix h
    let ?m = "if p \<noteq> [] \<and> ur_Status res = [] then
        ctxOver 1 \<bind> (\<lambda>over.
        if over then ret (itemFailed (i + 1) (ui_FilePath it) (ETimeout ''batch''))
        else uploadItem c U (i + 1) it p)
      else ret res"
    obtain r h1 where r: "run_state ?m h = (r, h1)" by fastforce
    obtain rest h2 where rest: "run_state (runItems c U (i + 1) its rs) h1 = (rest, h2)" by fastforce
    from hd r have "resultRow (i + 1) p r" unfolding rets_def by (metis fst_conv)
    moreover from tl rest have "length rest = length rs" "\<forall>k < length rs. resultRow (i + 1 + k + 1) (snd (rs ! k)) (rest ! k)"
      unfolding rets_def by (metis fst_conv)+
    moreover have "fst (run_state (?m \<bind> (\<lambda>r. runItems c U (i + 1) its rs \<bind> (\<lambda>rest. ret (r # rest)))) h) = r # rest"
      using r rest by simp
    ultimately show "length (fst (run_state (?m \<bind> (\<lambda>r. runItems c U (i + 1) its rs \<bind> (\<lambda>rest. ret (r # rest)))) h)) =
        length ((res, p) # rs) \<and>
      (\<forall>k < length ((res, p) # rs). resultRow (i + k + 1) (snd (((res, p) # rs) ! k))
        (fst (run_state (?m \<bind> (\<lambda>r. runItems c U (i + 1) its rs \<bind> (\<lambda>rest. ret (r # rest)))) h) ! k))"
      by (auto simp: nth_Cons split: nat.split)
  qed
qed (auto simp: rets_def)

lemma rets_validateItems:
  assumes "list_all canonPath (c_dirs c)"
  shows "rets (\<lambda>rs. length rs = length files \<and> (\<forall>k < length rs. openRow (i + k + 1) (rs ! k))) (validateItems c i files)"
proof (induction files arbitrary: i)
  case Nil
  then show ?case by (simp add: rets_def)
next
  case (Cons it files)
  show ?case
    unfolding rets_def
  proof
    fix h
    obtain r h1 where r: "run_state (c_validate c (ui_FilePath it)) h = (r, h1)" by fastforce
    obtain rest h2 where rest: "run_state (validateItems c (i + 1) files) h1 = (rest, h2)" by fastforce
    let ?row = "case r of Inl e \<Rightarrow> (itemFailed (i + 1) (ui_FilePath it) e, []) | Inr p \<Rightarrow> (emptyResult, p)"
    have "p \<noteq> []" if "r = Inr p" for p
      using Validate_inScope [of "c_guard c" "c_env c" "ui_FilePath it" h p h1] r that assms canonPath_nonempty
      by (auto simp: c_validate_def c_dirs_def AllowedDirs_def inScope_def)
    then have "openRow (i + 1) ?row" by (auto simp: openRow_def resultRow_failed split: sum.split)
    moreover from Cons.IH [of "i + 1"] rest have "length rest = length files" "\<forall>k < length rest. openRow (i + 1 + k + 1) (rest ! k)"
      unfolding rets_def by (metis fst_conv)+
    ultimately show "length (fst (run_state (validateItems c i (it # files)) h)) = length (it # files) \<and>
        (\<forall>k < length (fst (run_state (validateItems c i (it # files)) h)).
          openRow (i + k + 1) (fst (run_state (validateItems c i (it # files)) h) ! k))"
      using r rest by (auto simp: nth_Cons split: nat.split)
  qed
qed

lemma filter_two: "i < j \<Longrightarrow> j < length xs \<Longrightarrow> P (xs ! i) \<Longrightarrow> P (xs ! j) \<Longrightarrow> length (filter P xs) > 1"
proof -
  assume a: "i < j" "j < length xs" "P (xs ! i)" "P (xs ! j)"
  then have "{i, j} \<subseteq> {k. k < length xs \<and> P (xs ! k)}" by auto
  then have "card {i, j} \<le> length (filter P xs)" unfolding length_filter_conv_card by (intro card_mono) auto
  with a show ?thesis by simp
qed

lemma markDuplicates_rows:
  assumes "length rs = length files" and "\<forall>k < length rs. openRow (k + 1) (rs ! k)"
  defines "ds \<equiv> markDuplicates files rs"
  shows "length ds = length files" "\<And>k. k < length ds \<Longrightarrow> openRow (k + 1) (ds ! k)"
    "\<And>i j. i < j \<Longrightarrow> j < length ds \<Longrightarrow> snd (ds ! i) \<noteq> [] \<Longrightarrow> snd (ds ! i) \<noteq> snd (ds ! j)"
proof -
  show len: "length ds = length files" using assms(1) by (simp add: ds_def markDuplicates_def)
  have nth: "ds ! k = (if snd (rs ! k) \<noteq> [] \<and> length (filter (\<lambda>(_, q). q = snd (rs ! k)) rs) > 1
      then (itemFailed (k + 1) (ui_FilePath (files ! k)) (EDuplicateTarget (snd (rs ! k))), []) else rs ! k)"
    if "k < length ds" for k
    using that len assms(1) by (simp add: ds_def markDuplicates_def split: prod.split)
  show "openRow (k + 1) (ds ! k)" if "k < length ds" for k
    using that len assms(1,2) by (simp add: nth) (simp add: openRow_def resultRow_failed)
  show "snd (ds ! i) \<noteq> snd (ds ! j)" if "i < j" "j < length ds" "snd (ds ! i) \<noteq> []" for i j
  proof
    assume eq: "snd (ds ! i) = snd (ds ! j)"
    with that have "snd (rs ! i) \<noteq> []" "snd (rs ! j) = snd (rs ! i)"
      "\<not> length (filter (\<lambda>(_, q). q = snd (rs ! i)) rs) > 1"
      by (auto simp: nth split: if_splits)
    with filter_two [of i j rs "\<lambda>(_, q). q = snd (rs ! i)"] that len assms(1) show False
      by (simp add: split_beta)
  qed
qed

lemma summarise_counts:
  assumes "\<forall>r \<in> set rs. ur_Status r \<in> {''created'', ''skipped'', ''failed''}"
  shows "us_Created (summarise rs) = length (filter (\<lambda>r. ur_Status r = ''created'') rs)"
    "us_Skipped (summarise rs) = length (filter (\<lambda>r. ur_Status r = ''skipped'') rs)"
    "us_Failed (summarise rs) = length (filter (\<lambda>r. ur_Status r = ''failed'') rs)"
  using assms by (induction rs) (auto simp: Let_def)


text \<open>A batch with an image and a target that is none.\<close>

definition demoUploader :: uploader where
  "demoUploader = fetchUploader demoFetcher demoImgLib (\<lambda>d. d) 2"

definition demoBatch :: "UploadItem list" where
  "demoBatch = [\<lparr>ui_URL = ''https://8.8.8.8/a'', ui_FilePath = ''/d/a.gif''\<rparr>,
     \<lparr>ui_URL = ''https://8.8.8.8/b'', ui_FilePath = ''/d/b.txt''\<rparr>]"

lemma demoUpload_run:
  "case run_state (Upload (demoConn ''t'') demoUploader demoBatch) demoHost of (r, h) \<Rightarrow>
    \<not> isl r \<and> uo_Summary (snd (projr r)) = \<lparr>us_Created = 1, us_Skipped = 0, us_Failed = 1\<rparr> \<and>
    length (h_fxlog h) = 6 \<and> list_ex (\<lambda>e. case e of FxLink p q d \<Rightarrow> q = [''d'', ''a.gif''] | _ \<Rightarrow> False) (h_fxlog h)"
  by code_simp


end
