(* ===== verification/UploadRel.thy ===== *)
theory UploadRel
  imports Upload
begin

text \<open>
  Contracts of \<open>upload\<close> that hold under every schedule: the relations of \<open>ToolsRel\<close> and \<open>ToolsLocks\<close> carried
  through the download, the stream into the temporary file and both publish paths. The locale \<open>sink_rel\<close>
  states what \<open>ConsumeBody\<close> needs of its sink, and \<open>upload_ops\<close> what the handler needs of its rooted
  operations; the interpretations are confinement, other sessions, the allowed effects and the leases.
\<close>

section \<open>The body and its sink\<close>

locale sink_rel = step_rel R for R +
  fixes sink :: "'s sink" and I :: "'s \<Rightarrow> bool"
  assumes sink_step: "I s \<Longrightarrow> relpost R (sink s d) (\<lambda>(e, s'). I s')"
begin

lemma rp_teeWrite: "I s \<Longrightarrow> relpost R (teeWrite sink s d) (\<lambda>(e, s'). I s')"
  by (auto simp: teeWrite_def intro: sink_step rp_ret)

lemma rp_teeBind:
  assumes "I s" and "\<And>e s'. I s' \<Longrightarrow> relpost R (k e s') Q"
  shows "relpost R (teeWrite sink s d \<bind> (\<lambda>(e, s'). k e s')) Q"
  by (rule rp_bind [OF rp_teeWrite [OF assms(1)]]) (auto intro: assms(2))

lemma rp_readFull: "I s \<Longrightarrow> relpost R (readFull sink n acc c s) (\<lambda>(d, e, c', s'). I s')"
proof (induction "bodySize (cr_r c)" arbitrary: n acc c s rule: less_induct)
  case less
  obtain d st c' where r: "capRead n c = (d, st, c')" by (metis surj_pair)
  have "relpost R (case e of Some e \<Rightarrow> ret (acc @ d, if length d = n then None else Some e, c', s')
      | None \<Rightarrow> readFull sink (n - length d) (acc @ d) c' s') (\<lambda>(d, e, c', s'). I s')"
    if "n \<noteq> 0" "st = RMore" "I s'" for e s'
    using that r less.hyps [OF capRead_size [of n c d c']] by (auto intro: rp_ret split: option.split)
  with less.prems r show ?case
    by (cases st) (auto simp: readFull.simps [of sink n] intro: rp_ret rp_teeBind)
qed

lemma rp_copyDiscard: "I s \<Longrightarrow> relpost R (copyDiscard sink n c s) (\<lambda>(d, e, c', s'). I s')"
proof (induction "bodySize (cr_r c)" arbitrary: n c s rule: less_induct)
  case less
  obtain d st c' where r: "capRead 8192 c = (d, st, c')" by (metis surj_pair)
  have "relpost R (case e of Some e \<Rightarrow> ret (n + length d, Some e, c', s')
      | None \<Rightarrow> copyDiscard sink (n + length d) c' s') (\<lambda>(d, e, c', s'). I s')"
    if "st = RMore" "I s'" for e s'
    using that r less.hyps [OF capRead_size [of 8192 c d c']] by (auto intro: rp_ret split: option.split)
  with less.prems r show ?case
    by (cases st) (auto simp: copyDiscard.simps [of sink n] intro: rp_ret rp_teeBind)
qed

lemma rp_svgOver: "I s \<Longrightarrow> relpost R (svgLoop L sink lim seen k True c s) (\<lambda>(e, c', s'). I s')"
  by (auto simp: svgLoop.simps [of L sink lim seen k True] intro: rp_ret split: prod.split sum.split bool.split)

lemma rp_svgLoop: "I s \<Longrightarrow> relpost R (svgLoop L sink lim seen k ended c s) (\<lambda>(e, c', s'). I s')"
proof (induction "bodySize (cr_r c)" arbitrary: lim seen k ended c s rule: less_induct)
  case less
  obtain toks more where tk: "il_tokens L seen ended = (toks, more)" by fastforce
  show ?case
  proof (cases "rootTokens (drop k toks) \<noteq> Inr False \<or> ended \<or> \<not> more \<or> lim = 0")
    case True
    with less.prems tk show ?thesis
      by (auto simp: svgLoop.simps [of L sink lim seen k ended] intro: rp_ret rp_svgOver split: sum.split bool.split)
  next
    case False
    obtain d st c' where r: "capRead (min 4096 lim) c = (d, st, c')" by (metis surj_pair)
    have "relpost R (case e of Some _ \<Rightarrow> svgLoop L sink 0 (seen @ d) (length toks) True c' s'
        | None \<Rightarrow> svgLoop L sink (lim - length d) (seen @ d) (length toks) False c' s') (\<lambda>(e, c', s'). I s')"
      if "st = RMore" "I s'" for e s'
      using that r less.hyps [OF capRead_size [of "min 4096 lim" c d c']] False by (auto intro: rp_svgOver split: option.split)
    with less.prems tk False r show ?thesis
      by (cases st) (auto simp: svgLoop.simps [of L sink lim seen k False] intro: rp_svgOver rp_teeBind)
  qed
qed

lemma rp_ConsumeBody:
  assumes "I s"
  shows "relpost R (ConsumeBody L lims resp sink s) (\<lambda>(r, s'). I s')"
proof -
  have tail: "relpost R (consumeTail L lims resp sink n det c s1) (\<lambda>(r, s'). I s')" if "I s1" for n det c s1
    unfolding consumeTail_def by (rule rp_bind [OF rp_copyDiscard [OF that]]) (auto intro: rp_ret)
  have svg: "relpost R (svgRootCheck L lims sink head c s1 \<bind> (\<lambda>(e, c2, s2). case e of Some e \<Rightarrow> ret (Inl e, s2)
      | None \<Rightarrow> consumeTail L lims resp sink (length head) svgDetected c2 s2)) (\<lambda>(r, s'). I s')" if "I s1" for head c s1
    unfolding svgRootCheck_def Let_def
    by (rule rp_bind [OF rp_svgLoop [OF that]]) (auto intro: rp_ret tail split: option.split)
  show ?thesis
    unfolding ConsumeBody_def
    by (rule rp_bind [OF rp_readFull [OF assms]]) (auto intro: rp_ret tail svg split: option.split)
qed

end

section \<open>The operations under a root\<close>

context mutate_rel
begin

lemma rp_fWrite:
  assumes "\<And>d. okFx (FxWrite (hd_path f) d)"
  shows "relpost R (fWrite f data) (\<lambda>r. \<forall>f'. r = Inr f' \<longrightarrow> hd_path f' = hd_path f)"
  unfolding fWrite_def
  by (rule rp_syscallPart) (auto simp: opWrite_def Let_def assms split: option.split)

lemma rp_rOpenWrite: "relpost R (rOpenWrite base t) (\<lambda>r. \<forall>f. r = Inr f \<longrightarrow> mayBe base True t (hd_path f))"
  unfolding rOpenWrite_def syscall_def
proof (rule rp_syscallPart)
  fix fs
  show "list_all okFx (snd (snd (atRoot base True t opOpenWrite fs)))"
    by (intro atRoot_all) (auto simp: opOpenWrite_def failOp_def okOp_def split: option.split node.split)
next
  fix fs v
  assume "fst (atRoot base True t opOpenWrite fs) = Inr v"
  then show "mayBe base True t (hd_path v)"
    by (auto simp: atRoot_def opOpenWrite_def failOp_def okOp_def mayBe_def split: sum.splits option.splits node.splits)
qed

definition writableState :: "streamState \<Rightarrow> bool" where
  "writableState s \<longleftrightarrow> (\<forall>d. okFx (FxWrite (hd_path (ss_file s)) d))"

lemma rp_streamSink: "writableState s \<Longrightarrow> relpost R (streamSink s d) (\<lambda>(e, s'). writableState s')"
proof -
  assume s: "writableState s"
  then have "relpost R (fWrite (ss_file s) d \<bind> (\<lambda>r. case r of Inl e \<Rightarrow> ret (Some e, s\<lparr>ss_err := Some e\<rparr>)
      | Inr f \<Rightarrow> ret (None, s\<lparr>ss_file := f, ss_hashed := ss_hashed s @ d\<rparr>))) (\<lambda>(e, s'). writableState s')"
    by (intro rp_bind [OF rp_fWrite]) (auto simp: writableState_def intro: rp_ret split: sum.split)
  with s show ?thesis by (auto simp: streamSink_def intro: rp_ret split: option.split)
qed

lemma rp_tempOnce:
  assumes "\<And>s p. mayBe base False (tempDirPrefix (Dir rel) @ hexEncode s) p \<Longrightarrow> okFx (FxCreate p)"
  shows "relpost R (tempOnce base rel) (\<lambda>r. \<forall>t. r = Inr t \<longrightarrow> (\<exists>s. t = tempDirPrefix (Dir rel) @ hexEncode s))"
  unfolding tempOnce_def createTempIn_def
proof (rule rp_bindE [OF rp_tempLoop [OF assms]])
  fix tf :: "bytes \<times> handle"
  assume a: "tempRes base (tempDirPrefix (Dir rel)) (Inr tf)"
  obtain t f where tf: "tf = (t, f)" by fastforce
  with a have "\<exists>s. t = tempDirPrefix (Dir rel) @ hexEncode s" by (auto simp: tempRes_def)
  then show "relpost R (case tf of (n, f) \<Rightarrow> fClose f \<bind> (\<lambda>r. case r of Inl e \<Rightarrow> err e | Inr _ \<Rightarrow> ok n))
      (\<lambda>r. \<forall>t. r = Inr t \<longrightarrow> (\<exists>s. t = tempDirPrefix (Dir rel) @ hexEncode s))"
    unfolding tf prod.case
    by (intro rp_bind [OF rp_rel [OF rel_calls(7)]]) (auto intro: rp_err rp_ok split: sum.split)
qed auto

lemma rel_streamInto:
  assumes "\<And>p d. mayBe base True t p \<Longrightarrow> okFx (FxWrite p d)" and "\<And>p. mayBe base True t p \<Longrightarrow> okFx (FxChmod p)"
    and "\<And>s. writableState s \<Longrightarrow> state_io_rel R (up_ConsumeBody U resp streamSink s)"
  shows "state_io_rel R (streamInto U resp t base rel)"
  unfolding streamInto_def
proof (rule relpost_rel, rule rp_bindE [OF rp_rOpenWrite])
  fix f :: handle
  assume "\<forall>f'. (Inr f :: (goerr, handle) result) = Inr f' \<longrightarrow> mayBe base True t (hd_path f')"
  then have "writableState \<lparr>ss_file = f, ss_err = None, ss_hashed = []\<rparr>" using assms(1) by (simp add: writableState_def)
  then show "relpost R (up_ConsumeBody U resp streamSink \<lparr>ss_file = f, ss_err = None, ss_hashed = []\<rparr> \<bind> (\<lambda>(r, s).
     case r of
       Inl cerr \<Rightarrow>
         ignore (fClose (ss_file s)) \<bind> (\<lambda>_.
         (case ss_err s of Some e \<Rightarrow> err e | None \<Rightarrow> err cerr))
     | Inr (n, det) \<Rightarrow>
         ignore (fSync (ss_file s)) \<bind> (\<lambda>_.
         bindE (fClose (ss_file s)) (\<lambda>_.
         ignore (rChmod base t 420) \<bind> (\<lambda>_.
         ok (n, det, ss_hashed s)))))) (\<lambda>_. True)"
    by (intro rp_rel rel_intros rel_ignore rel_calls rel_rChmod assms)
qed simp

lemma rel_deferClose: "state_io_rel R m \<Longrightarrow> state_io_rel R (deferClose f m)"
  unfolding deferClose_def by (intro rel_intros rel_ignore rel_calls)

lemma rel_compareTarget: "state_io_rel R (compareTarget c U p info dl base rel)"
  unfolding compareTarget_def compareExisting_def Let_def by (intro rel_intros rel_calls rel_deferClose)

lemma rel_degradedPublish:
  assumes "\<And>q. mayBe base False rel q \<Longrightarrow> okFx (FxCreate q) \<and> okFx (FxRemove q) \<and> (\<forall>d. okFx (FxWrite q d))"
    and "\<And>q. mayBe base True rel q \<Longrightarrow> okFx (FxChmod q)"
  shows "state_io_rel R (degradedPublish base rel t sz)"
  unfolding degradedPublish_def
proof (rule relpost_rel, rule rp_bindE [OF rp_rCreateExcl])
  fix dst :: handle
  assume "\<forall>f. (Inr dst :: (goerr, handle) result) = Inr f \<longrightarrow> mayBe base False rel (hd_path f)"
  then have "state_io_rel R (fWrite dst data)" for data using assms(1) by (intro rel_fWrite) auto
  then show "relpost R (bindE (rOpen base t) (\<lambda>src. deferClose src (
       bindE (copyInto dst src) (\<lambda>(n, dst').
       ignore (fSync dst') \<bind> (\<lambda>_.
       bindE (fClose dst') (\<lambda>_.
       if int n \<noteq> sz
       then err (PlainErr (''degraded copy wrote '' @ itoa (int n) @ '' of '' @ itoa sz @ '' bytes''))
       else ignore (rChmod base rel 420) \<bind> (\<lambda>_. ok ''created''))))))
     \<bind> (\<lambda>r.
     case r of
       Inl e \<Rightarrow> ignore (rRemove base rel) \<bind> (\<lambda>_. err e)
     | Inr st \<Rightarrow> ok st)) (\<lambda>_. True)"
    unfolding copyInto_def
    by (intro rp_rel rel_intros rel_ignore rel_calls rel_deferClose rel_rChmod rel_rRemove; simp add: assms)
qed (use assms in auto)

lemma rel_publishOnce:
  assumes "\<And>p. mayBe base False (dl_tmpRel dl) p \<Longrightarrow> okFx (FxRemove p)"
    and "\<And>p q d. mayBe base False (dl_tmpRel dl) p \<Longrightarrow> mayBe base False rel q \<Longrightarrow> okFx (FxLink p q d)"
    and "\<And>q. mayBe base False rel q \<Longrightarrow> okFx (FxCreate q) \<and> okFx (FxRemove q) \<and> (\<forall>d. okFx (FxWrite q d))"
    and "\<And>q. mayBe base True rel q \<Longrightarrow> okFx (FxChmod q)"
  shows "state_io_rel R (publishOnce c U p dl base rel)"
  unfolding publishOnce_def publishNoReplace_def
  by (intro rel_intros rel_calls rel_compareTarget rel_degradedPublish rel_rLink rel_rRemove; simp add: assms)

end

section \<open>The handler\<close>

definition imageTarget :: "uploader \<Rightarrow> bytes \<Rightarrow> bool" where
  "imageTarget U p \<longleftrightarrow> toLower (up_lower U) (pathExt p) \<in> set acceptedExts"

text \<open>\<open>W\<close> holds of validated paths, and \<open>T p\<close> of the temporary names made for \<open>p\<close>.\<close>

locale upload_ops = handler_rel R ds for R ds +
  fixes c :: Conn and U :: uploader and W :: "bytes \<Rightarrow> bool" and T :: "bytes \<Rightarrow> bytes \<Rightarrow> bool"
  assumes dirs: "c_dirs c = ds"
    and get: "state_io_rel R (up_Get U ctx url)"
    and temp: "W p \<Longrightarrow> imageTarget U p \<Longrightarrow> relpost R (WithRoot ds p tempOnce) (\<lambda>r. \<forall>t. r = Inr t \<longrightarrow> T p t)"
    and stream: "W p \<Longrightarrow> imageTarget U p \<Longrightarrow> T p t \<Longrightarrow> state_io_rel R (WithRoot ds p (streamInto U resp t))"
    and remove: "W p \<Longrightarrow> imageTarget U p \<Longrightarrow> T p t \<Longrightarrow>
      state_io_rel R (WithRoot ds p (\<lambda>base rel. ignore (rRemove base t) \<bind> (\<lambda>_. ok ())))"
    and publish: "W p \<Longrightarrow> imageTarget U p \<Longrightarrow> T p (dl_tmpRel dl) \<Longrightarrow> state_io_rel R (WithRoot ds p (publishOnce c U p dl))"
    and forget: "state_io_rel R (sessForget c p)"
begin

lemma rp_retry:
  assumes "relpost R op (\<lambda>r. \<forall>t. r = Inr t \<longrightarrow> P t)"
  shows "relpost R (runFSContext ctx stage op) (\<lambda>r. \<forall>t. r = Inr t \<longrightarrow> P t)"
  unfolding relpost_def
proof (intro allI impI)
  fix h r h'
  assume run: "run_state (runFSContext ctx stage op) h = (r, h')"
  note op = relpost_rel [OF assms]
  have "P t" if "r = Inr t" for t
    using retry_Inr(3) [OF op run [unfolded that]] relpostD [OF assms] by blast
  with state_io_relD [OF body_retry(3) [OF op] run] show "R h h' \<and> (\<forall>t. r = Inr t \<longrightarrow> P t)" by blast
qed

lemma rel_cleanup: "W p \<Longrightarrow> imageTarget U p \<Longrightarrow> T p t \<Longrightarrow> state_io_rel R (cleanupTemp c p t)"
  unfolding cleanupTemp_def dirs by (intro body_ignore remove)

lemma rp_streamOnce:
  assumes "W p" and "imageTarget U p"
  shows "relpost R (streamOnce c U ctx p resp) (\<lambda>r. \<forall>dl. r = Inr dl \<longrightarrow> T p (dl_tmpRel dl))"
  unfolding streamOnce_def dirs
proof (rule rp_bindE [OF rp_retry [OF temp [OF assms]]])
  fix t
  assume "\<forall>t'. (Inr t :: (goerr, bytes) result) = Inr t' \<longrightarrow> T p t'"
  then have t: "T p t" by simp
  show "relpost R (WithRoot ds p (streamInto U resp t) \<bind> (\<lambda>r.
     case r of
       Inl e \<Rightarrow> cleanupTemp c p t \<bind> (\<lambda>_. err e)
     | Inr (n, det, hashed) \<Rightarrow>
         ok \<lparr>dl_tmpRel = t, dl_size = int n, dl_sha = up_sha U hashed, dl_det = det\<rparr>))
    (\<lambda>r. \<forall>dl. r = Inr dl \<longrightarrow> T p (dl_tmpRel dl))"
    by (rule rp_bind [OF rp_rel [OF stream [OF assms t]]])
      (auto intro!: rp_bind [OF rp_rel [OF rel_cleanup [OF assms t]]] intro: rp_err rp_ok simp: t split: sum.split)
qed simp

lemma rp_downloadLoop:
  assumes "W p" and "imageTarget U p"
  shows "relpost R (downloadLoop c U url p n) (\<lambda>r. \<forall>dl. r = Inr dl \<longrightarrow> T p (dl_tmpRel dl))"
proof (induction n)
  case 0
  show ?case by (auto intro: rp_err)
next
  case (Suc n)
  have over: "state_io_rel R (ctxOver k)" for k unfolding ctxOver_def by (rule rel_gets)
  have "relpost R (streamOnce c U 2 p resp \<bind> (\<lambda>r.
         case r of
           Inr dl \<Rightarrow> ok dl
         | Inl e \<Rightarrow>
             ctxOver 2 \<bind> (\<lambda>over.
             if isStorageStreamErr e \<and> \<not> over then downloadLoop c U url p n
             else err (mapStreamErr over e (MaxImageBytes (c_limits c))))))
      (\<lambda>r. \<forall>dl. r = Inr dl \<longrightarrow> T p (dl_tmpRel dl))" for resp
    by (rule rp_bind [OF rp_streamOnce [OF assms]])
      (auto intro!: rp_bind [OF rp_rel [OF over]] intro: rp_err rp_ok Suc split: sum.split)
  then show ?case
    unfolding downloadLoop.simps
    by (intro rp_bind [OF rp_rel [OF get]]) (auto intro!: rp_bind [OF rp_rel [OF over]] intro: rp_err split: sum.split)
qed

lemma rel_publishLocked:
  assumes "W p" and "imageTarget U p" and "T p (dl_tmpRel dl)"
  shows "state_io_rel R (publishLocked c U idx p dl)"
  unfolding publishLocked_def publishItem_def dirs
  by (intro rel_intros body_retry publish rel_cleanup forget assms)

end

text \<open>With the locks and the validation.\<close>

locale upload_rel = upload_ops R ds c U W T + lock_rel R for R ds c U W T +
  assumes timeout: "state_io_rel R (withTimeout k)"
    and validate: "relpost R (c_validate c raw) (\<lambda>r. \<forall>p. r = Inr p \<longrightarrow> W p)"
begin

lemma rel_ctxOver: "state_io_rel R (ctxOver k)"
  unfolding ctxOver_def by (rule rel_gets)

lemma rel_uploadItem:
  assumes "W p"
  shows "state_io_rel R (uploadItem c U idx item p)"
proof (cases "imageTarget U p")
  case False
  then show ?thesis by (simp add: uploadItem_def imageTarget_def Let_def rel_ret)
next
  case True
  have "state_io_rel R (downloadLoop c U (ui_URL item) p (up_attempts U) \<bind> (\<lambda>d.
      case d of
        Inl e \<Rightarrow> ret (itemFailed idx p e)
      | Inr dl \<Rightarrow>
          if \<not> extMatchesDetected ext (dl_det dl) then
            cleanupTemp c p (dl_tmpRel dl) \<bind> (\<lambda>_.
            ret ((itemFailed idx p
                (EImageType (''detected '' @ MIME (dl_det dl) @ '' does not match extension '' @ ext)))
              \<lparr>ur_DetectedContentType := MIME (dl_det dl), ur_SuggestedExtension := Ext (dl_det dl)\<rparr>))
          else
            LockContext 2 PLocks p \<bind> (\<lambda>l.
            case l of
              Inl _ \<Rightarrow> cleanupTemp c p (dl_tmpRel dl) \<bind> (\<lambda>_. ret (itemFailed idx p (ETimeout ''publish lock'')))
            | Inr _ \<Rightarrow>
                LockFile (c_token c) p \<bind> (\<lambda>_.
                publishLocked c U idx p dl \<bind> (\<lambda>res.
                release (SessLocks (c_token c)) p \<bind> (\<lambda>_.
                release PLocks p \<bind> (\<lambda>_. ret res)))))))" for ext
  proof (rule relpost_rel, rule rp_bind [OF rp_downloadLoop [OF assms True]])
    fix d :: "(goerr, downloaded) result"
    assume d: "\<forall>dl. d = Inr dl \<longrightarrow> T p (dl_tmpRel dl)"
    show "relpost R (case d of
        Inl e \<Rightarrow> ret (itemFailed idx p e)
      | Inr dl \<Rightarrow>
          if \<not> extMatchesDetected ext (dl_det dl) then
            cleanupTemp c p (dl_tmpRel dl) \<bind> (\<lambda>_.
            ret ((itemFailed idx p
                (EImageType (''detected '' @ MIME (dl_det dl) @ '' does not match extension '' @ ext)))
              \<lparr>ur_DetectedContentType := MIME (dl_det dl), ur_SuggestedExtension := Ext (dl_det dl)\<rparr>))
          else
            LockContext 2 PLocks p \<bind> (\<lambda>l.
            case l of
              Inl _ \<Rightarrow> cleanupTemp c p (dl_tmpRel dl) \<bind> (\<lambda>_. ret (itemFailed idx p (ETimeout ''publish lock'')))
            | Inr _ \<Rightarrow>
                LockFile (c_token c) p \<bind> (\<lambda>_.
                publishLocked c U idx p dl \<bind> (\<lambda>res.
                release (SessLocks (c_token c)) p \<bind> (\<lambda>_.
                release PLocks p \<bind> (\<lambda>_. ret res)))))) (\<lambda>_. True)"
    proof (cases d)
      case (Inr dl)
      with d have t: "T p (dl_tmpRel dl)" by simp
      show ?thesis
        unfolding Inr sum.case
        by (intro rp_rel rel_intros rel_cleanup rel_LockContext rel_LockFile rel_publishLocked lock_release assms True t)
    qed (simp add: rp_ret)
  qed
  then show ?thesis
    unfolding uploadItem_def Let_def
    by (rule rel_if [OF rel_ret rel_bind [OF lock_tick rel_bind [OF rel_ctxOver rel_if [OF rel_ret rel_bind [OF timeout]]]]])
qed

lemma rp_validateItems: "relpost R (validateItems c i files) (list_all (\<lambda>(res, p). p = [] \<or> W p))"
proof (induction files arbitrary: i)
  case Nil
  show ?case by (simp add: rp_ret)
next
  case (Cons it files)
  show ?case
    unfolding validateItems.simps
    by (rule rp_bind [OF validate], rule rp_bind [OF Cons.IH]) (auto intro!: rp_ret split: sum.split)
qed

lemma markDuplicates_valid:
  assumes "list_all (\<lambda>(res, p). p = [] \<or> W p) rs"
  shows "list_all (\<lambda>(res, p). p = [] \<or> W p) (markDuplicates files rs)"
proof -
  have "p = [] \<or> W p" if "(i, it, res, p) \<in> set (zip [0..<length rs] (zip files rs))" for i it res p
    using that assms by (auto simp: list_all_iff dest!: set_zip_rightD)
  then show ?thesis by (fastforce simp: markDuplicates_def list_all_iff split: if_splits)
qed

lemma rel_runItems: "list_all (\<lambda>(res, p). p = [] \<or> W p) rs \<Longrightarrow> state_io_rel R (runItems c U i files rs)"
proof (induction files arbitrary: i rs)
  case (Cons it files)
  show ?case
  proof (cases rs)
    case (Cons r rs')
    obtain res p where r: "r = (res, p)" by (cases r)
    have rest: "state_io_rel R (runItems c U (i + 1) files rs')" using Cons Cons.prems by (intro Cons.IH) simp
    show ?thesis
    proof (cases "p \<noteq> [] \<and> ur_Status res = []")
      case True
      with Cons r Cons.prems have "W p" by simp
      with True show ?thesis
        unfolding Cons r runItems.simps if_P [OF True]
        by (intro rel_intros rel_ctxOver rel_uploadItem rest)
    next
      case False
      show ?thesis unfolding Cons r runItems.simps if_not_P [OF False] by (intro rel_intros rest)
    qed
  qed (simp add: rel_ret)
qed (simp add: rel_ret)

lemma rel_Upload: "state_io_rel R (Upload c U files)"
proof -
  have "state_io_rel R (validateItems c 0 files \<bind> (\<lambda>rs.
      runItems c U 0 files (markDuplicates files rs) \<bind> (\<lambda>results.
      let s = summarise results in ok (us_Failed s > 0, \<lparr>uo_Results = results, uo_Summary = s\<rparr>))))"
    unfolding Let_def
    by (rule relpost_rel [where Q = "\<lambda>_. True"], rule rp_bind [OF rp_validateItems])
      (intro rp_rel rel_intros rel_runItems markDuplicates_valid; assumption)
  then show ?thesis
    unfolding Upload_def
    by (intro rel_case_option rel_err rel_bind [OF lock_tick] rel_if rel_bind [OF timeout])
qed

end

section \<open>The download\<close>

context step_rel
begin

lemma rel_netCall: "state_io_rel R nextTick \<Longrightarrow> (\<And>h n. R h (h\<lparr>h_net := n\<rparr>)) \<Longrightarrow> state_io_rel R (netCall ev f)"
  unfolding netCall_def by (intro rel_intros rel_modify) auto

lemma rel_Get:
  assumes tick: "state_io_rel R nextTick" and net: "\<And>h n. R h (h\<lparr>h_net := n\<rparr>)"
  shows "state_io_rel R (Get F url)"
proof -
  have "state_io_rel R (getLoop F left u)" for left u
  proof (induction left arbitrary: u)
    case 0
    show ?case unfolding getLoop.simps [of F 0] Let_def nat.case by (intro rel_intros rel_netCall assms)
  next
    case (Suc left)
    then show ?case unfolding getLoop.simps [of F "Suc left"] Let_def nat.case by (intro rel_intros rel_netCall assms)
  qed
  then show ?thesis unfolding Get_def by (intro rel_intros)
qed

end

lemma aux_Get: "state_io_rel (auxStep ds) (Get F url)"
  by (intro aux.rel_Get aux_nextTick) (auto simp: auxStep_def rootsOk_def)

lemma lk_Get: "state_io_rel lockSame (Get F url)"
  by (intro lk.rel_Get lk_nextTick) (auto simp: lockSame_def)

sublocale mutate_rel < streamed: sink_rel R streamSink writableState
  by unfold_locales (rule rp_streamSink)

lemma up_simps [simp]:
  "up_Get (fetchUploader F L sha n) ctx url = Get F url"
  "up_ConsumeBody (fetchUploader F L sha n) resp = ConsumeBody L (f_limits F) resp"
  by (simp_all add: fetchUploader_def)

section \<open>Confinement and other sessions\<close>

lemma rp_any: "state_io_rel R m \<Longrightarrow> relpost R m (\<lambda>r. \<forall>t. r = Inr t \<longrightarrow> True)"
  by (auto simp: relpost_def dest: state_io_relD)

interpretation upconf: upload_rel "confinedTo (c_dirs c) {}" "c_dirs c" c "fetchUploader F L sha n" "\<lambda>_. True" "\<lambda>_ _. True"
  for c F L sha n
proof unfold_locales
  let ?R = "confinedTo (c_dirs c) {}" and ?U = "fetchUploader F L sha n"
  show "state_io_rel ?R (up_Get ?U ctx url)" for ctx url
    using scope.lift [OF aux_Get] by simp
  show "relpost ?R (WithRoot (c_dirs c) p tempOnce) (\<lambda>r. \<forall>t. r = Inr t \<longrightarrow> True)" for p
    by (intro rp_any confined_WithRoot relpost_rel [OF conf.rp_tempOnce]) (auto dest: mayBe_below)
  show "state_io_rel ?R (WithRoot (c_dirs c) p (streamInto ?U resp t))" for p resp t
    by (intro confined_WithRoot conf.rel_streamInto) (auto dest: mayBe_below relpost_rel [OF conf.streamed.rp_ConsumeBody])
  show "state_io_rel ?R (WithRoot (c_dirs c) p (\<lambda>base rel. ignore (rRemove base t) \<bind> (\<lambda>_. ok ())))" for p t
    by (intro confined_WithRoot conf.rel_intros conf.rel_ignore conf.rel_rRemove) (auto dest: mayBe_below)
  show "state_io_rel ?R (WithRoot (c_dirs c) p (publishOnce c ?U p dl))" for p dl
    by (intro confined_WithRoot conf.rel_publishOnce) (auto dest: mayBe_below)
  show "state_io_rel ?R (sessForget c p)" for p
    unfolding sessForget_def state_io_rel_def by (auto simp: confinedTo_def rootsOk_def)
  show "state_io_rel ?R (withTimeout k)" for k by (rule scope.rel_state)
  show "relpost ?R (c_validate c raw) (\<lambda>r. \<forall>p. r = Inr p \<longrightarrow> True)" for raw
    by (intro rp_any scope.rel_Validate)
qed simp

interpretation upothers: upload_rel "othersSame (c_token c)" "c_dirs c" c "fetchUploader F L sha n" "\<lambda>_. True" "\<lambda>_ _. True"
  for c F L sha n
proof unfold_locales
  let ?R = "othersSame (c_token c)" and ?U = "fetchUploader F L sha n"
  show "state_io_rel ?R (up_Get ?U ctx url)" for ctx url
    using others.lift [OF aux_Get] by simp
  show "relpost ?R (WithRoot (c_dirs c) p tempOnce) (\<lambda>r. \<forall>t. r = Inr t \<longrightarrow> True)" for p
    by (intro rp_any others.rel_WithRoot relpost_rel [OF others.rp_tempOnce]) simp
  show "state_io_rel ?R (WithRoot (c_dirs c) p (streamInto ?U resp t))" for p resp t
    by (intro others.rel_WithRoot others.rel_streamInto) (auto intro: relpost_rel [OF others.streamed.rp_ConsumeBody])
  show "state_io_rel ?R (WithRoot (c_dirs c) p (\<lambda>base rel. ignore (rRemove base t) \<bind> (\<lambda>_. ok ())))" for p t
    by (intro others.rel_WithRoot others.rel_intros others.rel_ignore others.rel_rRemove) simp
  show "state_io_rel ?R (WithRoot (c_dirs c) p (publishOnce c ?U p dl))" for p dl
    by (intro others.rel_WithRoot others.rel_publishOnce) simp_all
  show "state_io_rel ?R (sessForget c p)" for p
    unfolding sessForget_def state_io_rel_def by (auto simp: othersSame_def)
  show "state_io_rel ?R (withTimeout k)" for k by (rule others.rel_state)
  show "relpost ?R (c_validate c raw) (\<lambda>r. \<forall>p. r = Inr p \<longrightarrow> True)" for raw
    by (intro rp_any others.rel_Validate)
qed simp

section \<open>Effects\<close>

text \<open>A name with an accepted image extension.\<close>

definition imageName :: "uploader \<Rightarrow> bytes list \<Rightarrow> bool" where
  "imageName U q \<longleftrightarrow> q \<noteq> [] \<and> imageTarget U (last q)"

text \<open>What an upload may do: make and remove temporary and image names, and link the first to the second.
  Writing and setting the mode go through the temporary name, which follows a link that another process put
  there.\<close>

fun uploadFx :: "uploader \<Rightarrow> effect \<Rightarrow> bool" where
  "uploadFx U (FxCreate p) = (tempName p \<or> imageName U p)"
| "uploadFx U (FxRemove p) = (tempName p \<or> imageName U p)"
| "uploadFx U (FxLink p q d) = (tempName p \<and> imageName U q)"
| "uploadFx U (FxWrite p d) = True"
| "uploadFx U (FxChmod p) = True"
| "uploadFx U (FxRename p q d) = False"
| "uploadFx U (FxMkdir p) = False"

text \<open>No allowed directory is itself named like an image.\<close>

definition plainDirs :: "uploader \<Rightarrow> Conn \<Rightarrow> bool" where
  "plainDirs U c \<longleftrightarrow> list_all canonPath (c_dirs c) \<and> list_all (\<lambda>d. \<not> imageTarget U d) (c_dirs c)"

lemma pathExt_append: "slash \<notin> set s \<Longrightarrow> pathExt (p @ slash # s) = pathExt s"
proof -
  assume s: "slash \<notin> set s"
  let ?P = "\<lambda>c. c \<noteq> slash \<and> c \<noteq> CHR ''.''"
  show ?thesis
  proof (cases "CHR ''.'' \<in> set s")
    case True
    then obtain a b where ab: "s = a @ CHR ''.'' # b" "CHR ''.'' \<notin> set b" by (meson split_list_last)
    have "takeWhile ?P (rev b @ CHR ''.'' # xs) = rev b" for xs
      using s ab by (subst takeWhile_append2) auto
    with ab show ?thesis by (simp add: pathExt_def Let_def)
  next
    case False
    have "takeWhile ?P (rev s @ slash # xs) = rev s" for xs
      using s False by (subst takeWhile_append2) auto
    moreover have "takeWhile ?P (rev s) = rev s" using s False by (auto simp: takeWhile_eq_all_conv)
    then have "length (takeWhile ?P (rev s)) = length s" using arg_cong [of "takeWhile ?P (rev s)" "rev s" length] by (simp only: length_rev)
    moreover have "slash \<noteq> CHR ''.''" by (simp add: slash_def)
    ultimately show ?thesis by (simp add: pathExt_def Let_def)
  qed
qed

lemma pathExt_Base: "canonPath p \<Longrightarrow> p \<noteq> [slash] \<Longrightarrow> pathExt (Base p) = pathExt p"
proof -
  assume "canonPath p" "p \<noteq> [slash]"
  then obtain cs where cs: "list_all okComp cs" "p = absPath cs" by (auto elim: canonPathE)
  show ?thesis
  proof (cases cs rule: rev_cases)
    case Nil
    with cs \<open>p \<noteq> [slash]\<close> show ?thesis by (simp add: absPath_def)
  next
    case (snoc ys s)
    with cs(1) have "slash \<notin> set s" by (simp add: okComp_def)
    moreover obtain q where "p = q @ slash # s" using cs(2) snoc by (auto simp: absPath_snoc split: if_splits)
    ultimately show ?thesis using Base_absPath [of ys s] cs snoc by (simp add: pathExt_append)
  qed
qed

lemma imageName_target:
  assumes "plainDirs U c" and "canonPath p" and "imageTarget U p"
    and "mayBe base False (relName (owner (c_dirs c) p) p) q" and "owner (c_dirs c) p \<noteq> []"
  shows "imageName U q"
proof -
  have "p \<notin> set (c_dirs c)" using assms(1,3) by (auto simp: plainDirs_def list_all_iff)
  with assms(1,2) have "writable c p" by (simp add: writable_def plainDirs_def)
  from mayBe_target [OF this assms(4,5)] have "q \<noteq> []" "last q = Base p" by auto
  moreover have "p \<noteq> [slash]"
    using assms(3) by (auto simp: imageTarget_def pathExt_def slash_def acceptedExts_def Let_def toLower_def)
  ultimately show ?thesis using assms(2,3) by (simp add: imageName_def imageTarget_def pathExt_Base)
qed

text \<open>The temporary names that \<open>createTempIn\<close> makes.\<close>

definition madeTemp :: "bytes \<Rightarrow> bytes \<Rightarrow> bool" where
  "madeTemp p t \<longleftrightarrow> (\<exists>d s. t = tempDirPrefix d @ hexEncode s)"

definition mayUpload :: "uploader \<Rightarrow> Conn \<Rightarrow> effect \<Rightarrow> bool" where
  "mayUpload U c e \<longleftrightarrow> (plainDirs U c \<longrightarrow> uploadFx U e)"

lemma fx_forget: "state_io_rel (fxAll P) (sessForget c p)"
  by (simp add: sessForget_def state_io_rel_def fxAll_def)

lemma mayUpload_target:
  assumes "plainDirs U c \<Longrightarrow> canonPath p" and "imageTarget U p" and "owner (c_dirs c) p \<noteq> []"
    and "mayBe base False (relName (owner (c_dirs c) p) p) q"
  shows "mayUpload U c (FxCreate q)" "mayUpload U c (FxRemove q)"
    "mayBe base' False t r \<Longrightarrow> madeTemp p' t \<Longrightarrow> mayUpload U c (FxLink r q d)"
  using imageName_target [of U c p base q] assms by (auto simp: mayUpload_def madeTemp_def dest: tempName_mayBe)

lemma mayUpload_temp:
  assumes "madeTemp p t" and "mayBe base False t q"
  shows "mayUpload U c (FxCreate q)" "mayUpload U c (FxRemove q)"
  using assms by (auto simp: mayUpload_def madeTemp_def dest: tempName_mayBe)

interpretation upfx: upload_rel "fxAll (mayUpload (fetchUploader F L sha n) c)" "c_dirs c" c "fetchUploader F L sha n"
    "\<lambda>p. plainDirs (fetchUploader F L sha n) c \<longrightarrow> canonPath p" madeTemp
  for c F L sha n
proof unfold_locales
  let ?U = "fetchUploader F L sha n"
  let ?R = "fxAll (mayUpload ?U c)"
  show "state_io_rel ?R (up_Get ?U ctx url)" for ctx url
    using fxs.lift [OF aux_Get] by simp
  show "relpost ?R (WithRoot (c_dirs c) p tempOnce) (\<lambda>r. \<forall>t. r = Inr t \<longrightarrow> madeTemp p t)" for p
  proof -
    have op: "relpost ?R (tempOnce base rel) (\<lambda>r. \<forall>t. r = Inr t \<longrightarrow> (\<exists>s. t = tempDirPrefix (Dir rel) @ hexEncode s))" for base rel
      by (rule fxs.rp_tempOnce) (auto simp: mayUpload_def dest: tempName_mayBe)
    show ?thesis
      unfolding relpost_def
    proof (intro allI impI conjI)
      fix h r h' t
      assume run: "run_state (WithRoot (c_dirs c) p tempOnce) h = (r, h')"
      show "?R h h'" using state_io_relD [OF fxs.rel_WithRoot [OF relpost_rel [OF op]] run] .
      assume "r = Inr t"
      with fxs.WithRoot_Inr [of "c_dirs c" p tempOnce h t h'] run relpostD [OF op] show "madeTemp p t"
        unfolding madeTemp_def by blast
    qed
  qed
  show "state_io_rel ?R (WithRoot (c_dirs c) p (streamInto ?U resp t))" for p resp t
    by (intro fxs.rel_WithRoot fxs.rel_streamInto)
      (auto simp: mayUpload_def intro: relpost_rel [OF fxs.streamed.rp_ConsumeBody])
  show "state_io_rel ?R (WithRoot (c_dirs c) p (\<lambda>base rel. ignore (rRemove base t) \<bind> (\<lambda>_. ok ())))"
    if "madeTemp p t" for p t
    by (intro fxs.rel_WithRoot fxs.rel_intros fxs.rel_ignore fxs.rel_rRemove mayUpload_temp [OF that])
  show "state_io_rel ?R (WithRoot (c_dirs c) p (publishOnce c ?U p dl))"
    if "plainDirs ?U c \<longrightarrow> canonPath p" "imageTarget ?U p" "madeTemp p (dl_tmpRel dl)" for p dl
  proof (rule WithRoot_rel_owner, rule fxs.rel_WithRoot, rule fxs.rel_publishOnce)
    fix base q
    assume o: "owner (c_dirs c) p \<noteq> []" and q: "mayBe base False (relName (owner (c_dirs c) p) p) q"
    from that(1) have "plainDirs ?U c \<Longrightarrow> canonPath p" by simp
    note m = mayUpload_target [OF this that(2) o q]
    show "mayUpload ?U c (FxCreate q) \<and> mayUpload ?U c (FxRemove q) \<and> (\<forall>d. mayUpload ?U c (FxWrite q d))"
      using m(1,2) by (simp add: mayUpload_def)
    show "mayUpload ?U c (FxLink r q d)" if "mayBe base False (dl_tmpRel dl) r" for r d
      using m(3) that \<open>madeTemp p (dl_tmpRel dl)\<close> by blast
  qed (use that mayUpload_temp in \<open>auto simp: mayUpload_def\<close>)
  show "state_io_rel ?R (sessForget c p)" for p by (rule fx_forget)
  show "state_io_rel ?R (withTimeout k)" for k by (rule fxs.rel_state)
  show "relpost ?R (c_validate c raw) (\<lambda>r. \<forall>p. r = Inr p \<longrightarrow> plainDirs ?U c \<longrightarrow> canonPath p)" for raw
    unfolding relpost_def
  proof (intro allI impI conjI)
    fix h r h' p
    assume run: "run_state (c_validate c raw) h = (r, h')"
    show "?R h h'" using state_io_relD [OF fxs.rel_Validate run] .
    assume "r = Inr p" "plainDirs ?U c"
    with run Validate_inScope [of "c_guard c" "c_env c" raw h p h'] show "canonPath p"
      by (simp add: c_validate_def c_dirs_def AllowedDirs_def inScope_def plainDirs_def)
  qed
qed simp

section \<open>Locks\<close>

lemma lk_openWrite: "state_io_rel lockSame (rOpenWrite base t)"
  unfolding rOpenWrite_def by (rule lk_syscall)

interpretation lkstream: sink_rel lockSame streamSink "\<lambda>_. True"
proof unfold_locales
  show "relpost lockSame (streamSink s d) (\<lambda>(e, s'). True)" for s d
    unfolding streamSink_def
    by (simp add: case_prod_unfold) (intro lk.rp_rel lk.rel_intros lk_calls)
qed

lemma lk_upload:
  "state_io_rel lockSame (tempOnce base rel)" "state_io_rel lockSame (streamInto (fetchUploader F L sha n) resp t base rel)"
  "state_io_rel lockSame (publishOnce c U p dl base rel)"
  unfolding tempOnce_def createTempIn_def streamInto_def publishOnce_def publishNoReplace_def degradedPublish_def
    copyInto_def compareTarget_def compareExisting_def deferClose_def Let_def
  by (intro lk.rel_intros lk_calls lk_ignore lk_tempLoop lk_openWrite;
      simp add: relpost_rel [OF lkstream.rp_ConsumeBody])+

interpretation uplf: upload_ops leaseFree "c_dirs c" c "fetchUploader F L sha n" "\<lambda>_. True" "\<lambda>_ _. True" for c F L sha n
proof unfold_locales
  let ?U = "fetchUploader F L sha n"
  show "state_io_rel leaseFree (up_Get ?U ctx url)" for ctx url using lk_leaseFree [OF lk_Get] by simp
  show "relpost leaseFree (WithRoot (c_dirs c) p tempOnce) (\<lambda>r. \<forall>t. r = Inr t \<longrightarrow> True)" for p
    by (intro rp_any lk_leaseFree lk_WithRoot lk_upload)
  show "state_io_rel leaseFree (WithRoot (c_dirs c) p (streamInto ?U resp t))" for p resp t
    by (intro lk_leaseFree lk_WithRoot lk_upload)
  show "state_io_rel leaseFree (WithRoot (c_dirs c) p (\<lambda>base rel. ignore (rRemove base t) \<bind> (\<lambda>_. ok ())))" for p t
    by (intro lk_leaseFree lk_WithRoot lk.rel_intros lk_ignore lk_calls)
  show "state_io_rel leaseFree (WithRoot (c_dirs c) p (publishOnce c ?U p dl))" for p dl
    by (intro lk_leaseFree lk_WithRoot lk_upload)
  show "state_io_rel leaseFree (sessForget c p)" for p by (intro lk_leaseFree lk_state)
qed simp

lemma lf_handsFree: "state_io_rel leaseFree m \<Longrightarrow> state_io_rel handsFree m"
  by (auto simp: state_io_rel_def leaseFree_def handsFree_def)

text \<open>The lock section of an item: refused, or locked around its body.\<close>

lemma handsFree_locked:
  assumes "state_io_rel leaseFree refused" and "state_io_rel leaseFree body"
  shows "state_io_rel handsFree (LockContext ctx PLocks p \<bind> (\<lambda>l.
    case l of
      Inl _ \<Rightarrow> refused
    | Inr _ \<Rightarrow>
        LockFile token p \<bind> (\<lambda>_.
        body \<bind> (\<lambda>res.
        release (SessLocks token) p \<bind> (\<lambda>_.
        release PLocks p \<bind> (\<lambda>_. ret res))))))"
proof (rule state_io_relI)
  fix a h h'
  assume run: "run_state (LockContext ctx PLocks p \<bind> (\<lambda>l.
    case l of
      Inl _ \<Rightarrow> refused
    | Inr _ \<Rightarrow>
        LockFile token p \<bind> (\<lambda>_.
        body \<bind> (\<lambda>res.
        release (SessLocks token) p \<bind> (\<lambda>_.
        release PLocks p \<bind> (\<lambda>_. ret res)))))) h = (a, h')"
  obtain t h1 where t: "run_state nextTick h = (t, h1)" by fastforce
  from state_io_relD [OF lk_nextTick this] have l1: "lockSame h h1" .
  show "handsFree h h'"
  proof (cases "ctxErrAt (Some ctx) h1 = None \<or> t_fault t = NoFault")
    case False
    with run t have "run_state refused h1 = (a, h')" by (auto simp: LockContext_def)
    from state_io_relD [OF assms(1) this] l1 show ?thesis by (auto simp: handsFree_def lockSame_def leaseFree_def)
  next
    case True
    let ?h2 = "h1\<lparr>h_stuck := h_stuck h1 \<or> (PLocks, p) \<in> set (h_held h1), h_held := (PLocks, p) # h_held h1\<rparr>"
    obtain t3 h3 where t3: "run_state nextTick ?h2 = (t3, h3)" by fastforce
    from state_io_relD [OF lk_nextTick this] have l3: "lockSame ?h2 h3" .
    let ?sl = "(SessLocks token, p)"
    let ?h4 = "h3\<lparr>h_stuck := h_stuck h3 \<or> ?sl \<in> set (h_held h3), h_held := ?sl # h_held h3\<rparr>"
    obtain r h5 where b: "run_state body ?h4 = (r, h5)" by fastforce
    from state_io_relD [OF assms(2) this] have l5: "leaseFree ?h4 h5" .
    have "h' = h5\<lparr>h_held := remove1 (PLocks, p) (remove1 ?sl (h_held h5))\<rparr>"
      using run t t3 b True
      by (auto simp: LockContext_def LockFile_def run_acquire release_def split: option.splits)
    with l1 l3 l5 show ?thesis by (auto simp: handsFree_def lockSame_def leaseFree_def)
  qed
qed

lemma handsFree_uploadItem: "state_io_rel handsFree (uploadItem c (fetchUploader F L sha n) idx item p)"
proof (cases "imageTarget (fetchUploader F L sha n) p")
  case False
  then show ?thesis by (simp add: uploadItem_def imageTarget_def Let_def hf.rel_ret)
next
  case True
  have over: "state_io_rel handsFree (ctxOver k)" for k unfolding ctxOver_def by (rule hf.rel_gets)
  note cleanup = uplf.rel_cleanup [OF TrueI True TrueI]
  show ?thesis
    unfolding uploadItem_def Let_def
    by (intro hf.rel_if hf.rel_ret hf.rel_bind [OF lk_handsFree [OF lk_nextTick]] hf.rel_bind [OF over]
        hf.rel_bind [OF lk_handsFree [OF lk_state(5)]] hf.rel_bind [OF lf_handsFree [OF relpost_rel [OF uplf.rp_downloadLoop]]]
        hf.rel_case_sum hf.rel_bind [OF lf_handsFree [OF cleanup]] handsFree_locked lf.rel_bind lf.rel_ret
        cleanup uplf.rel_publishLocked True TrueI)
qed

lemma handsFree_Upload: "state_io_rel handsFree (Upload c (fetchUploader F L sha n) files)"
proof -
  have over: "state_io_rel handsFree (ctxOver k)" for k unfolding ctxOver_def by (rule hf.rel_gets)
  have items: "state_io_rel handsFree (runItems c (fetchUploader F L sha n) i files rs)" for i rs
  proof (induction files arbitrary: i rs)
    case (Cons it files)
    show ?case
    proof (cases rs)
      case (Cons r rs')
      obtain res p where r: "r = (res, p)" by (cases r)
      show ?thesis
        unfolding Cons r runItems.simps by (intro hf.rel_intros over handsFree_uploadItem Cons.IH)
    qed (simp add: hf.rel_ret)
  qed (simp add: hf.rel_ret)
  have valid: "state_io_rel handsFree (validateItems c i files)" for i files
    by (induction files arbitrary: i) (auto intro!: hf.rel_intros lk_handsFree [OF lk_Validate])
  show ?thesis
    unfolding Upload_def Let_def
    by (intro hf.rel_intros lk_handsFree [OF lk_nextTick] lk_handsFree [OF lk_state(5)] valid items)
qed



end
