(* ===== verification/ToolServer.thy ===== *)
theory ToolServer
  imports UploadRel GrepTool
begin

text \<open>
  The server with all its eight tools (\<open>server.go\<close>): the process-wide state that \<open>NewShared\<close> sets up, the
  table of \<open>Register\<close>, the dispatch of a request to its handler and histories of requests by several
  connections. The theorems hold for every schedule, that is for every interleaving with other writers,
  every context expiry, every sequence of backend faults and every answer of the network.
\<close>

section \<open>The server\<close>

text \<open>What a server is built on besides its guard: the download client, the digest and the search tools.\<close>

record toolkit =
  tk_fetcher :: Fetcher
  tk_img :: imgLib
  tk_sha :: "bytes \<Rightarrow> bytes"
  tk_attempts :: nat
  tk_doublestar :: doublestar
  tk_grep :: grepLib

definition downloadUserAgent :: bytes where
  "downloadUserAgent = ''Mozilla/5.0 (X11; Linux x86_64) AppleWebKit/537.36 (KHTML, like Gecko) Chrome/141.0.0.0 Safari/537.36''"

text \<open>\<open>Shared\<close>: its retrier, roots and locks start empty in the \<open>host\<close>.\<close>

record Shared =
  sh_env :: hostEnv
  sh_guard :: Guard
  sh_limits :: UploadLimits

definition NewShared :: "hostEnv \<Rightarrow> bytes list \<Rightarrow> Shared ioe" where
  "NewShared env allowedDirs =
     bindE (Pathguard.New env allowedDirs) (\<lambda>guard.
     ok \<lparr>sh_env = env, sh_guard = guard, sh_limits = DefaultUploadLimits\<rparr>)"

definition NewConn :: "Shared \<Rightarrow> bytes \<Rightarrow> Conn" where
  "NewConn s token = \<lparr>c_env = sh_env s, c_guard = sh_guard s, c_token = token, c_limits = sh_limits s\<rparr>"

definition tk_uploader :: "toolkit \<Rightarrow> uploader" where
  "tk_uploader K = fetchUploader (tk_fetcher K) (tk_img K) (tk_sha K) (tk_attempts K)"

datatype toolRequest =
    FileRequest toolCall
  | GlobRequest GlobInput
  | GrepRequest GrepInput
  | UploadRequest "UploadItem list"

datatype toolResponse =
    FileResponse toolOutput
  | GlobResponse GlobOutput
  | GrepResponse GrepOutput
  | UploadResponse bool UploadOutput

text \<open>The table of tools; the hints are given for two of them only.\<close>

record ToolAnnotations =
  ta_Title :: bytes
  ta_ReadOnlyHint :: bool
  ta_DestructiveHint :: bool
  ta_IdempotentHint :: bool
  ta_OpenWorldHint :: bool

definition Register :: "(bytes \<times> ToolAnnotations option) list" where
  "Register =
     [(''read'', None), (''write'', None), (''edit'', None), (''multi_edit'', None), (''glob'', None), (''grep'', None),
      (''mkdir'', Some \<lparr>ta_Title = ''Create directory'', ta_ReadOnlyHint = False, ta_DestructiveHint = False,
         ta_IdempotentHint = True, ta_OpenWorldHint = False\<rparr>),
      (''upload'', Some \<lparr>ta_Title = ''Upload images from URLs'', ta_ReadOnlyHint = False, ta_DestructiveHint = False,
         ta_IdempotentHint = True, ta_OpenWorldHint = True\<rparr>)]"

fun toolName :: "toolRequest \<Rightarrow> bytes" where
  "toolName (FileRequest (CallRead inp)) = ''read''"
| "toolName (FileRequest (CallWrite path content)) = ''write''"
| "toolName (FileRequest (CallEdit path e)) = ''edit''"
| "toolName (FileRequest (CallMultiEdit path es)) = ''multi_edit''"
| "toolName (FileRequest (CallMkdir path)) = ''mkdir''"
| "toolName (GlobRequest inp) = ''glob''"
| "toolName (GrepRequest inp) = ''grep''"
| "toolName (UploadRequest files) = ''upload''"

fun dispatch :: "toolkit \<Rightarrow> Conn \<Rightarrow> toolRequest \<Rightarrow> toolResponse ioe" where
  "dispatch K c (FileRequest call) = bindE (callTool c call) (\<lambda>out. ok (FileResponse out))"
| "dispatch K c (GlobRequest inp) = bindE (Glob c (tk_doublestar K) inp) (\<lambda>out. ok (GlobResponse out))"
| "dispatch K c (GrepRequest inp) = bindE (Grep c (tk_grep K) (tk_doublestar K) inp) (\<lambda>out. ok (GrepResponse out))"
| "dispatch K c (UploadRequest files) = bindE (Upload c (tk_uploader K) files) (\<lambda>(bad, out). ok (UploadResponse bad out))"

text \<open>Requests one after the other; what overlaps with a request is in its schedule.\<close>

fun history :: "toolkit \<Rightarrow> (Conn \<times> toolRequest) list \<Rightarrow> (goerr, toolResponse) result list io" where
  "history K [] = ret []"
| "history K ((c, req) # rest) =
     dispatch K c req \<bind> (\<lambda>r. history K rest \<bind> (\<lambda>rs. ret (r # rs)))"

section \<open>The searches only look\<close>

lemma looks_syscall:
  assumes "\<And>fs. snd (snd (op fs)) = []"
  shows "state_io_rel onlyLooks (syscall op)"
proof (rule looks.rel_syscall [OF looks_nextTick])
  show "state_io_rel onlyLooks (runOp op)"
    using assms by (auto simp: state_io_rel_def run_runOp onlyLooks_def)
qed

lemma looks_files:
  "state_io_rel onlyLooks (osOpen p)" "state_io_rel onlyLooks (readAllOf k f)" "state_io_rel onlyLooks (fClose f)"
proof -
  show "state_io_rel onlyLooks (osOpen p)"
    unfolding osOpen_def
    by (rule looks_syscall, rule atKernel_effects) (auto simp: opOpenKind_def opOpen_def okOp_def failOp_def split: option.split node.split)
  show "state_io_rel onlyLooks (fClose f)"
    unfolding fClose_def by (rule looks_syscall) (simp add: okOp_def)
  show "state_io_rel onlyLooks (readAllOf k f)"
    unfolding readAllOf_def fReadRest_def
    by (intro looks.rel_if looks.rel_failErrno looks_syscall) (simp add: opReadRest_def okOp_def)
qed

lemma looks_timeout: "state_io_rel onlyLooks (withTimeout k)"
  unfolding withTimeout_def by (rule looks.rel_modify) (simp add: onlyLooks_def split: option.split)

lemma looks_grepVisit: "state_io_rel onlyLooks (grepVisit D re glob root p d e s)"
  unfolding grepVisit_def grepFallbackFile_def scanFile_def ignore_def Let_def
  by (cases e; cases d) (auto intro!: looks.rel_intros looks_files split: option.split)

lemma looks_grepWalks: "state_io_rel onlyLooks (grepWalks D re glob roots s)"
proof (induction roots arbitrary: s)
  case (Cons root roots)
  then show ?case
    unfolding grepWalks.simps
    by (intro looks.rel_intros looks.rel_WalkDir looks_grepVisit looks_calls)
qed (simp add: looks.rel_ok)

lemma looks_Grep: "state_io_rel onlyLooks (Grep c G D inp)"
proof -
  have "state_io_rel onlyLooks (grepFallback c G D inp mode roots)" for mode roots
    unfolding grepFallback_def by (intro looks.rel_intros looks_timeout looks_grepWalks)
  moreover have "state_io_rel onlyLooks (grepRG c G inp mode roots)" for mode roots
    unfolding grepRG_def Let_def
    by (intro looks.rel_intros looks_timeout looks_nextTick) (auto intro!: looks.rel_intros split: rgExit.split)
  ultimately show ?thesis
    unfolding Grep_def Let_def by (intro looks.rel_intros looks_searchRoots)
qed

lemma onlyLooks_aux: "onlyLooks h h' \<Longrightarrow> auxStep ds h h'"
  by (simp add: onlyLooks_def auxStep_def rootsOk_def)

lemma onlyLooks_locks: "onlyLooks h h' \<Longrightarrow> lockSame h h'"
  by (simp add: onlyLooks_def lockSame_def)

section \<open>Relations of every request\<close>

context step_rel
begin

lemma rel_dispatch:
  assumes "\<And>call. state_io_rel R (callTool c call)" and "\<And>h h'. onlyLooks h h' \<Longrightarrow> R h h'"
    and "\<And>files. state_io_rel R (Upload c (tk_uploader K) files)"
  shows "state_io_rel R (dispatch K c req)"
proof -
  have "state_io_rel R (Glob c D inp)" for D inp
    using looks_Glob assms(2) by (auto simp: state_io_rel_def)
  moreover have "state_io_rel R (Grep c G D inp)" for G D inp
    using looks_Grep assms(2) by (auto simp: state_io_rel_def)
  ultimately show ?thesis by (cases req) (auto intro!: rel_intros assms)
qed

lemma rel_history:
  "(\<And>c req. (c, req) \<in> set reqs \<Longrightarrow> state_io_rel R (dispatch K c req)) \<Longrightarrow> state_io_rel R (history K reqs)"
proof (induction reqs)
  case (Cons x reqs)
  obtain c req where x: "x = (c, req)" by fastforce
  from Cons.prems have "state_io_rel R (dispatch K c req)" by (simp add: x)
  with Cons show ?case unfolding x history.simps by (intro rel_intros) auto
qed (simp add: rel_ret)

end

lemma confined_dispatch: "state_io_rel (confinedTo (c_dirs c) {}) (dispatch K c req)"
proof (rule scope.rel_dispatch)
  show "state_io_rel (confinedTo (c_dirs c) {}) (Upload c (tk_uploader K) files)" for files
    unfolding tk_uploader_def by (rule upconf.rel_Upload)
qed (auto intro: confined_callTool confinedTo_aux onlyLooks_aux)

lemma others_dispatch: "state_io_rel (othersSame (c_token c)) (dispatch K c req)"
proof (rule others.rel_dispatch)
  show "state_io_rel (othersSame (c_token c)) (Upload c (tk_uploader K) files)" for files
    unfolding tk_uploader_def by (rule upothers.rel_Upload)
qed (auto intro: others_callTool others.aux_step onlyLooks_aux)

lemma handsFree_dispatch: "state_io_rel handsFree (dispatch K c req)"
proof (rule hf.rel_dispatch)
  show "state_io_rel handsFree (Upload c (tk_uploader K) files)" for files
    unfolding tk_uploader_def by (rule handsFree_Upload)
qed (auto intro: handsFree_callTool simp: onlyLooks_def handsFree_def)

section \<open>Properties\<close>

text \<open>A history for concrete runs: the batch of \<open>demoBatch\<close>.\<close>

definition demoKit :: toolkit where
  "demoKit = \<lparr>tk_fetcher = demoFetcher, tk_img = demoImgLib, tk_sha = (\<lambda>d. d), tk_attempts = 2, tk_doublestar = demoStar,
     tk_grep = \<lparr>gl_rgBin = [], gl_rg = (\<lambda>h as. \<lparr>rg_stdout = [], rg_stderr = [], rg_exit = RgNotRun, rg_errText = []\<rparr>),
       gl_Compile = (\<lambda>p. Inr (\<lambda>l. contains l p))\<rparr>\<rparr>"

definition demoRequests :: "(Conn \<times> toolRequest) list" where
  "demoRequests = [(demoConn ''t'', UploadRequest demoBatch)]"

lemma demoHistory:
  "\<exists>rs h'. run_state (history demoKit demoRequests) demoHost = (rs, h') \<and> map isl rs = [False] \<and> length (h_fxlog h') = 6"
proof -
  have "tk_uploader demoKit = demoUploader" by (simp add: tk_uploader_def demoKit_def demoUploader_def)
  then show ?thesis
    using demoUpload_run by (auto simp: demoRequests_def run_bindE split: prod.splits sum.splits)
qed



text \<open>The markers of one session, through the requests of others.\<close>

lemma history_tokenSame:
  assumes "list_all (\<lambda>(c, req). c_token c \<noteq> t) reqs"
  shows "state_io_rel (tokenSame t) (history K reqs)"
proof (rule tok.rel_history)
  fix c req assume "(c, req) \<in> set reqs"
  with assms have "c_token c \<noteq> t" by (auto simp: list_all_iff)
  with others_dispatch [of c K req] show "state_io_rel (tokenSame t) (dispatch K c req)"
    by (auto simp: state_io_rel_def othersSame_def tokenSame_def)
qed

text \<open>C10. Sessions are isolated: after any history of requests by other tokens on a fresh server, an \<open>edit\<close> or
  \<open>multi_edit\<close> of a token that has made no request yet fails and has no effect.\<close>

theorem unread_edit_refused:
  assumes "fresh h" and "list_all (\<lambda>(c', req). c_token c' \<noteq> c_token c) reqs"
    and "run_state (history K reqs) h = (rs, h1)" and "call = CallEdit path e \<or> call = CallMultiEdit path es"
    and "run_state (dispatch K c (FileRequest call)) h1 = (r, h2)"
  shows "isl r \<and> h_fxlog h2 = h_fxlog h1"
proof -
  have "h_sess h1 (c_token c) = newSession"
    using state_io_relD [OF history_tokenSame [OF assms(2)] assms(3)] assms(1) by (simp add: tokenSame_def fresh_def)
  from call_unread [OF this assms(4)] assms(5) show ?thesis
    by (auto simp: run_bindE split: prod.splits sum.splits)
qed

lemma unread_edit_refused_witness:
  "\<exists>rs h' r h2. run_state (history demoKit demoRequests) demoHost = (rs, h') \<and> map isl rs = [False] \<and>
    run_state (dispatch demoKit (demoConn ''u'') (FileRequest (CallEdit ''/d/f'' demoEdit))) h' = (r, h2) \<and>
    isl r \<and> h_fxlog h2 = h_fxlog h'"
proof -
  obtain rs h' where run: "run_state (history demoKit demoRequests) demoHost = (rs, h')" "map isl rs = [False]"
    using demoHistory by (elim exE conjE) simp
  obtain r h2 where call: "run_state (dispatch demoKit (demoConn ''u'') (FileRequest (CallEdit ''/d/f'' demoEdit))) h' = (r, h2)"
    by fastforce
  have "list_all (\<lambda>(c', req). c_token c' \<noteq> c_token (demoConn ''u'')) demoRequests"
    by (simp add: demoRequests_def demoConn_def)
  from unread_edit_refused [OF fresh_demo this run(1) _ call] have "isl r" "h_fxlog h2 = h_fxlog h'" by blast+
  with run call show ?thesis by (intro exI [of _ rs] exI [of _ h'] exI [of _ r] exI [of _ h2] conjI)
qed

text \<open>C15. Locks: after any history of requests on a fresh server, under any schedule, no path lock and no root
  lease is left behind, and no request has waited for a lock or a lease that it held itself.\<close>

theorem locks_released:
  assumes "fresh h" and "run_state (history K reqs) h = (rs, h')"
  shows "h_held h' = [] \<and> h_lease h' = 0 \<and> \<not> h_stuck h'"
proof -
  have "state_io_rel handsFree (history K reqs)" by (rule hf.rel_history) (rule handsFree_dispatch)
  from state_io_relD [OF this assms(2)] assms(1) show ?thesis by (simp add: handsFree_def fresh_def)
qed

lemma locks_released_witness:
  "\<exists>rs h'. run_state (history demoKit demoRequests) demoHost = (rs, h') \<and> map isl rs = [False] \<and> h_held h' = []"
proof -
  obtain rs h' where run: "run_state (history demoKit demoRequests) demoHost = (rs, h')" "map isl rs = [False]"
    using demoHistory by (elim exE conjE) simp
  from locks_released [OF fresh_demo run(1)] have "h_held h' = []" by blast
  with run show ?thesis by (intro exI [of _ rs] exI [of _ h'] conjI)
qed

end
