(* ===== verification/Flags.thy ===== *)
theory Flags
  imports ToolServer
begin

text \<open>
  The command line of the server (\<open>main.go\<close>): the flags of \<open>run\<close> with their defaults and the parsing that
  \<open>flag.FlagSet\<close> does for them. Arguments after the first one that is no flag are ignored. Durations are
  nanoseconds; \<open>time.ParseDuration\<close> and \<open>Duration.String\<close>, which compute with floating point, are parameters.
\<close>

record timeLib =
  tl_ParseDuration :: "bytes \<Rightarrow> int option"
  tl_String :: "int \<Rightarrow> bytes"

record flags =
  fl_allow :: "bytes list"
  fl_transport :: bytes
  fl_addr :: bytes
  fl_keepalive :: int
  fl_logLevel :: bytes
  fl_version :: bool

definition defaultFlags :: flags where
  "defaultFlags = \<lparr>fl_allow = [], fl_transport = ''stdio'', fl_addr = '':8080'', fl_keepalive = 4 * 60 * 10 ^ 9,
     fl_logLevel = ''info'', fl_version = False\<rparr>"

definition allowSet :: "bytes \<Rightarrow> flags \<Rightarrow> flags" where
  "allowSet v fl = fl\<lparr>fl_allow := fl_allow fl @ [v]\<rparr>"

text \<open>\<open>strconv.ParseBool\<close>.\<close>

definition parseBool :: "bytes \<Rightarrow> bool option" where
  "parseBool s =
     (if s \<in> set [''1'', ''t'', ''T'', ''TRUE'', ''true'', ''True''] then Some True
      else if s \<in> set [''0'', ''f'', ''F'', ''FALSE'', ''false'', ''False''] then Some False
      else None)"

text \<open>\<open>flag.Value.Set\<close> of the flag with a name; the inner \<open>None\<close> is a parse error.\<close>

definition setFlag :: "timeLib \<Rightarrow> bytes \<Rightarrow> (bytes \<Rightarrow> flags \<Rightarrow> flags option) option" where
  "setFlag T name =
     map_of [(''allow'', \<lambda>v fl. Some (allowSet v fl)),
       (''transport'', \<lambda>v fl. Some (fl\<lparr>fl_transport := v\<rparr>)),
       (''addr'', \<lambda>v fl. Some (fl\<lparr>fl_addr := v\<rparr>)),
       (''keepalive'', \<lambda>v fl. map_option (\<lambda>d. fl\<lparr>fl_keepalive := d\<rparr>) (tl_ParseDuration T v)),
       (''log-level'', \<lambda>v fl. Some (fl\<lparr>fl_logLevel := v\<rparr>)),
       (''version'', \<lambda>v fl. map_option (\<lambda>b. fl\<lparr>fl_version := b\<rparr>) (parseBool v))] name"

definition isBoolFlag :: "bytes \<Rightarrow> bool" where
  "isBoolFlag name \<longleftrightarrow> name = ''version''"

text \<open>\<open>name=value\<close>; the name is not empty.\<close>

definition cutFlag :: "bytes \<Rightarrow> bytes \<times> bytes option" where
  "cutFlag s =
     (let name = takeWhile (\<lambda>c. c \<noteq> CHR ''='') s
      in (name, if length name < length s then Some (drop (length name + 1) s) else None))"

fun parseFlags :: "timeLib \<Rightarrow> (nat \<Rightarrow> bool) \<Rightarrow> bytes list \<Rightarrow> flags \<Rightarrow> (bytes, flags) result" where
  "parseFlags T isPrint [] fl = Inr fl"
| "parseFlags T isPrint (s # rest) fl =
     (if length s < 2 \<or> hd s \<noteq> CHR ''-'' \<or> s = ''--'' then Inr fl
      else
        let body = (if s ! 1 = CHR ''-'' then drop 2 s else drop 1 s)
        in if body = [] \<or> hd body = CHR ''-'' \<or> hd body = CHR ''='' then Inl (''bad flag syntax: '' @ s)
           else
             let (name, value) = cutFlag body
             in case setFlag T name of
                  None \<Rightarrow>
                    if name = ''help'' \<or> name = ''h'' then Inl ''flag: help requested''
                    else Inl (''flag provided but not defined: -'' @ name)
                | Some assign \<Rightarrow>
                    if isBoolFlag name then
                      (case assign (case value of None \<Rightarrow> ''true'' | Some v \<Rightarrow> v) fl of
                         Some fl' \<Rightarrow> parseFlags T isPrint rest fl'
                       | None \<Rightarrow> Inl (''invalid boolean value '' @ goQuote isPrint (the value) @ '' for -'' @ name @ '': parse error''))
                    else
                      (case (value, rest) of
                         (Some v, _) \<Rightarrow>
                           (case assign v fl of
                              Some fl' \<Rightarrow> parseFlags T isPrint rest fl'
                            | None \<Rightarrow> Inl (''invalid value '' @ goQuote isPrint v @ '' for flag -'' @ name @ '': parse error''))
                       | (None, []) \<Rightarrow> Inl (''flag needs an argument: -'' @ name)
                       | (None, v # rest') \<Rightarrow>
                           (case assign v fl of
                              Some fl' \<Rightarrow> parseFlags T isPrint rest' fl'
                            | None \<Rightarrow> Inl (''invalid value '' @ goQuote isPrint v @ '' for flag -'' @ name @ '': parse error''))))"

text \<open>Both ways to give a flag a value.\<close>

lemma cutFlag_simps:
  "cutFlag ''allow'' = (''allow'', None)" "cutFlag (''allow='' @ d) = (''allow'', Some d)"
  by (simp_all add: cutFlag_def)

lemma parseFlags_allow:
  "parseFlags T P ([''-allow'', d] @ rest) fl = parseFlags T P rest (allowSet d fl)"
  "parseFlags T P ((''--allow='' @ d) # rest) fl = parseFlags T P rest (allowSet d fl)"
  using cutFlag_simps by (simp_all add: setFlag_def isBoolFlag_def)

lemma parseFlags_allows:
  "parseFlags T P (map (\<lambda>d. ''--allow='' @ d) ds @ rest) fl = parseFlags T P rest (fl\<lparr>fl_allow := fl_allow fl @ ds\<rparr>)"
proof (induction ds arbitrary: fl)
  case (Cons d ds)
  from Cons.IH [of "allowSet d fl"] parseFlags_allow(2) [of T P d "map (\<lambda>d. ''--allow='' @ d) ds @ rest" fl]
  show ?case by (simp add: allowSet_def del: parseFlags.simps)
qed simp

end
