(* ===== verification/Server.thy ===== *)
theory Server
  imports Flags
begin

text \<open>
  The server program (\<open>main.go\<close>) on top of \<open>ToolServer\<close> and \<open>Flags\<close>, and the keepalive loop of
  \<open>server.go\<close>: the checks of the flags, the tokens of the HTTP transport, the table of routes with one
  connection per token, the instructions text, how a transport's end becomes the program's, and the loop
  that keeps the mount busy. The environment is a function from names to values, empty when unset. The HTTP
  server, signals, logging and the MCP transport are not modelled; how they end is a parameter.
\<close>

definition serverName :: bytes where "serverName = ''file-edit-mcp''"
definition tokenEnv :: bytes where "tokenEnv = ''FILE_EDIT_MCP_TOKEN''"
definition tokensEnv :: bytes where "tokensEnv = ''FILE_EDIT_MCP_TOKENS''"
definition instructionsEnv :: bytes where "instructionsEnv = ''FILE_EDIT_MCP_INSTRUCTIONS''"

section \<open>Tokens\<close>

definition isAlnum :: "char \<Rightarrow> bool" where
  "isAlnum c =
     (let n = (of_char c :: nat) in 48 \<le> n \<and> n \<le> 57 \<or> 65 \<le> n \<and> n \<le> 90 \<or> 97 \<le> n \<and> n \<le> 122)"

text \<open>The regular expression of a token.\<close>

definition tokenRE :: "bytes \<Rightarrow> bool" where
  "tokenRE t =
     (case t of
        [] \<Rightarrow> False
      | c # cs \<Rightarrow> isAlnum c \<and> length cs \<le> 127 \<and> list_all (\<lambda>d. isAlnum d \<or> d = CHR ''_'' \<or> d = CHR ''-'') cs)"

definition tokenRule :: bytes where
  "tokenRule = ''must be 1-128 characters from [A-Za-z0-9_-] and start with an alphanumeric (URL-path-segment safe)''"

definition validateToken :: "bytes \<Rightarrow> goerr option" where
  "validateToken token =
     (if \<not> tokenRE token then Some (PlainErr (''invalid '' @ tokenEnv @ '': '' @ tokenRule)) else None)"

definition loadToken :: "(bytes \<Rightarrow> bytes) \<Rightarrow> (goerr, bytes) result" where
  "loadToken getenv =
     (let token = getenv tokenEnv
      in if token = [] then Inl (PlainErr (tokenEnv @ '' is required with --transport http: it holds the token that enables token-path authentication (the MCP endpoint is /<token>/mcp)''))
         else case validateToken token of Some e \<Rightarrow> Inl e | None \<Rightarrow> Inr token)"

text \<open>The loop over the list: the position of an entry counts from 0 here and from 1 in the messages.\<close>

fun tokensLoop :: "nat \<Rightarrow> bytes list \<Rightarrow> bytes list \<Rightarrow> (goerr, bytes list) result" where
  "tokensLoop i tokens [] = Inr tokens"
| "tokensLoop i tokens (raw # raws) =
     (let entry = trimSpace raw
      in if entry = [] then Inl (PlainErr (tokensEnv @ '' entry '' @ itoa (int (i + 1)) @
           '' is empty: check for stray commas (entry positions are 1-based; the value is never echoed)''))
         else if validateToken entry \<noteq> None
           then Inl (PlainErr (tokensEnv @ '' entry '' @ itoa (int (i + 1)) @ '' is invalid: '' @ tokenRule))
         else if entry \<in> set tokens
           then Inl (PlainErr (tokensEnv @ '' entry '' @ itoa (int (i + 1)) @
             '' duplicates an earlier entry: tokens must be unique (rejected, not deduped, so a typo cannot silently drop an endpoint)''))
         else tokensLoop (i + 1) (tokens @ [entry]) raws)"

definition loadTokens :: "(bytes \<Rightarrow> bytes) \<Rightarrow> (goerr, bytes list) result" where
  "loadTokens getenv =
     (let lst = getenv tokensEnv
      in if lst = [] then (case loadToken getenv of Inl e \<Rightarrow> Inl e | Inr t \<Rightarrow> Inr [t])
         else tokensLoop 0 [] (split lst '',''))"

section \<open>Connections and routes\<close>

definition serverInstructions :: "(bytes \<Rightarrow> bytes) \<Rightarrow> Guard \<Rightarrow> bytes" where
  "serverInstructions getenv g =
     (if getenv instructionsEnv \<noteq> [] then getenv instructionsEnv
      else ''All tools operate on files under: '' @ join (AllowedDirs g) '', '' @ ''.'')"

text \<open>The routes, each with its own connection; \<open>http.ServeMux\<close> matches these patterns exactly.\<close>

definition newMCPHandler :: "Shared \<Rightarrow> bytes list \<Rightarrow> (bytes \<times> Conn) list" where
  "newMCPHandler shared tokens = map (\<lambda>token. (''/'' @ token @ ''/mcp'', NewConn shared token)) tokens"

definition muxRoute :: "(bytes \<times> Conn) list \<Rightarrow> bytes \<Rightarrow> Conn option" where
  "muxRoute routes path = map_of routes path"

section \<open>Start-up\<close>

definition upper :: "char \<Rightarrow> char" where
  "upper c = (let n = (of_char c :: nat) in if 97 \<le> n \<and> n \<le> 122 then char_of (n - 32) else c)"

text \<open>\<open>slog.Level.UnmarshalText\<close>: a level name with an optional signed offset.\<close>

definition parseLevel :: "bytes \<Rightarrow> int option" where
  "parseLevel s =
     (let name = takeWhile (\<lambda>c. c \<noteq> CHR ''+'' \<and> c \<noteq> CHR ''-'') s; rest = drop (length name) s;
          off = (if rest = [] then Some 0 else atoi rest);
          base = map_of [(''DEBUG'', - 4), (''INFO'', 0), (''WARN'', 4), (''ERROR'', 8)] (map upper name)
      in case (base, off) of (Some b, Some n) \<Rightarrow> Some (b + n) | _ \<Rightarrow> None)"

text \<open>What \<open>run\<close> comes to before it serves: the version line, the one connection of stdio, or the routes.\<close>

datatype mode = ShowVersion | ServeStdio Conn bytes | ServeHTTP "(bytes \<times> Conn) list" bytes bytes int

definition run :: "hostEnv \<Rightarrow> timeLib \<Rightarrow> (bytes \<Rightarrow> bytes) \<Rightarrow> bytes list \<Rightarrow> mode ioe" where
  "run env T getenv args =
     bindE (liftR (map_sum (\<lambda>m. WrapErr (''bad flags: '' @ m) (PlainErr m)) (\<lambda>fl. fl) (parseFlags T (env_isPrint env) args defaultFlags))) (\<lambda>fl.
     if fl_version fl then ok ShowVersion
      else if length (fl_allow fl) < 1 then err (PlainErr ''at least one --allow DIR is required'')
      else if fl_transport fl \<noteq> ''stdio'' \<and> fl_transport fl \<noteq> ''http''
        then err (PlainErr (''invalid --transport '' @ goQuote (env_isPrint env) (fl_transport fl) @ '': want stdio or http''))
      else
        bindE (liftR (if fl_transport fl = ''http'' then loadTokens getenv else Inr [])) (\<lambda>tokens.
        if fl_keepalive fl < 0 then err (PlainErr (''invalid --keepalive '' @ tl_String T (fl_keepalive fl) @ '': want a non-negative duration''))
        else if parseLevel (fl_logLevel fl) = None
          then err (PlainErr (''invalid --log-level '' @ goQuote (env_isPrint env) (fl_logLevel fl)))
        else
          bindE (NewShared env (fl_allow fl)) (\<lambda>shared.
          if fl_transport fl = ''http''
          then ok (ServeHTTP (newMCPHandler shared tokens) (serverInstructions getenv (sh_guard shared)) (fl_addr fl) (fl_keepalive fl))
          else ok (ServeStdio (NewConn shared []) (serverInstructions getenv (sh_guard shared))))))"

text \<open>One request of the HTTP transport: 404 without a route.\<close>

definition serveHTTP :: "toolkit \<Rightarrow> (bytes \<times> Conn) list \<Rightarrow> bytes \<Rightarrow> toolRequest \<Rightarrow> toolResponse ioe option" where
  "serveHTTP K routes path req = (case muxRoute routes path of None \<Rightarrow> None | Some c \<Rightarrow> Some (dispatch K c req))"

text \<open>How the end of a stdio session is judged: whether the error chain has \<open>io.EOF\<close>, and its text.\<close>

definition isNormalClose :: "(bool \<times> bytes) option \<Rightarrow> bool" where
  "isNormalClose e =
     (case e of None \<Rightarrow> False | Some (eof, msg) \<Rightarrow> if eof then True else contains msg ''server is closing'')"

definition runStdio :: "(bool \<times> bytes) option \<Rightarrow> bytes option" where
  "runStdio e = (if isNormalClose e then None else map_option snd e)"

text \<open>How the HTTP server ends: \<open>ListenAndServe\<close> returns an error, which is \<open>ErrServerClosed\<close> or not, or a signal
  comes and \<open>Shutdown\<close> ends with or without an error.\<close>

datatype httpEnd = Served bool bytes | Signalled "bytes option"

fun runHTTP :: "httpEnd \<Rightarrow> bytes option" where
  "runHTTP (Served closed msg) = (if closed then None else Some msg)"
| "runHTTP (Signalled None) = None"
| "runHTTP (Signalled (Some e)) = Some (''shutdown: '' @ e)"

text \<open>The message on the standard error stream and the exit code.\<close>

definition mainExit :: "bytes option \<Rightarrow> bytes \<times> nat" where
  "mainExit e = (case e of None \<Rightarrow> ([], 0) | Some m \<Rightarrow> (serverName @ '': '' @ m @ [CHR 0x0A], 1))"

section \<open>Keepalive\<close>

text \<open>The production probe, one pass over the directories, and the loop; its failures are only logged.
  Between two passes the ticker fires; the loop ends when the request context has.\<close>

definition keepaliveProbe :: "Guard \<Rightarrow> bytes \<Rightarrow> unit ioe" where
  "keepaliveProbe g dir =
     WithRoot (AllowedDirs g) dir (\<lambda>base rel. bindE (rStat base rel) (\<lambda>_. ok ()))"

fun keepalivePass :: "(bytes \<Rightarrow> unit ioe) \<Rightarrow> bytes list \<Rightarrow> unit io" where
  "keepalivePass probe [] = ret ()"
| "keepalivePass probe (dir # ds) = ignore (probe dir) \<bind> (\<lambda>_. keepalivePass probe ds)"

fun keepaliveLoop :: "Guard \<Rightarrow> (bytes \<Rightarrow> unit ioe) \<Rightarrow> nat \<Rightarrow> unit io" where
  "keepaliveLoop g probe 0 = ret ()"
| "keepaliveLoop g probe (Suc ticks) =
     nextTick \<bind> (\<lambda>_.
     gets (ctxErrAt (Some 0)) \<bind> (\<lambda>ended.
     if ended \<noteq> None then ret ()
     else keepalivePass probe (AllowedDirs g) \<bind> (\<lambda>_. keepaliveLoop g probe ticks)))"

definition Keepalive :: "Guard \<Rightarrow> int \<Rightarrow> (bytes \<Rightarrow> unit ioe) option \<Rightarrow> nat \<Rightarrow> unit io" where
  "Keepalive g interval probe ticks =
     (if interval \<le> 0 then ret ()
      else keepaliveLoop g (case probe of None \<Rightarrow> keepaliveProbe g | Some p \<Rightarrow> p) ticks)"

section \<open>What the tokens are\<close>

text \<open>What is wrong with the entry at position \<open>i\<close>, counted from 0.\<close>

definition entryFault :: "bytes list \<Rightarrow> nat \<Rightarrow> bytes option" where
  "entryFault es i =
     (if es ! i = [] then Some '' is empty: check for stray commas (entry positions are 1-based; the value is never echoed)''
      else if \<not> tokenRE (es ! i) then Some ('' is invalid: '' @ tokenRule)
      else if es ! i \<in> set (take i es)
        then Some '' duplicates an earlier entry: tokens must be unique (rejected, not deduped, so a typo cannot silently drop an endpoint)''
      else None)"

definition faultReport :: "bytes list \<Rightarrow> nat list \<Rightarrow> (goerr, bytes list) result" where
  "faultReport es is =
     (case List.find (\<lambda>i. entryFault es i \<noteq> None) is of
        None \<Rightarrow> Inr es
      | Some i \<Rightarrow> Inl (PlainErr (tokensEnv @ '' entry '' @ itoa (int (i + 1)) @ the (entryFault es i))))"

lemma tokensLoop_report:
  "tokensLoop (length ts) ts raws = faultReport (ts @ map trimSpace raws) [length ts..<length ts + length raws]"
proof (induction raws arbitrary: ts)
  case Nil
  show ?case by (simp add: faultReport_def)
next
  case (Cons raw raws)
  let ?es = "ts @ map trimSpace (raw # raws)"
  have rng: "[length ts..<length ts + length (raw # raws)] = length ts # [Suc (length ts)..<Suc (length ts) + length raws]"
    using upt_conv_Cons [of "length ts" "length ts + length (raw # raws)"] by (simp del: upt_Suc)
  have fault: "entryFault ?es (length ts) =
     (if trimSpace raw = [] then Some '' is empty: check for stray commas (entry positions are 1-based; the value is never echoed)''
      else if \<not> tokenRE (trimSpace raw) then Some ('' is invalid: '' @ tokenRule)
      else if trimSpace raw \<in> set ts
        then Some '' duplicates an earlier entry: tokens must be unique (rejected, not deduped, so a typo cannot silently drop an endpoint)''
      else None)"
    by (simp add: entryFault_def)
  show ?case
  proof (cases "entryFault ?es (length ts)")
    case None
    with fault have "trimSpace raw \<noteq> []" "tokenRE (trimSpace raw)" "trimSpace raw \<notin> set ts" by (auto split: if_splits)
    with Cons.IH [of "ts @ [trimSpace raw]"] None show ?thesis
      unfolding rng by (simp add: Let_def validateToken_def faultReport_def)
  next
    case (Some r)
    with fault show ?thesis
      unfolding rng by (auto simp: Let_def validateToken_def faultReport_def split: if_splits)
  qed
qed

text \<open>C38. \<open>loadTokens\<close> is exact: without a list it accepts the one token if it is well formed; with a list it
  accepts the trimmed entries if each is well formed and new, and else reports the first entry that is not,
  by its position and kind of fault; no error depends on a token's value in any other way.\<close>

theorem load_tokens_exact:
  "loadTokens getenv =
    (let lst = getenv tokensEnv; one = getenv tokenEnv; es = map trimSpace (split lst '','')
     in if lst \<noteq> [] then
          (case List.find (\<lambda>i. entryFault es i \<noteq> None) [0..<length es] of
             None \<Rightarrow> Inr es
           | Some i \<Rightarrow> Inl (PlainErr (tokensEnv @ '' entry '' @ itoa (int (i + 1)) @ the (entryFault es i))))
        else if one = [] then Inl (PlainErr (tokenEnv @
          '' is required with --transport http: it holds the token that enables token-path authentication (the MCP endpoint is /<token>/mcp)''))
        else if tokenRE one then Inr [one]
        else Inl (PlainErr (''invalid '' @ tokenEnv @ '': '' @ tokenRule)))"
  using tokensLoop_report [of "[]" "split (getenv tokensEnv) '',''"]
  by (simp add: loadTokens_def loadToken_def validateToken_def Let_def faultReport_def)

section \<open>What the server starts with\<close>

lemma newLoop_dirs:
  assumes "run_state (newLoop env acc ds) h = (Inr g, h')" and "list_all canonPath acc" and "distinct acc"
  shows "list_all canonPath (AllowedDirs g) \<and> distinct (AllowedDirs g) \<and> (acc \<noteq> [] \<or> ds \<noteq> [] \<longrightarrow> AllowedDirs g \<noteq> [])"
  using assms
proof (induction ds arbitrary: acc h)
  case Nil
  then show ?case by (auto simp: AllowedDirs_def)
next
  case (Cons d ds)
  obtain r h1 where r: "run_state (EvalSymlinks (Abs (env_cwd env) d)) h = (r, h1)" by fastforce
  with Cons.prems(1) obtain real where real: "r = Inr real" by (cases r) (auto simp: Let_def run_bindE run_mapErr)
  with r have canon: "canonPath real" by (simp add: EvalSymlinks_canon)
  let ?acc = "if real \<notin> set acc then acc @ [real] else acc"
  obtain h2 where h2: "run_state (newLoop env ?acc ds) h2 = (Inr g, h')"
    using Cons.prems(1) r real by (auto simp: Let_def run_bindE run_mapErr split: prod.splits sum.splits if_splits)
  have "list_all canonPath ?acc" "distinct ?acc" "?acc \<noteq> []"
    using Cons.prems(2,3) canon by auto
  with Cons.IH [OF h2] show ?case by simp
qed

text \<open>A connection over canonical, different directories, with the standard limits.\<close>

definition servable :: "Conn \<Rightarrow> bool" where
  "servable c \<longleftrightarrow> list_all canonPath (c_dirs c) \<and> distinct (c_dirs c) \<and> c_dirs c \<noteq> [] \<and> c_limits c = DefaultUploadLimits"

lemma NewShared_servable:
  assumes "run_state (NewShared env ds) h = (Inr shared, h')"
  shows "servable (NewConn shared token)"
proof -
  from assms obtain g where g: "run_state (newLoop env [] ds) h = (Inr g, h')" "ds \<noteq> []" "sh_guard shared = g"
      "sh_limits shared = DefaultUploadLimits"
    by (auto simp: NewShared_def Pathguard.New_def run_bindE split: prod.splits sum.splits if_splits)
  with newLoop_dirs [OF g(1)] show ?thesis by (simp add: servable_def NewConn_def c_dirs_def)
qed

lemma loadTokens_ok:
  assumes "loadTokens getenv = Inr ts"
  shows "ts \<noteq> [] \<and> distinct ts \<and> list_all tokenRE ts"
proof (cases "getenv tokensEnv = []")
  case True
  with assms show ?thesis
    by (auto simp: loadTokens_def loadToken_def validateToken_def Let_def split: if_splits)
next
  case False
  let ?es = "map trimSpace (split (getenv tokensEnv) '','')"
  from assms False have rep: "faultReport ?es [0..<length ?es] = Inr ts"
    using tokensLoop_report [of "[]" "split (getenv tokensEnv) '',''"] by (simp add: loadTokens_def)
  then have none: "List.find (\<lambda>i. entryFault ?es i \<noteq> None) [0..<length ?es] = None" and ts: "ts = ?es"
    by (auto simp: faultReport_def split: option.splits)
  from none have ok: "tokenRE (?es ! i) \<and> ?es ! i \<notin> set (take i ?es)" if "i < length ?es" for i
    using that by (auto simp: find_None_iff entryFault_def split: if_splits)
  then have "list_all tokenRE ?es" by (simp add: list_all_length)
  moreover have "distinct ?es"
    unfolding distinct_conv_nth
  proof (intro allI impI)
    fix i j
    assume ij: "i < length ?es" "j < length ?es" "i \<noteq> j"
    have "?es ! a \<noteq> ?es ! b" if "a < b" "b < length ?es" for a b
    proof -
      have "?es ! a \<in> set (take b ?es)" using that by (auto simp: in_set_conv_nth intro!: exI [of _ a])
      with ok [OF that(2)] show ?thesis by metis
    qed
    with ij show "?es ! i \<noteq> ?es ! j" by (metis nat_neq_iff)
  qed
  moreover have "?es \<noteq> []" by simp
  ultimately show ?thesis unfolding ts by (intro conjI)
qed

definition wellRouted :: "(bytes \<times> Conn) list \<Rightarrow> bool" where
  "wellRouted routes \<longleftrightarrow> routes \<noteq> [] \<and> distinct (map fst routes) \<and>
     list_all (\<lambda>(path, c). tokenRE (c_token c) \<and> path = ''/'' @ c_token c @ ''/mcp'' \<and> servable c) routes"

lemma newMCPHandler_routed:
  assumes "ts \<noteq> []" and "distinct ts" and "list_all tokenRE ts" and "\<And>t. servable (NewConn shared t)"
  shows "wellRouted (newMCPHandler shared ts)"
proof -
  have "map fst (newMCPHandler shared ts) = map (\<lambda>t. ''/'' @ t @ ''/mcp'') ts" by (simp add: newMCPHandler_def comp_def)
  moreover have "distinct (map (\<lambda>t. ''/'' @ t @ ''/mcp'') ts)"
    using assms(2) by (simp add: distinct_map inj_on_def)
  moreover have "c_token (NewConn shared t) = t" for t by (simp add: NewConn_def)
  ultimately show ?thesis
    using assms by (auto simp: wellRouted_def newMCPHandler_def list_all_iff comp_def)
qed

text \<open>What a start comes to, by the flags.\<close>

fun startedAs :: "flags \<Rightarrow> mode \<Rightarrow> bool" where
  "startedAs fl ShowVersion \<longleftrightarrow> fl_version fl"
| "startedAs fl (ServeStdio c instructions) \<longleftrightarrow> fl_transport fl = ''stdio'' \<and> servable c \<and> c_token c = []"
| "startedAs fl (ServeHTTP routes instructions addr keepalive) \<longleftrightarrow>
     fl_transport fl = ''http'' \<and> addr = fl_addr fl \<and> keepalive = fl_keepalive fl \<and> 0 \<le> keepalive \<and> wellRouted routes"

lemma muxRoute_own:
  "wellRouted routes \<Longrightarrow> muxRoute routes path = Some c \<longleftrightarrow> c \<in> snd ` set routes \<and> path = ''/'' @ c_token c @ ''/mcp''"
  by (force simp: wellRouted_def muxRoute_def list_all_iff)


definition demoTime :: timeLib where
  "demoTime = \<lparr>tl_ParseDuration = (\<lambda>s. if s = ''5s'' then Some (5 * 10 ^ 9) else None), tl_String = (\<lambda>d. [])\<rparr>"

definition demoArgs :: "bytes list" where
  "demoArgs = [''--allow'', ''/l'', ''-allow=/d'', ''--transport=http'', ''--addr'', '':80'', ''-keepalive'', ''5s'', ''--log-level=info+1'']"

definition demoGetenv :: "bytes \<Rightarrow> bytes" where
  "demoGetenv name = (if name = tokensEnv then ''a, b-1'' else [])"


end
