(* ===== verification/Admission.thy ===== *)
theory Admission
  imports SoleWriter
begin

text \<open>
  What the path guard decides on a machine at rest, as a function of the tree of names alone: the walk of
  the symbolic links without its system calls, and the verdict of \<open>Validate\<close>. The tree is the abstract file
  system of \<open>AbsFs\<close>.
\<close>

section \<open>Rest\<close>

text \<open>Nothing but time has passed.\<close>

definition later :: "fsys \<Rightarrow> fsys \<Rightarrow> bool" where
  "later fs fs' \<longleftrightarrow> (\<exists>k. fs' = fs\<lparr>fs_clock := k\<rparr> \<and> fs_clock fs \<le> k)"

lemma later_refl [simp]: "later fs fs"
  unfolding later_def by (rule exI [of _ "fs_clock fs"]) simp

lemma later_trans [trans]: "later a b \<Longrightarrow> later b c \<Longrightarrow> later a c"
  by (auto simp: later_def)

lemma later_tick [simp]: "later a b \<Longrightarrow> later a (b\<lparr>fs_clock := fs_clock b + 1\<rparr>)"
  by (auto simp: later_def)

lemma later_same: "later fs fs' \<Longrightarrow> sameFiles fs fs'"
  by (auto simp: later_def sameFiles_def)

lemma later_clock: "later fs fs' \<Longrightarrow> fs_clock fs \<le> fs_clock fs'"
  by (auto simp: later_def)

lemmas later_simps = sameFiles_simps [OF later_same]

definition rested :: "host \<Rightarrow> host \<Rightarrow> bool" where
  "rested h h' \<longleftrightarrow> (h_sched h = [] \<longrightarrow>
     h_sched h' = [] \<and> h_ctx h' = h_ctx h \<and> h_sess h' = h_sess h \<and> h_roots h' = h_roots h \<and> later (h_fs h) (h_fs h'))"

interpretation resting: step_rel rested
  by unfold_locales (auto simp: rested_def intro: later_trans)

lemma rested_look:
  assumes "\<And>fs. fst (snd (op fs)) = fs"
  shows "state_io_rel rested (syscall op)"
proof (rule resting.rel_syscall)
  show "state_io_rel rested nextTick"
    by (auto simp: state_io_rel_def nextTick_def rested_def applyTick_quiet split: list.split)
  show "state_io_rel rested (runOp op)" using assms by (simp add: state_io_rel_def run_runOp rested_def)
qed

interpretation restwalk: walk_rel rested
proof unfold_locales
  show "state_io_rel rested (lstat p)" "state_io_rel rested (readlink p)" for p
    unfolding lstat_def readlink_def by (intro rested_look atKernel_keeps readonly_keeps)+
qed

type_synonym tree = "bytes list \<Rightarrow> entry option"

section \<open>Following links in a tree\<close>

function linkWalk :: "tree \<Rightarrow> nat \<Rightarrow> bytes list \<Rightarrow> bytes \<Rightarrow> (errno, bytes list) result" where
  "linkWalk A n dest path =
     (if firstComp path = [] then Inr dest
      else if firstComp path = dot then linkWalk A n dest (afterComp path)
      else if firstComp path = dotdot then linkWalk A n (butlast dest) (afterComp path)
      else
        (case A (dest @ [firstComp path]) of
           None \<Rightarrow> Inl ENOENT
         | Some VDir \<Rightarrow> linkWalk A n (dest @ [firstComp path]) (afterComp path)
         | Some (VFile d) \<Rightarrow> if afterComp path = [] then Inr (dest @ [firstComp path]) else Inl ENOTDIR
         | Some (VLink t) \<Rightarrow>
             if n + 1 > maxLinksWalked then Inl ELOOP
             else linkWalk A (n + 1) (if isAbs t then [] else dest) (t @ afterComp path)))"
  by pat_completeness auto
termination
  by (relation "measures [\<lambda>(A, n, dest, path). maxLinksWalked - n, \<lambda>(A, n, dest, path). length path]")
    (auto simp: length_afterComp)

declare linkWalk.simps [simp del]

text \<open>Where the walk stands it has come through directories only.\<close>

definition dirTree :: "tree \<Rightarrow> bytes list \<Rightarrow> bool" where
  "dirTree A cs \<longleftrightarrow> list_all okComp cs \<and> (\<forall>k \<le> length cs. A (take k cs) = Some VDir)"

lemma dirTree_real: "dirTree (absFs fs) cs \<longleftrightarrow> realDir fs cs"
  by (auto simp: dirTree_def realDir_abs dirsAbove_abs le_less)

lemma dirTree_snoc: "dirTree A (cs @ [c]) \<longleftrightarrow> dirTree A cs \<and> okComp c \<and> A (cs @ [c]) = Some VDir"
  by (auto simp: dirTree_def le_Suc_eq)

lemma dirTree_here: "dirTree A cs \<Longrightarrow> A cs = Some VDir"
  by (auto simp: dirTree_def)

lemma dirTree_butlast: "dirTree A cs \<Longrightarrow> dirTree A (butlast cs)"
  by (cases cs rule: rev_cases) (auto simp: dirTree_snoc)

text \<open>The system's walk is this one: it ends the same way, and an error is \<open>ENOENT\<close> exactly when here.\<close>

definition walkAgrees :: "(errno, 'a) result \<Rightarrow> (goerr, 'a) result \<Rightarrow> bool" where
  "walkAgrees a r \<longleftrightarrow> (case a of Inr v \<Rightarrow> r = Inr v | Inl e \<Rightarrow> \<exists>x. r = Inl x \<and> (isNotExist x \<longleftrightarrow> e = ENOENT))"

lemma walkAgrees_simps [simp]:
  "walkAgrees (Inr v) r \<longleftrightarrow> r = Inr v"
  "walkAgrees (Inl e) (Inl x) \<longleftrightarrow> (isNotExist x \<longleftrightarrow> e = ENOENT)"
  "\<not> walkAgrees (Inl e) (Inr w)"
  by (auto simp: walkAgrees_def)

lemma isNotExist_simps [simp]:
  "isNotExist (SysErr n m) \<longleftrightarrow> n = ENOENT"
  "\<not> isNotExist (PlainErr m)"
  "\<not> isNotExist (Catalog s m None)"
  by (auto simp: isNotExist_def isErrno_def)

lemma absFs_tick [simp]: "absFs (h_fs (applyTick quietTick h)) = absFs (h_fs h)"
  by (simp add: applyTick_quiet)

lemma walkSymlinks_tree:
  assumes "h_sched h = []" and "A = absFs (h_fs h)" and "dirTree A dest"
  shows "walkAgrees (linkWalk A n dest path) (fst (run_state (walkSymlinks n dest path) h))"
  using assms
proof (induction A n dest path arbitrary: h rule: linkWalk.induct)
  case (1 A n dest path)
  let ?c = "firstComp path" and ?rest = "afterComp path"
  let ?p = "dest @ [?c]"
  note unfolds = linkWalk.simps [of A n dest path] walkSymlinks.simps [of n dest path]
  show ?case
  proof (cases "?c = [] \<or> ?c = dot \<or> ?c = dotdot")
    case True
    have "?c = dot \<Longrightarrow> walkAgrees (linkWalk A n dest ?rest) (fst (run_state (walkSymlinks n dest ?rest) h))"
      "?c \<noteq> dot \<Longrightarrow> ?c = dotdot \<Longrightarrow>
        walkAgrees (linkWalk A n (butlast dest) ?rest) (fst (run_state (walkSymlinks n (butlast dest) ?rest) h))"
      using "1.IH"(1) [OF _ _ "1.prems"] "1.IH"(2) [OF _ _ _ "1.prems"(1,2) dirTree_butlast [OF "1.prems"(3)]]
      by (auto simp: dot_def dotdot_def)
    with True show ?thesis unfolding unfolds by auto
  next
    case False
    then have c: "okComp ?c" by (auto intro: okComp_firstComp)
    with "1.prems" have above: "dirsAbove (h_fs h) ?p" by (simp add: dirTree_real dirsAbove_snoc)
    let ?h = "applyTick quietTick h"
    have q: "h_sched ?h = []" "A = absFs (h_fs ?h)" using "1.prems" by simp_all
    note l = run_lstat_quiet [OF "1.prems"(1) above]
    show ?thesis
    proof (cases "nodeAt (h_fs h) ?p")
      case None
      with False have "linkWalk A n dest path = Inl ENOENT" "run_state (walkSymlinks n dest path) h = (Inl (sysErr h ENOENT), ?h)"
        unfolding unfolds by (simp_all add: run_bindE l "1.prems"(2) absFs_def)
      then show ?thesis by (simp add: sysErr_def)
    next
      case (Some m)
      show ?thesis
      proof (cases m)
        case (NDir i)
        have a: "A ?p = Some VDir" using Some NDir "1.prems"(2) by (simp add: absFs_VDir)
        have d: "dirTree A ?p" using "1.prems"(3) c a by (simp add: dirTree_snoc)
        have "walkAgrees (linkWalk A n ?p ?rest) (fst (run_state (walkSymlinks n ?p ?rest) ?h))"
          by (rule "1.IH"(3)) (use False a q d in auto)
        with False Some NDir a show ?thesis unfolding unfolds by (simp add: run_bindE l infoOf_def IsDir_def)
      next
        case (NFile i)
        then have a: "A ?p = Some (VFile (i_data (fs_inodes (h_fs h) i)))" using Some "1.prems"(2) by (simp add: absFs_VFile)
        show ?thesis
        proof (cases "?rest = []")
          case True
          have "walkSymlinks n ?p [] = ok ?p" by (subst walkSymlinks.simps) (simp add: firstComp_def)
          with True False Some NFile a show ?thesis unfolding unfolds by (simp add: run_bindE l infoOf_def IsDir_def)
        next
          case nonempty: False
          with False Some NFile a show ?thesis unfolding unfolds
            by (simp add: run_bindE l infoOf_def IsDir_def failErrno_def sysErr_def)
        qed
      next
        case (NLink t)
        then have a: "A ?p = Some (VLink t)" using Some "1.prems"(2) by (simp add: absFs_VLink)
        have rl: "run_state (readlink (absPath ?p)) ?h = (Inr t, applyTick quietTick ?h)"
          by (rule run_readlink_quiet) (use q(1) above Some NLink in simp_all)
        show ?thesis
        proof (cases "n + 1 > maxLinksWalked")
          case True
          with False Some NLink a show ?thesis unfolding unfolds by (simp add: run_bindE l infoOf_def)
        next
          case fits: False
          have "walkAgrees (linkWalk A (n + 1) (if isAbs t then [] else dest) (t @ ?rest))
              (fst (run_state (walkSymlinks (n + 1) (if isAbs t then [] else dest) (t @ ?rest)) (applyTick quietTick ?h)))"
            by (rule "1.IH"(4)) (use False a fits q "1.prems"(3) in \<open>auto simp: dirTree_def\<close>)
          with False Some NLink a rl fits show ?thesis unfolding unfolds
            by (simp add: run_bindE l infoOf_def del: isAbs_iff)
        qed
      qed
    qed
  qed
qed

section \<open>The verdict of the guard\<close>

definition treeLinks :: "tree \<Rightarrow> bytes \<Rightarrow> (errno, bytes list) result" where
  "treeLinks A p = linkWalk A 0 [] p"

definition inside :: "bytes list \<Rightarrow> bytes list \<Rightarrow> bool" where
  "inside ds cs \<longleftrightarrow> list_ex (\<lambda>d. prefix (pathComps d) cs) ds"

text \<open>The path that \<open>Validate\<close> lets through, or its error: the gates on the text, then the place in the tree; a
  name that does not exist is admitted where its parent is.\<close>

definition admitted :: "hostEnv \<Rightarrow> Guard \<Rightarrow> tree \<Rightarrow> bytes \<Rightarrow> (goerr, bytes) result" where
  "admitted env g A raw =
     (let x = expandTilde env raw; p = Clean x in
      if CHR 0x00 \<in> set raw then Inl ENulByte
      else if windowsDriveRe x then Inl (EWindowsPath (env_isPrint env) x (dirs g))
      else if take 1 x \<noteq> [slash] then Inl (ERelative (dirs g))
      else
        (case treeLinks A p of
           Inr cs \<Rightarrow> if inside (dirs g) cs then Inr (absPath cs) else Inl (EOutside (absPath cs) (dirs g))
         | Inl ENOENT \<Rightarrow>
             (case treeLinks A (Dir p) of
                Inl _ \<Rightarrow> Inl (EParentMissing (Dir p))
              | Inr cs \<Rightarrow>
                  if inside (dirs g) cs then Inr (absPath (cs @ [Base p])) else Inl (EOutside (absPath cs) (dirs g)))
         | Inl _ \<Rightarrow> Inl (ENotExist p)))"

lemma EvalSymlinks_tree:
  assumes "h_sched h = []"
  shows "walkAgrees (map_sum (\<lambda>e. e) absPath (treeLinks (absFs (h_fs h)) p)) (fst (run_state (EvalSymlinks p) h))"
proof -
  obtain r h1 where run: "run_state (walkSymlinks 0 [] p) h = (r, h1)" by fastforce
  have "dirTree (absFs (h_fs h)) []" by (simp add: dirTree_def)
  from walkSymlinks_tree [OF assms refl this, of 0 p] run have w: "walkAgrees (treeLinks (absFs (h_fs h)) p) r"
    by (simp add: treeLinks_def)
  show ?thesis
  proof (cases "treeLinks (absFs (h_fs h)) p")
    case (Inl e)
    with w run show ?thesis by (cases r) (simp_all add: EvalSymlinks_def run_bindE)
  next
    case (Inr cs)
    with w run have "list_all okComp cs" by (auto intro: walkSymlinks_ok)
    with w run Inr show ?thesis by (simp add: EvalSymlinks_def run_bindE Clean_canon)
  qed
qed

lemma treeLinks_ok:
  assumes "treeLinks (absFs fs) p = Inr cs"
  shows "list_all okComp cs" "realPath fs cs"
proof -
  let ?h = "emptyHost\<lparr>h_fs := fs\<rparr>"
  have q: "h_sched ?h = []" by (simp add: emptyHost_def)
  obtain r h1 where run: "run_state (walkSymlinks 0 [] p) ?h = (r, h1)" by fastforce
  have "dirTree (absFs (h_fs ?h)) []" by (simp add: dirTree_def)
  from walkSymlinks_tree [OF q refl this, of 0 p] assms run have "r = Inr cs" by (simp add: treeLinks_def)
  with run walkSymlinks_ok walkSymlinks_real [OF run [unfolded \<open>r = Inr cs\<close>] q] show "list_all okComp cs" "realPath fs cs"
    by auto
qed

lemma run_EvalSymlinks_tree:
  assumes "h_sched h = []"
  obtains r h1 where "run_state (EvalSymlinks p) h = (r, h1)" "rested h h1" "h_sched h1 = []" "absFs (h_fs h1) = absFs (h_fs h)"
    "walkAgrees (map_sum (\<lambda>e. e) absPath (treeLinks (absFs (h_fs h)) p)) r"
proof -
  obtain r h1 where run: "run_state (EvalSymlinks p) h = (r, h1)" by fastforce
  have "rested h h1" using restwalk.rel_EvalSymlinks run by (rule state_io_relD)
  with run EvalSymlinks_tree [OF assms, of p] assms that show ?thesis by (auto simp: rested_def later_simps)
qed

lemma anyWithin_inside:
  assumes "list_all canonPath (dirs g)" and "list_all okComp cs"
  shows "anyWithin g (absPath cs) = inside (dirs g) cs"
  using anyWithin_iff [OF assms(1), of "absPath cs"] assms(2) by (simp add: inside_def)

lemma Validate_tree:
  assumes "h_sched h = []" and "list_all canonPath (dirs g)"
  shows "fst (run_state (Validate env g raw) h) = admitted env g (absFs (h_fs h)) raw"
proof -
  let ?x = "expandTilde env raw"
  let ?p = "Clean ?x" and ?A = "absFs (h_fs h)"
  have a: "take 1 ?x \<noteq> [slash] \<longleftrightarrow> \<not> isAbs ?x" by (cases ?x) auto
  show ?thesis
  proof (cases "CHR 0x00 \<notin> set raw \<and> \<not> windowsDriveRe ?x \<and> isAbs ?x")
    case False
    then show ?thesis unfolding admitted_def Let_def a by (auto simp: contains_single_iff Validate_def Let_def simp del: isAbs_iff)
  next
    case True
    then have gates: "\<not> contains raw [CHR 0x00]" "\<not> windowsDriveRe ?x" "isAbs ?x" "CHR 0x00 \<notin> set raw"
      by (auto simp: contains_single_iff simp del: isAbs_iff)
    then have first: "take (Suc 0) ?x = [slash]" by auto
    from run_EvalSymlinks_tree [OF assms(1), of ?p] obtain r h1 where e: "run_state (EvalSymlinks ?p) h = (r, h1)"
      "h_sched h1 = []" "absFs (h_fs h1) = ?A" "walkAgrees (map_sum (\<lambda>e. e) absPath (treeLinks ?A ?p)) r"
      by blast
    note V = Validate_abs_step [OF gates(1-3)]
    show ?thesis
    proof (cases "treeLinks ?A ?p")
      case (Inr cs)
      with e(4) have "r = Inr (absPath cs)" by simp
      with e(1) Inr gates treeLinks_ok(1) [OF Inr] show ?thesis
        by (simp add: V admitted_def Let_def first anyWithin_inside [OF assms(2)] del: isAbs_iff)
    next
      case (Inl n)
      with e(4) obtain x where x: "r = Inl x" "isNotExist x \<longleftrightarrow> n = ENOENT" by (cases r) auto
      show ?thesis
      proof (cases "n = ENOENT")
        case False
        with e(1) x Inl gates show ?thesis
          by (cases n) (simp_all add: V admitted_def Let_def first del: isAbs_iff)
      next
        case True
        from run_EvalSymlinks_tree [OF e(2), of "Dir ?p"] obtain r2 h2 where e2: "run_state (EvalSymlinks (Dir ?p)) h1 = (r2, h2)"
          "walkAgrees (map_sum (\<lambda>e. e) absPath (treeLinks ?A (Dir ?p))) r2"
          using e(3) by metis
        have "canonPath ?p" using gates(3) by (rule canonPath_Clean)
        then obtain ps where ps: "list_all okComp ps" "?p = absPath ps" by (rule canonPathE)
        with Inl e(1) x have "ps \<noteq> []" by (auto simp: EvalSymlinks_root)
        with ps(1) have b: "okComp (Base ?p)" by (cases ps rule: rev_cases) (simp_all add: ps(2) Base_absPath)
        have "fst (run_state (Validate env g raw) h) = fst (run_state (validateNewPath g ?p) h1)"
          using e(1) x True by (simp add: V)
        also have "\<dots> = (case treeLinks ?A (Dir ?p) of
            Inl _ \<Rightarrow> Inl (EParentMissing (Dir ?p))
          | Inr cs \<Rightarrow>
              if inside (dirs g) cs then Inr (absPath (cs @ [Base ?p])) else Inl (EOutside (absPath cs) (dirs g)))"
        proof (cases "treeLinks ?A (Dir ?p)")
          case (Inl m)
          with e2 show ?thesis by (cases r2) (simp_all add: validateNewPath_def Let_def)
        next
          case (Inr cs)
          with e2(2) have r2: "r2 = Inr (absPath cs)" by simp
          have "list_all okComp (cs @ [Base ?p])" using treeLinks_ok(1) [OF Inr] b by simp
          with e2(1) Inr r2 treeLinks_ok(1) [OF Inr] show ?thesis
            by (simp add: validateNewPath_def Let_def anyWithin_inside [OF assms(2)] Join_absPath del: Join.simps)
        qed
        also have "\<dots> = admitted env g ?A raw"
          using gates Inl True by (simp add: admitted_def Let_def first del: isAbs_iff)
        finally show ?thesis .
      qed
    qed
  qed
qed

section \<open>Admitted paths\<close>

text \<open>A path below another is walked by walking the other first.\<close>

lemma takeWhile_stop:
  "\<not> P x \<Longrightarrow> takeWhile P (a @ x # b) = takeWhile P a"
  "\<not> P x \<Longrightarrow> dropWhile P (a @ x # b) = dropWhile P a @ x # b"
  by (induction a) simp_all

lemma firstComp_below:
  "firstComp (q @ slash # c) = (if firstComp q = [] then firstComp (slash # c) else firstComp q)"
  "afterComp (q @ slash # c) = (if firstComp q = [] then afterComp (slash # c) else afterComp q @ slash # c)"
proof -
  have "firstComp (q @ slash # c) = (if firstComp q = [] then firstComp (slash # c) else firstComp q) \<and>
      afterComp (q @ slash # c) = (if firstComp q = [] then afterComp (slash # c) else afterComp q @ slash # c)"
  proof (cases "firstComp q = []")
    case True
    have "hd (dropWhile (\<lambda>c. c = slash) q) \<noteq> slash" if "dropWhile (\<lambda>c. c = slash) q \<noteq> []"
      using hd_dropWhile [OF that] .
    with True have "dropWhile (\<lambda>c. c = slash) q = []"
      unfolding firstComp_def by (cases "dropWhile (\<lambda>c. c = slash) q") auto
    then have "dropWhile (\<lambda>c. c = slash) (q @ slash # c) = dropWhile (\<lambda>c. c = slash) (slash # c)"
      by (simp add: dropWhile_append2 dropWhile_eq_Nil_conv)
    with True show ?thesis by (simp only: firstComp_def afterComp_def if_True simp_thms)
  next
    case False
    let ?d = "dropWhile (\<lambda>c. c = slash) q"
    have "?d \<noteq> []" using False unfolding firstComp_def by (metis takeWhile.simps(1))
    then obtain x where "x \<in> set q" "x \<noteq> slash" by (auto simp: dropWhile_eq_Nil_conv)
    then have d: "dropWhile (\<lambda>c. c = slash) (q @ slash # c) = ?d @ slash # c" by (rule dropWhile_append1)
    show ?thesis using False by (simp add: firstComp_def afterComp_def d takeWhile_stop)
  qed
  then show "firstComp (q @ slash # c) = (if firstComp q = [] then firstComp (slash # c) else firstComp q)"
    "afterComp (q @ slash # c) = (if firstComp q = [] then afterComp (slash # c) else afterComp q @ slash # c)"
    by blast+
qed

lemma linkWalk_below:
  assumes "linkWalk A n dest q = Inr cs" and "dirTree A dest"
  shows "linkWalk A n dest (q @ slash # c) = Inl ENOTDIR \<or>
    (dirTree A cs \<and> (\<exists>m. linkWalk A n dest (q @ slash # c) = linkWalk A m cs (slash # c)))"
  using assms
proof (induction A n dest q rule: linkWalk.induct)
  case (1 A n dest q)
  let ?c = "firstComp q" and ?rest = "afterComp q"
  let ?p = "dest @ [?c]"
  note q = linkWalk.simps [of A n dest q] and below = linkWalk.simps [of A n dest "q @ slash # c"] firstComp_below [of q c]
  show ?case
  proof (cases "?c = [] \<or> ?c = dot \<or> ?c = dotdot")
    case True
    consider (none) "?c = []" | (here) "?c = dot" | (up) "?c = dotdot" using True by blast
    then show ?thesis
    proof cases
      case none
      have "linkWalk A n dest (q @ slash # c) = linkWalk A n dest (slash # c)"
        unfolding below linkWalk.simps [of A n dest "slash # c"] by (simp add: none)
      with none "1.prems" q show ?thesis by auto
    next
      case here
      then have "linkWalk A n dest ?rest = Inr cs" using "1.prems"(1) by (simp add: q dot_def)
      with "1.IH"(1) [OF _ here this "1.prems"(2)] here show ?thesis unfolding below by (simp add: dot_def)
    next
      case up
      then have "linkWalk A n (butlast dest) ?rest = Inr cs" using "1.prems"(1) by (simp add: q dot_def dotdot_def)
      with "1.IH"(2) [OF _ _ up this dirTree_butlast [OF "1.prems"(2)]] up show ?thesis
        unfolding below by (simp add: dot_def dotdot_def)
    qed
  next
    case False
    then have c: "okComp ?c" by (auto intro: okComp_firstComp)
    show ?thesis
    proof (cases "A ?p")
      case None
      with False "1.prems"(1) show ?thesis by (simp add: q)
    next
      case (Some e)
      show ?thesis
      proof (cases e)
        case VDir
        with Some "1.prems"(2) c have "dirTree A ?p" by (simp add: dirTree_snoc)
        moreover have "linkWalk A n ?p ?rest = Inr cs" using False "1.prems"(1) Some VDir by (simp add: q)
        ultimately show ?thesis using "1.IH"(3) False Some VDir unfolding below by auto
      next
        case (VFile d)
        with False Some show ?thesis unfolding below by simp
      next
        case (VLink t)
        with False Some "1.prems"(1) have l: "\<not> n + 1 > maxLinksWalked"
          "linkWalk A (n + 1) (if isAbs t then [] else dest) (t @ ?rest) = Inr cs"
          by (auto simp: q simp del: isAbs_iff split: if_splits)
        have "dirTree A (if isAbs t then [] else dest)" using "1.prems"(2) by (auto simp: dirTree_def)
        with "1.IH"(4) [of "VLink t" t] l False Some VLink show ?thesis unfolding below by (auto simp del: isAbs_iff)
      qed
    qed
  qed
qed

text \<open>What is admitted lies in an allowed directory and below directories that are no links.\<close>

lemma admitted_place:
  assumes "admitted env g (absFs fs) raw = Inr p"
  shows "canonPath p" "dirsAbove fs (pathComps p)" "inside (dirs g) (pathComps p)"
proof -
  let ?x = "expandTilde env raw"
  let ?p = "Clean ?x" and ?A = "absFs fs"
  have "canonPath p \<and> dirsAbove fs (pathComps p) \<and> inside (dirs g) (pathComps p)"
  proof (cases "treeLinks ?A ?p")
    case (Inr cs)
    with assms have "p = absPath cs" "inside (dirs g) cs" by (auto simp: admitted_def Let_def split: if_splits)
    with treeLinks_ok [OF Inr] show ?thesis by (simp add: realPath_def)
  next
    case (Inl n)
    with assms obtain cs where cs: "n = ENOENT" "treeLinks ?A (Dir ?p) = Inr cs" "inside (dirs g) cs" "p = absPath (cs @ [Base ?p])"
      "take 1 ?x = [slash]"
      by (cases n) (auto simp: admitted_def Let_def split: if_splits sum.splits)
    from cs(5) have "isAbs ?x" by (cases ?x) auto
    then have "canonPath ?p" by (rule canonPath_Clean)
    then obtain ps where ps: "list_all okComp ps" "?p = absPath ps" by (rule canonPathE)
    have "ps \<noteq> []"
    proof
      assume "ps = []"
      moreover have "linkWalk ?A 0 [] [slash] = Inr []" by (subst linkWalk.simps) (simp add: firstComp_def)
      ultimately show False using Inl ps(2) by (simp add: treeLinks_def)
    qed
    then obtain qs c where qs: "ps = qs @ [c]" by (cases ps rule: rev_cases) auto
    have b: "Base ?p = c" "Dir ?p = absPath qs" "okComp c" using ps qs by (simp_all add: Base_absPath Dir_absPath)
    have "realDir fs cs"
    proof (cases "qs = []")
      case True
      moreover have "linkWalk ?A 0 [] [slash] = Inr []" by (subst linkWalk.simps) (simp add: firstComp_def)
      ultimately show ?thesis using cs(2) b(2) by (simp add: treeLinks_def)
    next
      case False
      have "dirTree ?A []" by (simp add: dirTree_def)
      with linkWalk_below [of ?A 0 "[]" "absPath qs" cs c] cs(1,2) Inl b(2) ps(2) qs False show ?thesis
        by (auto simp: treeLinks_def absPath_snoc dirTree_real)
    qed
    moreover have "inside (dirs g) (cs @ [c])" using cs(3) by (auto simp: inside_def list_ex_iff)
    ultimately show ?thesis using cs(4) b treeLinks_ok(1) [OF cs(2)] by (simp add: dirsAbove_snoc)
  qed
  then show "canonPath p" "dirsAbove fs (pathComps p)" "inside (dirs g) (pathComps p)" by blast+
qed

section \<open>Properties\<close>

text \<open>C35. The verdict: on a machine at rest \<open>Validate\<close> answers for every path, of any form and through any links,
  what \<open>admitted\<close> says of the tree of names, with the error of the first gate that fails, and changes no file.\<close>

theorem validate_exact:
  assumes "h_sched h = []" and "list_all canonPath (dirs g)"
  shows "\<exists>h'. run_state (Validate env g raw) h = (admitted env g (absFs (h_fs h)) raw, h') \<and> absFs (h_fs h') = absFs (h_fs h)"
proof -
  obtain r h' where run: "run_state (Validate env g raw) h = (r, h')" by fastforce
  have "rested h h'" using restwalk.rel_Validate run by (rule state_io_relD)
  then have "absFs (h_fs h') = absFs (h_fs h)" using assms(1) by (auto simp: rested_def later_simps)
  with run Validate_tree [OF assms, of env raw] show ?thesis by auto
qed

lemma validate_exact_witness:
  "\<exists>h1 h2 h3. run_state (Validate demoEnv demoGuard ''/l/../l/new'') demoHost = (Inr ''/d/new'', h1) \<and>
     run_state (Validate demoEnv demoGuard ''/d/f/x'') h1 = (Inl (ENotExist ''/d/f/x''), h2) \<and>
     run_state (Validate demoEnv demoGuard ''/l/n/x'') demoHost = (Inl (EParentMissing ''/l/n''), h3)"
proof -
  have q: "h_sched demoHost = []" by (simp add: demoHost_def emptyHost_def)
  have c: "list_all canonPath (dirs demoGuard)" by code_simp
  let ?A = "absFs (h_fs demoHost)"
  have a: "admitted demoEnv demoGuard ?A ''/l/../l/new'' = Inr ''/d/new''"
    "admitted demoEnv demoGuard ?A ''/d/f/x'' = Inl (ENotExist ''/d/f/x'')"
    "admitted demoEnv demoGuard ?A ''/l/n/x'' = Inl (EParentMissing ''/l/n'')"
    by code_simp+
  from validate_exact [OF q c, of demoEnv "''/l/../l/new''"] obtain h1 where h1:
    "run_state (Validate demoEnv demoGuard ''/l/../l/new'') demoHost = (Inr ''/d/new'', h1)" "absFs (h_fs h1) = ?A"
    by (auto simp: a)
  have "rested demoHost h1" using restwalk.rel_Validate h1(1) by (rule state_io_relD)
  with q have "h_sched h1 = []" by (simp add: rested_def)
  from validate_exact [OF this c, of demoEnv "''/d/f/x''"] validate_exact [OF q c, of demoEnv "''/l/n/x''"] h1 show ?thesis
    by (auto simp: a)
qed

end
