(* ===== verification/QuietTools.thy ===== *)
theory QuietTools
  imports Admission WriteAtomic ToolServer QuietWalk
begin

text \<open>
  The file tools on a machine at rest: no other process, no fault, no expiry. Every call then succeeds, so
  the triples here, in the calculus of \<open>Atomic\<close>, state what a handler does and not only what it may do. Time
  still passes: each system call takes a tick of the clock, and a file's modification time is the clock of
  its last write.
\<close>

section \<open>A machine at rest\<close>

definition still :: "bytes list \<Rightarrow> (bytes \<Rightarrow> markers) \<Rightarrow> host \<Rightarrow> bool" where
  "still ds s h \<longleftrightarrow> sole ds h \<and> h_sched h = [] \<and> h_ctx h = None \<and> h_sess h = s"

text \<open>Only the name \<open>cs\<close>, and inodes allocated since, have changed.\<close>

definition touched :: "bytes list \<Rightarrow> fsys \<Rightarrow> fsys \<Rightarrow> bool" where
  "touched cs fs fs' \<longleftrightarrow> fs_clock fs \<le> fs_clock fs' \<and> fs_next fs \<le> fs_next fs' \<and>
     (\<forall>q. q \<noteq> cs \<longrightarrow> nodeAt fs' q = nodeAt fs q) \<and> (\<forall>i < fs_next fs. fs_inodes fs' i = fs_inodes fs i)"

lemma touched_later: "later fs fs' \<Longrightarrow> touched cs fs fs'"
  using later_clock [of fs fs'] by (auto simp: touched_def later_simps)

lemma touched_new: "cs \<noteq> [] \<Longrightarrow> touched cs fs (setNode cs n (newInode m fs))"
  by (simp add: touched_def newInode_def)

lemma touched_trans [trans]: "touched cs a b \<Longrightarrow> touched cs b c \<Longrightarrow> touched cs a c"
  by (auto simp: touched_def)

lemma touched_kept:
  assumes "touched cs fs fs'" and "wfFs fs" and "q \<noteq> cs"
  shows "nodeAt fs' q = nodeAt fs q" "nodeAt fs q = Some (NFile i) \<Longrightarrow> fs_inodes fs' i = fs_inodes fs i"
  using assms wfFsD [of fs q i] by (auto simp: touched_def)

lemma still_tick: "still ds s h \<Longrightarrow> still ds s (applyTick quietTick h)"
  by (auto simp: still_def sole_def applyTick_quiet)

lemma still_fs:
  assumes "still ds s h" and "\<And>q. absFs (h_fs h) q = Some VDir \<Longrightarrow> absFs fs q = Some VDir"
  shows "still ds s (h\<lparr>h_fs := fs, h_fxlog := l\<rparr>)"
proof -
  have "realDir (h_fs h) cs \<Longrightarrow> realDir fs cs" for cs using assms(2) by (auto simp: realDir_abs dirsAbove_abs)
  with assms(1) show ?thesis by (auto simp: still_def sole_def list_all_iff)
qed

section \<open>Triples of calls that succeed\<close>

definition succeeds :: "('a \<Rightarrow> fsys \<Rightarrow> bool) \<Rightarrow> (goerr, 'a) result \<Rightarrow> fsys \<Rightarrow> bool" where
  "succeeds Q r fs \<longleftrightarrow> (\<exists>v. r = Inr v \<and> Q v fs)"

lemma quiet_seq:
  assumes "tripleOn S P m (succeeds Q)" and "\<And>x. tripleOn S (Q x) (f x) R"
  shows "tripleOn S P (bindE m f) R" "tripleOn S P (m \<bind> case_sum g f) R"
proof -
  have f: "tripleOn S (succeeds Q r) (case_sum g f r) R" for g r
    using assms(2) by (cases r) (auto simp: succeeds_def tripleOn_def)
  show "tripleOn S P (bindE m f) R"
    unfolding bindE_def by (rule triple_bind [OF assms(1)], rule f)
  show "tripleOn S P (m \<bind> case_sum g f) R" by (rule triple_bind [OF assms(1)], rule f)
qed

lemma quiet_ignore: "tripleOn S P m (succeeds (\<lambda>_. Q)) \<Longrightarrow> tripleOn S P (ignore m) (\<lambda>_. Q)"
  by (rule triple_ignore, erule triple_conseq) (auto simp: succeeds_def)

lemma quiet_ok: "(\<And>fs. P fs \<Longrightarrow> Q v fs) \<Longrightarrow> tripleOn S P (ok v) (succeeds Q)"
  by (rule triple_ret) (simp add: succeeds_def)

lemma quiet_mapErr: "tripleOn S P m (succeeds Q) \<Longrightarrow> tripleOn S P (mapErr g m) (succeeds Q)"
  unfolding mapErr_def by (erule quiet_seq(2)) (rule quiet_ok)

text \<open>A system call: its operation, one tick later.\<close>

lemma quiet_callPart:
  assumes "\<And>fs. P fs \<Longrightarrow> \<exists>v fs' fx. op None (fs\<lparr>fs_clock := fs_clock fs + 1\<rparr>) = (Inr v, fs', fx) \<and> Q v fs' \<and>
      (\<forall>q. absFs fs q = Some VDir \<longrightarrow> absFs fs' q = Some VDir)"
  shows "tripleOn (still ds s) P (syscallPart op) (succeeds Q)"
proof (rule tripleI)
  fix h r h' assume s: "still ds s h" and P: "P (h_fs h)" and run: "run_state (syscallPart op) h = (r, h')"
  from assms [OF P] obtain v fs' fx where op: "op None (h_fs (applyTick quietTick h)) = (Inr v, fs', fx)" "Q v fs'"
      "\<forall>q. absFs (h_fs h) q = Some VDir \<longrightarrow> absFs fs' q = Some VDir"
    by (auto simp: applyTick_quiet)
  from s run have "r = Inr v \<and> h' = (applyTick quietTick h)\<lparr>h_fs := fs', h_fxlog := h_fxlog (applyTick quietTick h) @ fx\<rparr>"
    by (simp add: syscallPart_def nextTick_def still_def quietTick_def run_runOp op(1) [unfolded quietTick_def])
  moreover have "still ds s ((applyTick quietTick h)\<lparr>h_fs := fs', h_fxlog := l\<rparr>)" for l
    by (rule still_fs [OF still_tick [OF s]]) (use op(3) in \<open>simp add: applyTick_quiet\<close>)
  ultimately show "still ds s h' \<and> succeeds Q r (h_fs h')" using op(2) by (simp add: succeeds_def)
qed

lemmas quiet_call = quiet_callPart [where op = "\<lambda>_. op" for op, folded syscall_def]

lemma quiet_sync:
  "tripleOn (still ds s) (later fs0) (fSync f) (succeeds (\<lambda>_. later fs0))"
  "tripleOn (still ds s) (later fs0) (fClose f) (succeeds (\<lambda>_. later fs0))"
  unfolding fSync_def fClose_def by (rule quiet_call; auto simp: okOp_def)+

text \<open>Retrying what succeeds does it once.\<close>

lemma quiet_retry:
  assumes "tripleOn (still ds s) P op (succeeds Q)"
  shows "tripleOn (still ds s) P (retryPlain op) (succeeds Q)" "tripleOn (still ds s) P (runFS op) (succeeds Q)"
proof -
  have "tripleOn (still ds s) P (Do onRetry op) (succeeds Q)"
  proof (rule tripleI)
    fix h r h' assume s: "still ds s h" and P: "P (h_fs h)" and run: "run_state (Do onRetry op) h = (r, h')"
    obtain r1 h1 where op: "run_state op h = (r1, h1)" by fastforce
    from tripleD [OF assms op s P] obtain v where v: "r1 = Inr v" "still ds s h1" "Q v (h_fs h1)" by (auto simp: succeeds_def)
    with run op have "r = Inr v \<and> h' = h1\<lparr>h_warm := True\<rparr>"
      by (simp add: Do_def retryDo_def ctxErrAt_def markSucceeded_def)
    with v show "still ds s h' \<and> succeeds Q r (h_fs h')" by (simp add: succeeds_def still_def sole_def)
  qed
  then show "tripleOn (still ds s) P (retryPlain op) (succeeds Q)" "tripleOn (still ds s) P (runFS op) (succeeds Q)"
    by (simp_all add: retryPlain_def runFS_def quiet_mapErr)
qed

text \<open>The root of the owner can be opened, if it is not open already.\<close>

lemma quiet_resolve:
  assumes "owner ds p \<noteq> []" and "still ds s h"
  obtains h1 where "run_state (resolve ds p) h = (Inr (pathComps (owner ds p), relName (owner ds p) p), h1)"
    "still ds s h1" "later (h_fs h) (h_fs h1)"
proof (cases "map_of (h_roots h) (owner ds p)")
  case (Some base)
  with assms(1) have "run_state (resolve ds p) h = (Inr (base, relName (owner ds p) p), h)" by (simp add: resolve_def Let_def)
  with resolve_sole [OF this] assms(2) that show ?thesis by (auto simp: still_def)
next
  case None
  let ?d = "owner ds p" and ?h1 = "applyTick quietTick h"
  have d: "?d \<in> set ds" "canonPath ?d" "realDir (h_fs h) (pathComps ?d)"
    using owner_in [OF assms(1)] assms(2) by (auto simp: still_def sole_def list_all_iff)
  then have "kernelPath (h_fs ?h1) True ?d = Inr (pathComps ?d)"
    using kernelPath_plain [of "h_fs ?h1" "pathComps ?d" True] by (auto simp: realDir_def canonPath_def applyTick_quiet)
  moreover have "opOpenDir (pathComps ?d) (h_fs ?h1) = (Inr (pathComps ?d), h_fs ?h1, [])"
    using d(3) by (auto simp: opOpenDir_def okOp_def realDir_def applyTick_quiet)
  ultimately have o: "run_state (OpenRoot ?d) h = (Inr (pathComps ?d), ?h1)"
    using assms(2) by (simp add: OpenRoot_def run_syscall_quiet still_def run_runOp atKernel_def)
  let ?h2 = "?h1\<lparr>h_roots := AList.update ?d (pathComps ?d) (h_roots ?h1), h_opened := (?d, pathComps ?d) # h_opened ?h1\<rparr>"
  have "run_state (resolve ds p) h = (Inr (pathComps ?d, relName ?d p), ?h2)"
    using assms(1) None o by (simp add: resolve_def Let_def run_bindE cacheRoot_def)
  moreover have "still ds s ?h2"
    using still_tick [OF assms(2)] d(1) set_update_subset [of ?d "pathComps ?d" "h_roots ?h1"]
    by (fastforce simp: still_def sole_def list_all_iff)
  ultimately show ?thesis using that by (simp add: applyTick_quiet)
qed

lemma quiet_WithRoot:
  assumes "tripleOn (still ds s) P (op (rootOf ds p) (relOf ds p)) Q" and "owner ds p \<noteq> []"
    and "\<And>fs fs'. P fs \<Longrightarrow> later fs fs' \<Longrightarrow> P fs'"
  shows "tripleOn (still ds s) P (WithRoot ds p op) Q"
proof (rule tripleI)
  fix h r h' assume s: "still ds s h" and P: "P (h_fs h)" and run: "run_state (WithRoot ds p op) h = (r, h')"
  let ?h0 = "h\<lparr>h_lease := h_lease h + 1\<rparr>"
  have "still ds s ?h0" using s by (simp add: still_def sole_def)
  from quiet_resolve [OF assms(2) this] obtain h1 where
    h1: "run_state (resolve ds p) ?h0 = (Inr (rootOf ds p, relOf ds p), h1)" "still ds s h1" "later (h_fs h) (h_fs h1)"
    by auto
  obtain r2 h2 where op: "run_state (op (rootOf ds p) (relOf ds p)) h1 = (r2, h2)" by fastforce
  from run h1(1) op have "r = r2" "h' = h2\<lparr>h_lease := h_lease h2 - 1\<rparr>" by (auto simp: run_WithRoot)
  with tripleD [OF assms(1) op h1(2) assms(3) [OF P h1(3)]] show "still ds s h' \<and> Q r (h_fs h')"
    by (simp add: still_def sole_def)
qed

section \<open>Looking at a file\<close>

text \<open>A file that the tools can reach and replace: its directories are real, it is no temporary name, and the
  temporary name of a quiet machine is free.\<close>

definition quietTemp :: "bytes \<Rightarrow> bytes list" where
  "quietTemp p = tempPath (pathComps p) (t_rand quietTick)"

definition inPlace :: "bytes list \<Rightarrow> bytes \<Rightarrow> nat \<Rightarrow> fsys \<Rightarrow> bool" where
  "inPlace ds p i fs \<longleftrightarrow> placed ds p \<and> tidy (pathComps p) fs \<and> nodeAt fs (pathComps p) = Some (NFile i) \<and>
     nodeAt fs (quietTemp p) = None"

lemma inPlaceD:
  assumes "inPlace ds p i fs"
  shows "placed ds p" "owner ds p \<noteq> []" "wfFs fs" "dirsAbove fs (pathComps p)" "nodeAt fs (pathComps p) = Some (NFile i)"
    "nodeAt fs (quietTemp p) = None" "pathComps p \<noteq> []" "quietTemp p \<noteq> pathComps p" "quietTemp p \<noteq> []"
  using assms tidy_temp [of "pathComps p" fs "t_rand quietTick"]
  by (auto simp: inPlace_def placed_def tidy_def quietTemp_def tempPath_def)

lemma inPlace_root:
  assumes "inPlace ds p i fs"
  shows "rootPath fs (rootOf ds p) follow (relOf ds p) = Inr (pathComps p)"
proof -
  from inPlaceD(1) [OF assms] obtain d where d: "d = owner ds p" "canonPath d" "withinPrefix d p" "canonPath p"
    by (rule placedE)
  show ?thesis unfolding d(1) [symmetric]
    by (rule rootPath_real) (use d inPlaceD [OF assms] in simp_all)
qed

lemma inPlace_later: "inPlace ds p i fs0 \<Longrightarrow> later fs0 fs \<Longrightarrow> inPlace ds p i fs"
  by (auto simp: inPlace_def tidy_def later_simps)

lemma quiet_look:
  assumes "inPlace ds p i fs0" and "\<And>fs. later fs0 fs \<Longrightarrow> op (pathComps p) fs = (Inr v, fs, [])"
  shows "tripleOn (still ds s) (later fs0) (syscall (atRoot (rootOf ds p) True (relOf ds p) op))
    (succeeds (\<lambda>r fs. r = v \<and> later fs0 fs))"
proof (rule quiet_call)
  fix fs assume l: "later fs0 fs"
  then have l1: "later fs0 (fs\<lparr>fs_clock := fs_clock fs + 1\<rparr>)" by simp
  from inPlace_root [OF inPlace_later [OF assms(1) l1]] assms(2) [OF l1] l1
  show "\<exists>r fs' fx. atRoot (rootOf ds p) True (relOf ds p) op (fs\<lparr>fs_clock := fs_clock fs + 1\<rparr>) = (Inr r, fs', fx) \<and>
      (r = v \<and> later fs0 fs') \<and> (\<forall>q. absFs fs q = Some VDir \<longrightarrow> absFs fs' q = Some VDir)"
    by (simp add: atRoot_def)
qed

lemma quiet_rStat:
  "inPlace ds p i fs0 \<Longrightarrow> tripleOn (still ds s) (later fs0) (rStat (rootOf ds p) (relOf ds p))
    (succeeds (\<lambda>r fs. r = infoOf fs0 (NFile i) \<and> later fs0 fs))"
  unfolding rStat_def using inPlaceD(5) [of ds p i fs0] by (intro quiet_look) (simp_all add: opStat_def okOp_def later_simps)

lemma quiet_rReadFile:
  "inPlace ds p i fs0 \<Longrightarrow> tripleOn (still ds s) (later fs0) (rReadFile (rootOf ds p) (relOf ds p))
    (succeeds (\<lambda>r fs. r = i_data (fs_inodes fs0 i) \<and> later fs0 fs))"
  unfolding rReadFile_def using inPlaceD(5) [of ds p i fs0] by (intro quiet_look) (simp_all add: opReadFile_def okOp_def later_simps)

lemma quiet_under:
  assumes "inPlace ds p i fs0" and "tripleOn (still ds s) (later fs0) (op (rootOf ds p) (relOf ds p)) (succeeds Q)"
  shows "tripleOn (still ds s) (later fs0) (runFS (WithRoot ds p op)) (succeeds Q)"
    "tripleOn (still ds s) (later fs0) (retryPlain (WithRoot ds p op)) (succeeds Q)"
proof -
  have "tripleOn (still ds s) (later fs0) (WithRoot ds p op) (succeeds Q)"
    using later_trans by (intro quiet_WithRoot assms(2) inPlaceD(2) [OF assms(1)])
  from quiet_retry [OF this] show "tripleOn (still ds s) (later fs0) (runFS (WithRoot ds p op)) (succeeds Q)"
    "tripleOn (still ds s) (later fs0) (retryPlain (WithRoot ds p op)) (succeeds Q)"
    by blast+
qed

definition snapOf :: "fsys \<Rightarrow> nat \<Rightarrow> snap" where
  "snapOf fs i = \<lparr>sn_content = i_data (fs_inodes fs i), sn_size = int (length (i_data (fs_inodes fs i))),
     sn_mtime = i_mtime (fs_inodes fs i)\<rparr>"

lemma infoOf_file: "infoOf fs (NFile i) = \<lparr>fi_kind = KFile, fi_size = int (length (i_data (fs_inodes fs i))),
    fi_mtime = i_mtime (fs_inodes fs i), fi_mode = i_mode (fs_inodes fs i)\<rparr>"
  by (simp add: infoOf_def)

lemma triple_given: "(\<And>fs. P fs \<Longrightarrow> B) \<Longrightarrow> (B \<Longrightarrow> tripleOn S P m Q) \<Longrightarrow> tripleOn S P m Q"
  unfolding tripleOn_def by blast

lemma quiet_readSnap:
  assumes "inPlace (c_dirs c) p i fs0"
  shows "tripleOn (still (c_dirs c) s) (later fs0) (readSnap c p) (succeeds (\<lambda>r fs. r = snapOf fs0 i \<and> later fs0 fs))"
  unfolding readSnap_def
proof (intro quiet_mapErr quiet_under [OF assms])
  show "tripleOn (still (c_dirs c) s) (later fs0) (snapOnce p (rootOf (c_dirs c) p) (relOf (c_dirs c) p))
      (succeeds (\<lambda>r fs. r = snapOf fs0 i \<and> later fs0 fs))"
    unfolding snapOnce_def
    by (rule quiet_seq [OF quiet_rStat [OF assms]], rule triple_pure, hypsubst)
      (simp add: infoOf_file IsDir_def, rule quiet_seq [OF quiet_rReadFile [OF assms]], rule triple_pure, hypsubst,
        rule quiet_ok, simp add: snapOf_def)
qed

lemma quiet_statFile:
  assumes "inPlace (c_dirs c) p i fs0"
  shows "tripleOn (still (c_dirs c) s) (later fs0) (statFile c p)
    (succeeds (\<lambda>r fs. r = (sn_size (snapOf fs0 i), sn_mtime (snapOf fs0 i), i_mode (fs_inodes fs0 i)) \<and> later fs0 fs))"
  unfolding statFile_def
  by (rule quiet_seq [OF quiet_under(1) [where op = rStat, OF assms quiet_rStat [OF assms]]], rule triple_pure, hypsubst, rule quiet_ok)
    (simp add: infoOf_file snapOf_def)

section \<open>Replacing a file\<close>

text \<open>The temporary file on its way, and the file that has taken its place.\<close>

definition drafted :: "bytes \<Rightarrow> fsys \<Rightarrow> nat \<Rightarrow> bytes \<Rightarrow> fsys \<Rightarrow> bool" where
  "drafted p fs0 j d fs \<longleftrightarrow> wfFs fs \<and> absFs fs = (absFs fs0)(quietTemp p \<mapsto> VFile d) \<and> ownFile fs (quietTemp p) j d \<and>
     fs_clock fs0 < i_mtime (fs_inodes fs j) \<and> i_mtime (fs_inodes fs j) \<le> fs_clock fs \<and>
     fs_next fs0 \<le> j \<and> touched (quietTemp p) fs0 fs"

definition replaced :: "bytes list \<Rightarrow> bytes \<Rightarrow> fsys \<Rightarrow> bytes \<Rightarrow> fsys \<Rightarrow> bool" where
  "replaced ds p fs0 d fs \<longleftrightarrow> absFs fs = (absFs fs0)(pathComps p \<mapsto> VFile d) \<and> touched (pathComps p) fs0 fs \<and>
     (\<exists>j. inPlace ds p j fs \<and> fs_clock fs0 < i_mtime (fs_inodes fs j) \<and> i_mtime (fs_inodes fs j) \<le> fs_clock fs)"

lemma drafted_later: "drafted p fs0 j d fs \<Longrightarrow> later fs fs' \<Longrightarrow> drafted p fs0 j d fs'"
  using later_clock [of fs fs'] touched_trans [OF _ touched_later] by (auto simp: drafted_def later_simps)

lemma drafted_dirs:
  assumes "inPlace ds p i fs0" and "drafted p fs0 j d fs"
  shows "dirsAbove fs (pathComps p)"
proof -
  have "absFs fs q = Some VDir" if "absFs fs0 q = Some VDir" for q
  proof -
    from that inPlaceD(6) [OF assms(1)] have "q \<noteq> quietTemp p" by (metis absFs_None option.distinct(1))
    with that assms(2) show ?thesis by (simp add: drafted_def)
  qed
  with inPlaceD(4) [OF assms(1)] show ?thesis by (simp add: dirsAbove_abs)
qed

lemma drafted_paths:
  assumes "inPlace ds p i fs0" and "drafted p fs0 j d fs"
  shows "rootPath fs (rootOf ds p) False (relOf ds p) = Inr (pathComps p)"
    "rootPath fs (rootOf ds p) follow (tempRel ds p (t_rand quietTick)) = Inr (quietTemp p)"
proof -
  note r = placed_rootPath [OF inPlaceD(1) [OF assms(1)] drafted_dirs [OF assms]]
  have "\<forall>t. nodeAt fs (quietTemp p) \<noteq> Some (NLink t)" using assms(2) by (simp add: drafted_def ownFile_def)
  then show "rootPath fs (rootOf ds p) False (relOf ds p) = Inr (pathComps p)"
    "rootPath fs (rootOf ds p) follow (tempRel ds p (t_rand quietTick)) = Inr (quietTemp p)"
    using r by (cases follow; simp add: quietTemp_def)+
qed

lemma drafted_tick: "drafted p fs0 j d fs \<Longrightarrow> drafted p fs0 j d (fs\<lparr>fs_clock := fs_clock fs + 1\<rparr>)"
  by (erule drafted_later) simp

lemma quiet_create:
  assumes "inPlace ds p i fs0"
  shows "tripleOn (still ds s) (later fs0) (createTempIn (rootOf ds p) (Dir (relOf ds p)))
    (succeeds (\<lambda>(t, f) fs. (t = tempRel ds p (t_rand quietTick) \<and> hd_pos f = 0) \<and> drafted p fs0 (hd_ino f) [] fs))"
proof -
  have suf: "tripleOn (still ds s) (later fs0) randomSuffix (\<lambda>suf fs. suf = hexEncode (t_rand quietTick) \<and> later fs0 fs)"
    by (rule tripleI) (auto simp: randomSuffix_def nextTick_def still_def sole_def applyTick_quiet)
  have make: "tripleOn (still ds s) (later fs0) (rCreateExcl (rootOf ds p) (tempRel ds p (t_rand quietTick)) 384)
      (succeeds (\<lambda>f fs. hd_pos f = 0 \<and> drafted p fs0 (hd_ino f) [] fs))"
    unfolding rCreateExcl_def
  proof (rule quiet_call)
    fix fs assume l: "later fs0 fs"
    let ?fs = "fs\<lparr>fs_clock := fs_clock fs + 1\<rparr>"
    have l1: "later fs0 ?fs" using l by simp
    note q = inPlaceD [OF inPlace_later [OF assms l1]]
    have r: "rootPath ?fs (rootOf ds p) False (tempRel ds p (t_rand quietTick)) = Inr (quietTemp p)"
      using placed_rootPath(2) [OF q(1,4)] by (simp add: quietTemp_def)
    obtain f fs' where o: "opCreateExcl 384 (quietTemp p) ?fs = (Inr f, fs', [FxCreate (quietTemp p)])"
        "fs' = setNode (quietTemp p) (NFile (fs_next ?fs)) (newInode 384 ?fs)" "f = \<lparr>hd_ino = fs_next ?fs, hd_path = quietTemp p, hd_pos = 0\<rparr>"
      using q(6) by (simp add: opCreateExcl_def)
    note a = opCreateExcl_abs [OF o(1) q(3)]
    have "touched (quietTemp p) fs0 fs'" using touched_trans [OF touched_later [OF l1] touched_new [OF q(9)]] unfolding o(2) .
    then have "drafted p fs0 (hd_ino f) [] fs'"
      using a(2-4) later_clock [OF l] by (simp add: drafted_def later_simps [OF l]) (simp add: o(2,3) newInode_def later_simps [OF l])
    moreover have "absFs fs q = Some VDir \<longrightarrow> absFs fs' q = Some VDir" for q using a(1,2) by auto
    ultimately show "\<exists>f fs' fx. atRoot (rootOf ds p) False (tempRel ds p (t_rand quietTick)) (opCreateExcl 384) ?fs = (Inr f, fs', fx) \<and>
        (hd_pos f = 0 \<and> drafted p fs0 (hd_ino f) [] fs') \<and> (\<forall>q. absFs fs q = Some VDir \<longrightarrow> absFs fs' q = Some VDir)"
      using r o(1,3) by (simp add: atRoot_def)
  qed
  have eight: "tempAttempts = Suc 7" by (simp add: tempAttempts_def)
  show ?thesis
    unfolding createTempIn_def eight tempLoop.simps
    by (rule triple_bind [OF suf], rule triple_pure, hypsubst, rule quiet_seq(2) [OF make], rule quiet_ok) simp
qed

lemma quiet_write:
  "tripleOn (still ds s) (\<lambda>fs. hd_pos f = 0 \<and> drafted p fs0 (hd_ino f) [] fs) (fWrite f data)
    (succeeds (\<lambda>_. drafted p fs0 (hd_ino f) data))"
  unfolding fWrite_def
proof (rule quiet_callPart)
  fix fs assume P: "hd_pos f = 0 \<and> drafted p fs0 (hd_ino f) [] fs"
  let ?fs = "fs\<lparr>fs_clock := fs_clock fs + 1\<rparr>"
  have d: "drafted p fs0 (hd_ino f) [] ?fs" using P by (simp add: drafted_tick)
  then have own: "ownFile ?fs (quietTemp p) (hd_ino f) []" by (simp add: drafted_def)
  obtain r fs' fx where o: "opWrite f data None ?fs = (r, fs', fx)" by (metis prod_cases3)
  have m: "i_mtime (fs_inodes fs' (hd_ino f)) = fs_clock ?fs" "fs_clock fs' = fs_clock ?fs"
    using o by (auto simp: opWrite_def Let_def)
  have same: "fs_next fs' = fs_next ?fs" "k \<noteq> hd_ino f \<Longrightarrow> fs_inodes fs' k = fs_inodes ?fs k" for k
    using o by (auto simp: opWrite_def Let_def)
  from opWrite_abs [OF own _ o] P have w: "r = Inr (f\<lparr>hd_pos := length data\<rparr>)" "absFs fs' = (absFs ?fs)(quietTemp p \<mapsto> VFile data)"
    "ownFile fs' (quietTemp p) (hd_ino f) data" "wfFs fs' = wfFs ?fs" "nodeAt fs' = nodeAt ?fs"
    by auto
  have "touched (quietTemp p) fs0 fs'"
    unfolding touched_def
  proof (intro conjI allI impI)
    show "fs_inodes fs' i = fs_inodes fs0 i" if "i < fs_next fs0" for i
      using d same(2) [of i] that by (auto simp: drafted_def touched_def)
  qed (use d m(2) same(1) in \<open>simp_all add: w(5) drafted_def touched_def\<close>)
  then have "drafted p fs0 (hd_ino f) data fs'" using d w m P by (simp add: drafted_def)
  moreover have "absFs fs' q = Some VDir" if "absFs fs q = Some VDir" for q using that w(5) by (simp add: absFs_VDir)
  ultimately show "\<exists>v fs' fx. opWrite f data None ?fs = (Inr v, fs', fx) \<and>
      drafted p fs0 (hd_ino f) data fs' \<and> (\<forall>q. absFs fs q = Some VDir \<longrightarrow> absFs fs' q = Some VDir)"
    using o w(1) by simp
qed

lemma quiet_chmod:
  assumes "inPlace ds p i fs0"
  shows "tripleOn (still ds s) (drafted p fs0 j d) (rChmod (rootOf ds p) (tempRel ds p (t_rand quietTick)) mode)
    (succeeds (\<lambda>_. drafted p fs0 j d))"
  unfolding rChmod_def
proof (rule quiet_call)
  fix fs assume P: "drafted p fs0 j d fs"
  let ?fs = "fs\<lparr>fs_clock := fs_clock fs + 1\<rparr>"
  have d: "drafted p fs0 j d ?fs" using P by (rule drafted_tick)
  have "nodeAt ?fs (quietTemp p) = Some (NFile j)" using d by (simp add: drafted_def ownFile_def)
  then obtain fs' fx where o: "opChmod mode (quietTemp p) ?fs = (Inr (), fs', fx)"
      "fs' = ?fs\<lparr>fs_inodes := (fs_inodes ?fs)(j := (fs_inodes ?fs j)\<lparr>i_mode := mode\<rparr>)\<rparr>"
    by (simp add: opChmod_def)
  note a = opChmod_abs [OF o(1)]
  have "drafted p fs0 j d fs'" using d a by (simp add: drafted_def touched_def) (simp add: o(2))
  moreover have "absFs fs q = Some VDir \<longrightarrow> absFs fs' q = Some VDir" for q using a(1) by simp
  ultimately show "\<exists>v fs' fx. atRoot (rootOf ds p) True (tempRel ds p (t_rand quietTick)) (opChmod mode) ?fs = (Inr v, fs', fx) \<and>
      drafted p fs0 j d fs' \<and> (\<forall>q. absFs fs q = Some VDir \<longrightarrow> absFs fs' q = Some VDir)"
    using drafted_paths(2) [OF assms d] o(1) by (simp add: atRoot_def)
qed

lemma quiet_rename:
  assumes "inPlace ds p i fs0"
  shows "tripleOn (still ds s) (drafted p fs0 j d) (rRename (rootOf ds p) (tempRel ds p (t_rand quietTick)) (relOf ds p))
    (succeeds (\<lambda>_. replaced ds p fs0 d))"
  unfolding rRename_def
proof (rule quiet_call)
  fix fs assume P: "drafted p fs0 j d fs"
  let ?fs = "fs\<lparr>fs_clock := fs_clock fs + 1\<rparr>" and ?cs = "pathComps p" and ?t = "quietTemp p"
  note q = inPlaceD [OF assms]
  have d: "drafted p fs0 j d ?fs" using P by (rule drafted_tick)
  then have own: "ownFile ?fs ?t j d" and wf: "wfFs ?fs" and a0: "absFs ?fs = (absFs fs0)(?t \<mapsto> VFile d)"
    and m: "fs_clock fs0 < i_mtime (fs_inodes ?fs j)" "i_mtime (fs_inodes ?fs j) \<le> fs_clock ?fs"
    by (simp_all add: drafted_def)
  obtain r fs' fx where o: "opRename ?t ?cs ?fs = (r, fs', fx)" by (metis prod_cases3)
  have there: "absFs fs0 ?cs = Some (VFile (i_data (fs_inodes fs0 i)))" "absFs fs0 ?t = None"
    using q(5,6) by (auto simp: absFs_VFile absFs_None)
  have "absFs ?fs ?cs \<noteq> Some VDir" using there(1) by (simp only: a0) simp
  with opRename_abs [OF own q(7) q(8) [symmetric] o] wf have rn: "r = Inr ()" "wfFs fs'"
    "absFs fs' = (absFs ?fs)(?t := None, ?cs \<mapsto> VFile d)"
    "nodeAt fs' = (nodeAt ?fs)(?t := None, ?cs \<mapsto> NFile j)" "fs_inodes fs' = fs_inodes ?fs"
      "fs_next fs' = fs_next ?fs"
    by auto
  have clock: "fs_clock fs' = fs_clock ?fs"
    using o by (auto simp: opRename_def failOp_def okOp_def moveTree_def split: if_splits option.splits node.splits)
  have a: "absFs fs' = (absFs fs0)(?cs \<mapsto> VFile d)" using rn(3) a0 there(2) q(8) by (auto simp: fun_eq_iff)
  have keep: "absFs fs0 q = Some VDir \<Longrightarrow> absFs fs' q = Some VDir" for q using a there(1) by auto
  have "tidy ?cs fs'" using inPlaceD(4) [OF assms] assms rn(2) keep by (auto simp: tidy_def inPlace_def dirsAbove_abs)
  moreover have "nodeAt fs' ?cs = Some (NFile j)" "nodeAt fs' ?t = None" using q(8) by (simp_all add: rn(4))
  moreover have "touched ?cs fs0 fs'"
    using d q(6) by (auto simp: drafted_def touched_def rn(4-6) clock)
  ultimately have "replaced ds p fs0 d fs'"
    using a m q(1) by (auto simp: replaced_def inPlace_def rn(5) clock)
  moreover have "absFs fs q = Some VDir \<longrightarrow> absFs fs' q = Some VDir" for q
    using a0 keep [of q] by (auto split: if_splits)
  ultimately show "\<exists>v fs' fx. atRoot2 (rootOf ds p) (tempRel ds p (t_rand quietTick)) (relOf ds p) opRename ?fs = (Inr v, fs', fx) \<and>
      replaced ds p fs0 d fs' \<and> (\<forall>q. absFs fs q = Some VDir \<longrightarrow> absFs fs' q = Some VDir)"
    using drafted_paths [OF assms d] o rn(1) by (simp add: atRoot2_def atRoot_def)
qed

lemma quiet_syncDraft:
  "tripleOn (still ds s) (drafted p fs0 j d) (fSync f) (succeeds (\<lambda>_. drafted p fs0 j d))"
  "tripleOn (still ds s) (drafted p fs0 j d) (fClose f) (succeeds (\<lambda>_. drafted p fs0 j d))"
  unfolding fSync_def fClose_def by (rule quiet_call; auto simp: okOp_def drafted_tick)+

lemma quiet_atomicWrite:
  assumes "inPlace (c_dirs c) p i fs0"
  shows "tripleOn (still (c_dirs c) s) (later fs0) (atomicWrite c p data mode) (succeeds (\<lambda>_. replaced (c_dirs c) p fs0 data))"
proof -
  let ?root = "rootOf (c_dirs c) p" and ?rel = "relOf (c_dirs c) p" and ?t = "tempRel (c_dirs c) p (t_rand quietTick)"
  have fill: "tripleOn (still (c_dirs c) s) (\<lambda>fs. hd_pos f = 0 \<and> drafted p fs0 (hd_ino f) [] fs)
      (fillAndRename ?root ?t ?rel f data mode) (succeeds (\<lambda>_. replaced (c_dirs c) p fs0 data))" for f
    unfolding fillAndRename_def
    by (rule quiet_seq(2) [OF quiet_write], rule triple_bind [OF quiet_ignore [OF quiet_syncDraft(1)]],
        rule quiet_seq(1) [OF quiet_syncDraft(2)], rule triple_bind [OF quiet_ignore [OF quiet_chmod [OF assms]]],
        rule quiet_rename [OF assms])
  have "tripleOn (still (c_dirs c) s) (later fs0) (atomicWriteOnce data mode ?root ?rel) (succeeds (\<lambda>_. replaced (c_dirs c) p fs0 data))"
    unfolding atomicWriteOnce_def
  proof (rule quiet_seq(1) [OF quiet_create [OF assms]])
    fix tf :: "bytes \<times> handle"
    obtain t f where tf: "tf = (t, f)" by fastforce
    have "tripleOn (still (c_dirs c) s) (\<lambda>fs. hd_pos f = 0 \<and> drafted p fs0 (hd_ino f) [] fs)
        (fillAndRename ?root ?t ?rel f data mode \<bind> case_sum (\<lambda>e. ignore (rRemove ?root ?t) \<bind> (\<lambda>_. err e)) (\<lambda>_. ok ()))
        (succeeds (\<lambda>_. replaced (c_dirs c) p fs0 data))"
      by (rule quiet_seq(2) [OF fill], rule quiet_ok)
    then show "tripleOn (still (c_dirs c) s) (case tf of (t, f) \<Rightarrow> \<lambda>fs. (t = ?t \<and> hd_pos f = 0) \<and> drafted p fs0 (hd_ino f) [] fs)
        (case tf of (tmpRel, f) \<Rightarrow> fillAndRename ?root tmpRel ?rel f data mode \<bind>
          case_sum (\<lambda>e. ignore (rRemove ?root tmpRel) \<bind> (\<lambda>_. err e)) (\<lambda>_. ok ()))
        (succeeds (\<lambda>_. replaced (c_dirs c) p fs0 data))"
      by (auto simp: tf tripleOn_def)
  qed
  then show ?thesis unfolding atomicWrite_def by (rule quiet_under(2) [OF assms])
qed

section \<open>Calls that fail for good\<close>

text \<open>A call of either outcome, and retrying it when its errors are final.\<close>

definition final :: "goerr \<Rightarrow> bool" where
  "final e \<longleftrightarrow> Classify e \<noteq> ClassBackend \<and> \<not> isCtxErr e Canceled \<and> \<not> isCtxErr e DeadlineExceeded"

lemma final_simps [simp]:
  "final (SysErr n m) \<longleftrightarrow> n \<notin> set backendErrnos"
  "final (Catalog k m None)"
  by (auto simp: final_def isCtxErr_def definitiveErrnos_def backendErrnos_def)

lemma quiet_either:
  assumes "\<And>fs. P fs \<Longrightarrow> \<exists>r fs' fx. op (fs\<lparr>fs_clock := fs_clock fs + 1\<rparr>) = (r, fs', fx) \<and>
      (\<forall>h. Q (map_sum (walkErrToGo h) (\<lambda>x. x) r) fs') \<and> (\<forall>q. absFs fs q = Some VDir \<longrightarrow> absFs fs' q = Some VDir)"
  shows "tripleOn (still ds s) P (syscall op) Q"
proof (rule tripleI)
  fix h r h' assume s: "still ds s h" and P: "P (h_fs h)" and run: "run_state (syscall op) h = (r, h')"
  from assms [OF P] obtain r0 fs' fx where op: "op (h_fs (applyTick quietTick h)) = (r0, fs', fx)"
      "\<forall>h. Q (map_sum (walkErrToGo h) (\<lambda>x. x) r0) fs'" "\<forall>q. absFs (h_fs h) q = Some VDir \<longrightarrow> absFs fs' q = Some VDir"
    by (auto simp: applyTick_quiet)
  from s run have "r = map_sum (walkErrToGo (applyTick quietTick h)) (\<lambda>x. x) r0 \<and>
      h' = (applyTick quietTick h)\<lparr>h_fs := fs', h_fxlog := h_fxlog (applyTick quietTick h) @ fx\<rparr>"
    by (auto simp: run_syscall_quiet still_def run_runOp op(1))
  moreover have "still ds s ((applyTick quietTick h)\<lparr>h_fs := fs', h_fxlog := l\<rparr>)" for l
    by (rule still_fs [OF still_tick [OF s]]) (use op(3) in \<open>simp add: applyTick_quiet\<close>)
  ultimately show "still ds s h' \<and> Q r (h_fs h')" using op(2) by simp
qed

lemma quiet_retryFinal:
  assumes "tripleOn (still ds s) P op Q" and "\<And>e fs. Q (Inl e) fs \<Longrightarrow> final e"
  shows "tripleOn (still ds s) P (retryPlain op) Q" "tripleOn (still ds s) P (runFS op) Q"
    "tripleOn (still ds s) P (runFSContext k stage op) Q"
proof -
  have do: "tripleOn (still ds s) P (retryDo c sleep onRetry op) Q" for c sleep
  proof (rule tripleI)
    fix h r h' assume s: "still ds s h" and P: "P (h_fs h)" and run: "run_state (retryDo c sleep onRetry op) h = (r, h')"
    obtain r1 h1 where op: "run_state op h = (r1, h1)" by fastforce
    from tripleD [OF assms(1) op s P] have v: "still ds s h1" "Q r1 (h_fs h1)" by auto
    have "ctxErrAt c h = None" using s by (auto simp: ctxErrAt_def still_def split: option.split)
    with run op v assms(2) [of _ "h_fs h1"] have "r = r1 \<and> (h' = h1 \<or> h' = h1\<lparr>h_warm := True\<rparr>)"
      by (cases r1) (auto simp: retryDo_def markSucceeded_def final_def)
    with v show "still ds s h' \<and> Q r (h_fs h')" by (auto simp: still_def sole_def)
  qed
  have mapped: "tripleOn (still ds s) P (mapErr g m) Q" if "tripleOn (still ds s) P m Q" "\<And>e. final e \<Longrightarrow> g e = e" for g m
    unfolding mapErr_def
    by (rule triple_bind [OF that(1)], rule triple_case_sum; rule triple_ret) (use assms(2) that(2) in force)+
  show "tripleOn (still ds s) P (retryPlain op) Q" unfolding retryPlain_def Do_def by (rule do)
  show "tripleOn (still ds s) P (runFS op) Q" unfolding runFS_def Do_def by (rule mapped [OF do]) (simp add: final_def)
  show "tripleOn (still ds s) P (runFSContext k stage op) Q"
    unfolding runFSContext_def DoContext_def by (rule mapped [OF do]) (simp add: final_def)
qed

lemma triple_mapErr: "tripleOn S P m (\<lambda>r. Q (map_sum g (\<lambda>x. x) r)) \<Longrightarrow> tripleOn S P (mapErr g m) Q"
proof -
  assume m: "tripleOn S P m (\<lambda>r. Q (map_sum g (\<lambda>x. x) r))"
  have "tripleOn S (Q (map_sum g (\<lambda>x. x) r)) (case r of Inl e \<Rightarrow> err (g e) | Inr x \<Rightarrow> ok x) Q" for r
    by (cases r) (auto intro: triple_ret)
  then show ?thesis unfolding mapErr_def by (rule triple_bind [OF m])
qed

section \<open>A path that may not be a file\<close>

text \<open>A path that the guard has let through and that is no link: a file, a directory or missing.\<close>

definition reach :: "bytes list \<Rightarrow> bytes \<Rightarrow> fsys \<Rightarrow> bool" where
  "reach ds p fs \<longleftrightarrow> wfFs fs \<and> list_all canonPath ds \<and> canonPath p \<and> owner ds p \<noteq> [] \<and> dirsAbove fs (pathComps p) \<and>
     (\<forall>t. nodeAt fs (pathComps p) \<noteq> Some (NLink t))"

lemma reach_later: "reach ds p fs0 \<Longrightarrow> later fs0 fs \<Longrightarrow> reach ds p fs"
  by (simp add: reach_def later_simps)

lemma reach_root:
  assumes "reach ds p fs"
  shows "rootPath fs (rootOf ds p) follow (relOf ds p) = Inr (pathComps p)"
  using assms owner_in [of ds p] by (intro rootPath_real) (auto simp: reach_def list_all_iff)

definition statAs :: "fsys \<Rightarrow> bytes list \<Rightarrow> (goerr, finfo) result \<Rightarrow> bool" where
  "statAs fs cs r \<longleftrightarrow> (case nodeAt fs cs of None \<Rightarrow> \<exists>m. r = Inl (SysErr ENOENT m) | Some n \<Rightarrow> r = Inr (infoOf fs n))"

lemma quiet_stat:
  assumes "reach ds p fs0"
  shows "tripleOn (still ds s) (later fs0) (rStat (rootOf ds p) (relOf ds p)) (\<lambda>r fs. statAs fs0 (pathComps p) r \<and> later fs0 fs)"
  unfolding rStat_def
proof (rule quiet_either)
  fix fs assume l: "later fs0 fs"
  let ?fs = "fs\<lparr>fs_clock := fs_clock fs + 1\<rparr>"
  have l1: "later fs0 ?fs" using l by simp
  note same = later_simps [OF l] later_simps(9) [OF l1]
  show "\<exists>r fs' fx. atRoot (rootOf ds p) True (relOf ds p) opStat ?fs = (r, fs', fx) \<and>
      (\<forall>h. statAs fs0 (pathComps p) (map_sum (walkErrToGo h) (\<lambda>x. x) r) \<and> later fs0 fs') \<and>
      (\<forall>q. absFs fs q = Some VDir \<longrightarrow> absFs fs' q = Some VDir)"
    using reach_root [OF reach_later [OF assms l1]] l
    by (cases "nodeAt fs0 (pathComps p)")
      (simp_all add: atRoot_def opStat_def failOp_def okOp_def same statAs_def walkErrToGo_def sysErr_def)
qed

lemma quiet_withRoot:
  assumes "reach ds p fs0" and "tripleOn (still ds s) (later fs0) (op (rootOf ds p) (relOf ds p)) Q"
    and "\<And>e fs. Q (Inl e) fs \<Longrightarrow> final e"
  shows "tripleOn (still ds s) (later fs0) (retryPlain (WithRoot ds p op)) Q"
    "tripleOn (still ds s) (later fs0) (runFS (WithRoot ds p op)) Q"
    "tripleOn (still ds s) (later fs0) (runFSContext k stage (WithRoot ds p op)) Q"
proof -
  have w: "tripleOn (still ds s) (later fs0) (WithRoot ds p op) Q"
    using later_trans assms(1) by (intro quiet_WithRoot assms(2)) (simp_all add: reach_def)
  show "tripleOn (still ds s) (later fs0) (retryPlain (WithRoot ds p op)) Q"
    "tripleOn (still ds s) (later fs0) (runFS (WithRoot ds p op)) Q"
    "tripleOn (still ds s) (later fs0) (runFSContext k stage (WithRoot ds p op)) Q"
    by (rule quiet_retryFinal [OF w]; erule assms(3))+
qed

text \<open>The error for a path that is no file.\<close>

definition noFile :: "bytes \<Rightarrow> entry option \<Rightarrow> goerr" where
  "noFile p e = (if e = Some VDir then EIsDir p else ENotExist p)"

lemma mapFSErr_simps [simp]:
  "mapFSErr p (SysErr ENOENT m) = ENotExist p"
  "mapFSErr p (Catalog k m None) = Catalog k m None"
  by (simp_all add: mapFSErr_def isErrno_def)

lemma statAs_cases:
  assumes "statAs fs (pathComps p) r" and "reach ds p fs"
  obtains (missing) m where "absFs fs (pathComps p) = None" "nodeAt fs (pathComps p) = None" "r = Inl (SysErr ENOENT m)"
  | (directory) i where "absFs fs (pathComps p) = Some VDir" "nodeAt fs (pathComps p) = Some (NDir i)"
      "r = Inr (infoOf fs (NDir i))" "IsDir (infoOf fs (NDir i))"
  | (plain) i where "absFs fs (pathComps p) = Some (VFile (i_data (fs_inodes fs i)))" "nodeAt fs (pathComps p) = Some (NFile i)"
      "r = Inr (infoOf fs (NFile i))" "\<not> IsDir (infoOf fs (NFile i))"
proof (cases "nodeAt fs (pathComps p)")
  case None
  with assms(1) missing show ?thesis by (auto simp: statAs_def absFs_None)
next
  case (Some n)
  with assms directory plain show ?thesis
    by (cases n) (auto simp: statAs_def reach_def absFs_VDir absFs_VFile fi_kind_infoOf)
qed

lemma quiet_noSnap:
  assumes "reach (c_dirs c) p fs0" and "\<forall>d. absFs fs0 (pathComps p) \<noteq> Some (VFile d)"
  shows "tripleOn (still (c_dirs c) s) (later fs0) (readSnap c p)
    (\<lambda>r fs. r = Inl (noFile p (absFs fs0 (pathComps p))) \<and> later fs0 fs)"
proof -
  let ?Q = "\<lambda>r fs. (\<exists>e. r = Inl e \<and> final e \<and> mapFSErr p e = noFile p (absFs fs0 (pathComps p))) \<and> later fs0 fs"
  have "tripleOn (still (c_dirs c) s) (later fs0) (snapOnce p (rootOf (c_dirs c) p) (relOf (c_dirs c) p)) ?Q"
    unfolding snapOnce_def bindE_def
    by (rule triple_bind [OF quiet_stat [OF assms(1)]], rule triple_pure, erule statAs_cases [OF _ assms(1)])
      (use assms(2) in \<open>auto simp: noFile_def EIsDir_def backendErrnos_def intro!: triple_ret\<close>)
  from quiet_withRoot(2) [where op = "snapOnce p", OF assms(1) this] have
    "tripleOn (still (c_dirs c) s) (later fs0) (runFS (WithRoot (c_dirs c) p (snapOnce p))) ?Q" by blast
  then show ?thesis unfolding readSnap_def by (intro triple_mapErr) (erule triple_conseq; auto)
qed

lemma quiet_noTarget:
  assumes "reach (c_dirs c) p fs0" and "\<forall>d. absFs fs0 (pathComps p) \<noteq> Some (VFile d)"
  shows "tripleOn (still (c_dirs c) s) (later fs0) (mapErr (mapFSErr p) (retryPlain (WithRoot (c_dirs c) p (statTarget p))))
    (\<lambda>r fs. r = (if absFs fs0 (pathComps p) = None then Inr None else Inl (EIsDir p)) \<and> later fs0 fs)"
proof -
  let ?Q = "\<lambda>r fs. r = (if absFs fs0 (pathComps p) = None then Inr None else Inl (EIsDir p)) \<and> later fs0 fs"
  have "tripleOn (still (c_dirs c) s) (later fs0) (statTarget p (rootOf (c_dirs c) p) (relOf (c_dirs c) p)) ?Q"
    unfolding statTarget_def
    by (rule triple_bind [OF quiet_stat [OF assms(1)]], rule triple_pure, erule statAs_cases [OF _ assms(1)])
      (use assms(2) in \<open>auto intro!: triple_ret\<close>)
  from quiet_withRoot(1) [where op = "statTarget p", OF assms(1) this] have
    "tripleOn (still (c_dirs c) s) (later fs0) (retryPlain (WithRoot (c_dirs c) p (statTarget p))) ?Q"
    by (auto simp: EIsDir_def split: if_splits)
  then show ?thesis by (intro triple_mapErr) (erule triple_conseq; auto simp: EIsDir_def)
qed

section \<open>New files and directories\<close>

definition vacant :: "bytes list \<Rightarrow> bytes \<Rightarrow> fsys \<Rightarrow> bool" where
  "vacant ds p fs \<longleftrightarrow> placed ds p \<and> tidy (pathComps p) fs \<and> nodeAt fs (pathComps p) = None \<and> nodeAt fs (quietTemp p) = None"

definition made :: "bytes \<Rightarrow> fsys \<Rightarrow> fsys \<Rightarrow> bool" where
  "made p fs0 fs \<longleftrightarrow> wfFs fs \<and> touched (pathComps p) fs0 fs \<and> absFs fs = (absFs fs0)(pathComps p \<mapsto> VDir)"

lemma vacantD:
  assumes "vacant ds p fs"
  shows "placed ds p" "owner ds p \<noteq> []" "wfFs fs" "dirsAbove fs (pathComps p)" "nodeAt fs (pathComps p) = None"
    "nodeAt fs (quietTemp p) = None" "pathComps p \<noteq> []" "quietTemp p \<noteq> pathComps p"
  using assms tidy_temp [of "pathComps p" fs "t_rand quietTick"]
  by (auto simp: vacant_def placed_def tidy_def quietTemp_def)

lemma vacant_later: "vacant ds p fs0 \<Longrightarrow> later fs0 fs \<Longrightarrow> vacant ds p fs"
  by (auto simp: vacant_def tidy_def later_simps)

lemma vacant_root: "vacant ds p fs \<Longrightarrow> rootPath fs (rootOf ds p) False (relOf ds p) = Inr (pathComps p)"
  using placed_rootPath(1) vacantD by blast

lemma replaced_later: "replaced ds p fs0 d fs \<Longrightarrow> later fs fs' \<Longrightarrow> replaced ds p fs0 d fs'"
  using inPlace_later [of ds p _ fs fs'] touched_trans [OF _ touched_later] later_clock [of fs fs']
  by (fastforce simp: replaced_def later_simps)

lemma quiet_claimCall:
  assumes "vacant ds p fs0"
  shows "tripleOn (still ds s) (later fs0) (rCreateExcl (rootOf ds p) (relOf ds p) mode) (succeeds (\<lambda>_. replaced ds p fs0 []))"
  unfolding rCreateExcl_def
proof (rule quiet_call)
  fix fs assume l: "later fs0 fs"
  let ?fs = "fs\<lparr>fs_clock := fs_clock fs + 1\<rparr>" and ?cs = "pathComps p"
  have l1: "later fs0 ?fs" using l by simp
  note v = vacant_later [OF assms l1] and q = vacantD [OF vacant_later [OF assms l1]]
  obtain f fs' where o: "opCreateExcl mode ?cs ?fs = (Inr f, fs', [FxCreate ?cs])"
      "fs' = setNode ?cs (NFile (fs_next ?fs)) (newInode mode ?fs)"
    using q(5) by (simp add: opCreateExcl_def)
  note a = opCreateExcl_abs [OF o(1) q(3)]
  have keep: "absFs fs q = Some VDir \<Longrightarrow> absFs fs' q = Some VDir" for q using a(1,2) by auto
  have "nodeAt fs' ?cs = Some (NFile (fs_next fs))" "nodeAt fs' (quietTemp p) = None"
    using q(5-8) by (simp_all add: o(2))
  moreover have "tidy ?cs fs'" using v a(3) keep by (auto simp: vacant_def tidy_def dirsAbove_abs)
  ultimately have "inPlace ds p (fs_next fs) fs'" using q(1) by (simp add: inPlace_def)
  moreover have "touched ?cs fs0 fs'" using touched_trans [OF touched_later [OF l1] touched_new [OF q(7)]] unfolding o(2) .
  moreover have "i_mtime (fs_inodes fs' (fs_next fs)) = fs_clock fs + 1" "fs_clock fs' = fs_clock fs + 1"
    by (simp_all add: o(2) newInode_def)
  ultimately have "replaced ds p fs0 [] fs'"
    using a(2) later_clock [OF l] unfolding replaced_def later_simps [OF l] by (auto simp: later_simps [OF l])
  with keep show "\<exists>f fs' fx. atRoot (rootOf ds p) False (relOf ds p) (opCreateExcl mode) ?fs = (Inr f, fs', fx) \<and>
      replaced ds p fs0 [] fs' \<and> (\<forall>q. absFs fs q = Some VDir \<longrightarrow> absFs fs' q = Some VDir)"
    using vacant_root [OF v] o(1) by (simp add: atRoot_def)
qed

lemma quiet_claim:
  assumes "vacant (c_dirs c) p fs0"
  shows "tripleOn (still (c_dirs c) s) (later fs0)
    (mapErr (mapFSErr p) (retryPlain (WithRoot (c_dirs c) p (claimOnce p mode)))) (succeeds (\<lambda>_. replaced (c_dirs c) p fs0 []))"
proof (rule quiet_mapErr, rule quiet_retry, rule quiet_WithRoot)
  have close: "tripleOn (still (c_dirs c) s) (replaced (c_dirs c) p fs0 []) (fClose f) (succeeds (\<lambda>_. replaced (c_dirs c) p fs0 []))" for f
    unfolding fClose_def by (rule quiet_call) (auto simp: okOp_def elim!: replaced_later)
  show "tripleOn (still (c_dirs c) s) (later fs0) (claimOnce p mode (rootOf (c_dirs c) p) (relOf (c_dirs c) p))
      (succeeds (\<lambda>_. replaced (c_dirs c) p fs0 []))"
    unfolding claimOnce_def by (rule quiet_seq(2) [OF quiet_claimCall [OF assms]], rule close)
qed (use assms vacantD(2) later_trans in auto)

lemma made_tick: "made p fs0 fs \<Longrightarrow> later fs fs' \<Longrightarrow> made p fs0 fs'"
  using touched_trans [OF _ touched_later] by (auto simp: made_def later_simps)

lemma quiet_mkdirCall:
  assumes "vacant ds p fs0"
  shows "tripleOn (still ds s) (later fs0) (rMkdir (rootOf ds p) (relOf ds p) mode) (succeeds (\<lambda>_. made p fs0))"
  unfolding rMkdir_def
proof (rule quiet_call)
  fix fs assume l: "later fs0 fs"
  let ?fs = "fs\<lparr>fs_clock := fs_clock fs + 1\<rparr>" and ?cs = "pathComps p"
  have l1: "later fs0 ?fs" using l by simp
  note v = vacant_later [OF assms l1] and q = vacantD [OF vacant_later [OF assms l1]]
  obtain fs' where o: "opMkdir mode ?cs ?fs = (Inr (), fs', [FxMkdir ?cs])"
      "fs' = setNode ?cs (NDir (fs_next ?fs)) (newInode mode ?fs)"
    using q(5) by (simp add: opMkdir_def)
  note a = opMkdir_abs [OF o(1) q(3)]
  have "touched ?cs fs0 fs'" using touched_trans [OF touched_later [OF l1] touched_new [OF q(7)]] unfolding o(2) .
  then have "made p fs0 fs'" using a(2,3) by (simp add: made_def later_simps [OF l])
  with a(1,2) show "\<exists>u fs' fx. atRoot (rootOf ds p) False (relOf ds p) (opMkdir mode) ?fs = (Inr u, fs', fx) \<and>
      made p fs0 fs' \<and> (\<forall>q. absFs fs q = Some VDir \<longrightarrow> absFs fs' q = Some VDir)"
    using vacant_root [OF v] o(1) by (auto simp: atRoot_def)
qed

lemma quiet_mkdirNew:
  assumes "reach ds p fs0" and "vacant ds p fs0"
  shows "tripleOn (still ds s) (later fs0) (mkdirOnce p (rootOf ds p) (relOf ds p)) (\<lambda>r fs. r = Inr ''created'' \<and> made p fs0 fs)"
proof -
  have mk: "tripleOn (still ds s) (later fs0) (rMkdir (rootOf ds p) (relOf ds p) 493 \<bind> case_sum g (\<lambda>_. ok ''created''))
      (\<lambda>r fs. r = Inr ''created'' \<and> made p fs0 fs)" for g
    by (rule triple_bind [OF quiet_mkdirCall [OF assms(2)]]) (auto simp: succeeds_def tripleOn_def)
  show ?thesis
    unfolding mkdirOnce_def
    by (rule triple_bind [OF quiet_stat [OF assms(1)]], rule triple_pure, erule statAs_cases [OF _ assms(1)])
      (use vacantD(5) [OF assms(2)] mk in simp_all)
qed

lemma quiet_mkdirOld:
  assumes "reach ds p fs0" and "absFs fs0 (pathComps p) \<noteq> None"
  shows "tripleOn (still ds s) (later fs0) (mkdirOnce p (rootOf ds p) (relOf ds p))
    (\<lambda>r fs. r = (if absFs fs0 (pathComps p) = Some VDir then Inr ''exists'' else Inl (ENotDir p)) \<and> later fs0 fs)"
  unfolding mkdirOnce_def
  by (rule triple_bind [OF quiet_stat [OF assms(1)]], rule triple_pure, erule statAs_cases [OF _ assms(1)])
    (use assms(2) in \<open>auto intro!: triple_ret\<close>)

end
