(* ===== verification/QuietSession.thy ===== *)
theory QuietSession
  imports QuietTools
begin

text \<open>
  Sessions on a machine at rest: what several clients that read, write and edit one file through the server
  get to see is what a pure editor on its bytes answers, which knows for every token whether its last look at
  the file is current. The editor is the abstract specification of the four tools.
\<close>

section \<open>The editor\<close>

text \<open>A change by one token makes what the others know stale.\<close>

definition wrote :: "bytes \<Rightarrow> (bytes \<Rightarrow> Status) \<Rightarrow> bytes \<Rightarrow> Status" where
  "wrote t st u = (if u = t then StatusMatch else if st u = StatusUnknown then StatusUnknown else StatusStale)"

text \<open>A token that has not read the current content changes nothing.\<close>

definition gated :: "bytes \<Rightarrow> bytes \<Rightarrow> (goerr, bytes \<times> 'o) result \<Rightarrow> bytes \<times> (bytes \<Rightarrow> Status) \<Rightarrow>
    (goerr, 'o) result \<times> bytes \<times> (bytes \<Rightarrow> Status)" where
  "gated p t r = (\<lambda>(old, st).
     case st t of
       StatusUnknown \<Rightarrow> (Inl (EStaleReadNeverRead p), old, st)
     | StatusStale \<Rightarrow> (Inl (EStaleRead p), old, st)
     | StatusMatch \<Rightarrow> (case r of Inl e \<Rightarrow> (Inl e, old, st) | Inr (new, out) \<Rightarrow> (Inr out, new, wrote t st)))"

definition shownAs :: "bytes \<Rightarrow> int \<Rightarrow> int \<Rightarrow> (goerr, ReadOutput) result" where
  "shownAs old offset limit =
     map_sum (\<lambda>e. e) (\<lambda>res. \<lparr>ro_Content = Text res, ro_Footer = Footer res\<rparr>) (Render old offset limit)"

definition pageOf :: "bytes \<Rightarrow> ReadInput \<Rightarrow> (goerr, toolOutput) result" where
  "pageOf old inp =
     (let offset = (if ri_Offset inp = 0 then 1 else ri_Offset inp);
          limit = (if ri_Limit inp = 0 then DefaultLines else ri_Limit inp)
      in case ValidateArgs offset limit of
           Some e \<Rightarrow> Inl e
         | None \<Rightarrow> map_sum (\<lambda>e. e) OutRead (shownAs old offset limit))"

fun editor :: "bytes \<Rightarrow> bytes \<Rightarrow> toolCall \<Rightarrow> bytes \<times> (bytes \<Rightarrow> Status) \<Rightarrow>
    (goerr, toolOutput) result \<times> bytes \<times> (bytes \<Rightarrow> Status)" where
  "editor p t (CallRead inp) (old, st) =
     (let r = pageOf old inp in (r, old, if isl r then st else st(t := StatusMatch)))"
| "editor p t (CallWrite path content) (old, st) =
     gated p t (Inr (content, OutWrite \<lparr>wa_BytesWritten = int (length content),
       wa_Warning = RenderWarn ''content'' (Check content)\<rparr>)) (old, st)"
| "editor p t (CallEdit path e) (old, st) =
     gated p t (map_sum (\<lambda>x. x) (\<lambda>(new, n). (new, OutEdit \<lparr>ea_Matches = n,
       ea_Warning = RenderWarn ''new_string'' (Check (ei_NewString e))\<rparr>)) (applyEdit p e old)) (old, st)"
| "editor p t (CallMultiEdit path es) (old, st) =
     (if es = [] then (Inl (PlainErr ''edits must contain at least one edit''), old, st)
      else gated p t (map_sum (\<lambda>x. x) (\<lambda>(new, u). (new, OutEdit \<lparr>ea_Matches = length es,
        ea_Warning = join (warnLoop 0 es) ''; ''\<rparr>)) (applyEdits es old)) (old, st))"
| "editor p t (CallMkdir path) (old, st) = (Inl (ENotDir p), old, st)"

fun editorRun :: "bytes \<Rightarrow> (bytes \<times> toolCall) list \<Rightarrow> bytes \<times> (bytes \<Rightarrow> Status) \<Rightarrow>
    (goerr, toolOutput) result list \<times> bytes \<times> (bytes \<Rightarrow> Status)" where
  "editorRun p [] s = ([], s)"
| "editorRun p ((t, call) # calls) s =
     (let (r, s1) = editor p t call s; (rs, s2) = editorRun p calls s1 in (r # rs, s2))"

section \<open>The machine agrees with the editor\<close>

definition agrees :: "bytes list \<Rightarrow> bytes \<Rightarrow> bytes \<times> (bytes \<Rightarrow> Status) \<Rightarrow> host \<Rightarrow> bool" where
  "agrees ds p = (\<lambda>(old, st) h. still ds (h_sess h) h \<and> CHR 0x00 \<notin> set p \<and>
     (\<exists>i. inPlace ds p i (h_fs h) \<and> i_data (fs_inodes (h_fs h) i) = old \<and>
        i_mtime (fs_inodes (h_fs h) i) \<le> fs_clock (h_fs h) \<and>
        (\<forall>t. Compare p (int (length old)) (i_mtime (fs_inodes (h_fs h) i)) (h_sess h t) = st t) \<and>
        (\<forall>t m. Lookup p (h_sess h t) = Some m \<longrightarrow> ModTime m \<le> fs_clock (h_fs h))))"

lemma agreesE:
  assumes "agrees ds p (old, st) h"
  obtains i where "still ds (h_sess h) h" "CHR 0x00 \<notin> set p" "inPlace ds p i (h_fs h)" "i_data (fs_inodes (h_fs h) i) = old"
    "i_mtime (fs_inodes (h_fs h) i) \<le> fs_clock (h_fs h)"
    "\<forall>t. Compare p (int (length old)) (i_mtime (fs_inodes (h_fs h) i)) (h_sess h t) = st t"
    "\<forall>t m. Lookup p (h_sess h t) = Some m \<longrightarrow> ModTime m \<le> fs_clock (h_fs h)"
  using assms by (auto simp: agrees_def)

lemma agreesI:
  assumes "still ds (h_sess h) h" and "CHR 0x00 \<notin> set p" and "inPlace ds p i (h_fs h)" and "i_data (fs_inodes (h_fs h) i) = old"
    and "i_mtime (fs_inodes (h_fs h) i) \<le> fs_clock (h_fs h)"
    and "\<And>t. Compare p (int (length old)) (i_mtime (fs_inodes (h_fs h) i)) (h_sess h t) = st t"
    and "\<And>t m. Lookup p (h_sess h t) = Some m \<Longrightarrow> ModTime m \<le> fs_clock (h_fs h)"
  shows "agrees ds p (old, st) h"
  using assms by (auto simp: agrees_def)

lemma sessSet_look:
  "Compare p sz mt (sessSet c p n m s u) =
     (if u = c_token c then (if n = sz \<and> m = mt then StatusMatch else StatusStale) else Compare p sz mt (s u))"
  "Lookup p (sessSet c p n m s u) = (if u = c_token c then Some \<lparr>Size = n, ModTime = m\<rparr> else Lookup p (s u))"
  by (simp_all add: sessSet_def Compare_def Lookup_def MarkRead_def)

text \<open>Nothing but the file at \<open>p\<close> and what is known of it has changed.\<close>

definition alone :: "bytes \<Rightarrow> host \<Rightarrow> host \<Rightarrow> bool" where
  "alone p h h' \<longleftrightarrow> touched (pathComps p) (h_fs h) (h_fs h') \<and> (\<forall>t q. q \<noteq> p \<longrightarrow> h_sess h' t q = h_sess h t q)"

lemma alone_later: "later (h_fs h) (h_fs h') \<Longrightarrow> h_sess h' = h_sess h \<Longrightarrow> alone p h h'"
  by (simp add: alone_def touched_later)

lemma alone_trans [trans]: "alone p h1 h2 \<Longrightarrow> alone p h2 h3 \<Longrightarrow> alone p h1 h3"
  using touched_trans by (auto simp: alone_def)

lemma alone_mark: "alone p h (h\<lparr>h_sess := sessSet c p n m (h_sess h)\<rparr>)"
  by (simp add: alone_def sessSet_def MarkRead_def touched_later)

lemma alone_held: "alone p h (h'\<lparr>h_held := l\<rparr>) = alone p h h'" "alone p (h\<lparr>h_held := l\<rparr>) h' = alone p h h'"
    "alone p h (h'\<lparr>h_stuck := b, h_held := l\<rparr>) = alone p h h'"
  by (simp_all add: alone_def)

text \<open>Time alone changes nothing.\<close>

lemma agrees_later:
  assumes "agrees ds p s h" and "still ds (h_sess h) h'" and "later (h_fs h) (h_fs h')"
  shows "agrees ds p s h'"
proof -
  obtain old st where s: "s = (old, st)" by fastforce
  note same = later_simps [OF assms(3)]
  from assms(2) have sess: "h_sess h' = h_sess h" by (simp add: still_def)
  from assms(1) [unfolded s] obtain i where i: "CHR 0x00 \<notin> set p" "inPlace ds p i (h_fs h)" "i_data (fs_inodes (h_fs h) i) = old"
    "i_mtime (fs_inodes (h_fs h) i) \<le> fs_clock (h_fs h)"
    "\<forall>t. Compare p (int (length old)) (i_mtime (fs_inodes (h_fs h) i)) (h_sess h t) = st t"
    "\<forall>t m. Lookup p (h_sess h t) = Some m \<longrightarrow> ModTime m \<le> fs_clock (h_fs h)"
    by (rule agreesE)
  have "ModTime m \<le> fs_clock (h_fs h')" if "Lookup p (h_sess h t) = Some m" for t m
    using i(6) that later_clock [OF assms(3)] by (meson order.trans)
  with i assms(2) later_clock [OF assms(3)] inPlace_later [OF i(2) assms(3)] show ?thesis
    unfolding s by (intro agreesI [of ds h' p i]) (auto simp: same sess)
qed

text \<open>A read that was shown marks the file as read by its token.\<close>

lemma agrees_marked:
  assumes "agrees ds p (old, st) h" and "inPlace ds p i (h_fs h)" and "c_token c = t"
  shows "agrees ds p (old, st(t := StatusMatch))
    (h\<lparr>h_sess := sessSet c p (int (length old)) (i_mtime (fs_inodes (h_fs h) i)) (h_sess h)\<rparr>)"
proof -
  from assms(1) obtain j where j: "still ds (h_sess h) h" "CHR 0x00 \<notin> set p" "inPlace ds p j (h_fs h)"
    "i_data (fs_inodes (h_fs h) j) = old" "i_mtime (fs_inodes (h_fs h) j) \<le> fs_clock (h_fs h)"
    "\<forall>t. Compare p (int (length old)) (i_mtime (fs_inodes (h_fs h) j)) (h_sess h t) = st t"
    "\<forall>t m. Lookup p (h_sess h t) = Some m \<longrightarrow> ModTime m \<le> fs_clock (h_fs h)"
    by (rule agreesE)
  have "j = i" using inPlaceD(5) [OF j(3)] inPlaceD(5) [OF assms(2)] by simp
  let ?h = "h\<lparr>h_sess := sessSet c p (int (length old)) (i_mtime (fs_inodes (h_fs h) i)) (h_sess h)\<rparr>"
  show ?thesis
  proof (rule agreesI [of ds ?h p i])
    show "still ds (h_sess ?h) ?h" using j(1) by (simp add: still_def sole_def)
    show "Compare p (int (length old)) (i_mtime (fs_inodes (h_fs ?h) i)) (h_sess ?h u) = (st(t := StatusMatch)) u" for u
      using j(6) assms(3) by (simp add: sessSet_look \<open>j = i\<close>)
    show "ModTime m \<le> fs_clock (h_fs ?h)" if "Lookup p (h_sess ?h u) = Some m" for u m
      using that j(5,7) by (auto simp: sessSet_look \<open>j = i\<close> split: if_splits)
  qed (use j in \<open>simp_all add: \<open>j = i\<close>\<close>)
qed

text \<open>The file replaced by one token and marked with what it is now.\<close>

lemma agrees_replaced:
  assumes "agrees ds p (old, st) h" and "replaced ds p (h_fs h) new (h_fs h')" and "still ds s h'" and "c_token c = t"
    and "s = sessSet c p (int (length new)) (i_mtime (fs_inodes (h_fs h') j)) (h_sess h)" and "inPlace ds p j (h_fs h')"
  shows "agrees ds p (new, wrote t st) h'"
proof -
  from assms(1) obtain i where i: "still ds (h_sess h) h" "CHR 0x00 \<notin> set p" "inPlace ds p i (h_fs h)"
    "i_data (fs_inodes (h_fs h) i) = old" "i_mtime (fs_inodes (h_fs h) i) \<le> fs_clock (h_fs h)"
    "\<forall>t. Compare p (int (length old)) (i_mtime (fs_inodes (h_fs h) i)) (h_sess h t) = st t"
    "\<forall>t m. Lookup p (h_sess h t) = Some m \<longrightarrow> ModTime m \<le> fs_clock (h_fs h)"
    by (rule agreesE)
  from assms(2) obtain k where k: "absFs (h_fs h') = (absFs (h_fs h))(pathComps p \<mapsto> VFile new)" "inPlace ds p k (h_fs h')"
    "fs_clock (h_fs h) < i_mtime (fs_inodes (h_fs h') k)" "i_mtime (fs_inodes (h_fs h') k) \<le> fs_clock (h_fs h')"
    by (auto simp: replaced_def)
  have kj: "k = j" using inPlaceD(5) [OF k(2)] inPlaceD(5) [OF assms(6)] by simp
  have "absFs (h_fs h') (pathComps p) = Some (VFile new)" using k(1) by simp
  then have data: "i_data (fs_inodes (h_fs h') j) = new" using inPlaceD(5) [OF assms(6)] by (auto simp: absFs_VFile)
  have sess: "h_sess h' = s" using assms(3) by (simp add: still_def)
  show ?thesis
  proof (rule agreesI [of ds h' p j])
    show "Compare p (int (length new)) (i_mtime (fs_inodes (h_fs h') j)) (h_sess h' u) = wrote t st u" for u
    proof -
      let ?mt = "i_mtime (fs_inodes (h_fs h') j)"
      have now: "Compare p (int (length new)) ?mt (h_sess h' u) =
          (if u = t then StatusMatch else Compare p (int (length new)) ?mt (h_sess h u))"
        using assms(4) by (simp add: sess assms(5) sessSet_look)
      have before: "st u = Compare p (int (length old)) (i_mtime (fs_inodes (h_fs h) i)) (h_sess h u)" using i(6) by simp
      have "h_sess h u p = Some m \<Longrightarrow> ModTime m \<noteq> ?mt" for m using i(7) k(3) by (force simp: Lookup_def kj)
      then show ?thesis unfolding now by (cases "h_sess h u p") (auto simp: wrote_def before Compare_def)
    qed
    show "ModTime m \<le> fs_clock (h_fs h')" if "Lookup p (h_sess h' u) = Some m" for u m
      using that i(7) k(3,4) by (fastforce simp: sess assms(5) sessSet_look kj split: if_splits)
  qed (use assms(3,6) i(2) data k(4) in \<open>simp_all add: sess kj\<close>)
qed

section \<open>Validation and locks\<close>

lemma still_rested: "still ds s h \<Longrightarrow> rested h h' \<Longrightarrow> still ds s h' \<and> later (h_fs h) (h_fs h')"
  by (auto simp: rested_def still_def sole_def later_simps)

lemma agrees_scope:
  assumes "agrees ds p s h"
  shows "canonPath p" "realPath (h_fs h) (pathComps p)" "list_ex (\<lambda>d. prefix (pathComps d) (pathComps p)) ds"
    "CHR 0x00 \<notin> set p" "list_all canonPath ds" "still ds (h_sess h) h"
proof -
  obtain old st where s: "s = (old, st)" by fastforce
  from assms [unfolded s] obtain i where i: "still ds (h_sess h) h" "CHR 0x00 \<notin> set p" "inPlace ds p i (h_fs h)"
    by (rule agreesE)
  note ip = inPlaceD [OF i(3)]
  from ip(1) obtain d where d: "d = owner ds p" "d \<in> set ds" "canonPath d" "withinPrefix d p" "canonPath p"
    by (rule placedE)
  show "canonPath p" "CHR 0x00 \<notin> set p" "still ds (h_sess h) h" by (fact d i)+
  show "list_all canonPath ds" using i(1) by (simp add: still_def sole_def)
  show "realPath (h_fs h) (pathComps p)" using ip(4,5) by (simp add: realPath_def)
  show "list_ex (\<lambda>d. prefix (pathComps d) (pathComps p)) ds"
    using d by (auto simp: list_ex_iff pool.inside_iff)
qed

text \<open>A path that the guard lets through on this tree.\<close>

abbreviation admits :: "Conn \<Rightarrow> host \<Rightarrow> bytes \<Rightarrow> (goerr, bytes) result" where
  "admits c h raw \<equiv> admitted (c_env c) (c_guard c) (absFs (h_fs h)) raw"

lemma still_validate:
  assumes "still (c_dirs c) s h"
  obtains h1 where "run_state (c_validate c raw) h = (admits c h raw, h1)" "still (c_dirs c) s h1" "later (h_fs h) (h_fs h1)"
proof -
  obtain r h1 where run: "run_state (c_validate c raw) h = (r, h1)" by fastforce
  have "h_sched h = []" "list_all canonPath (dirs (c_guard c))"
    using assms by (simp_all add: still_def sole_def c_dirs_def AllowedDirs_def)
  from Validate_tree [OF this, of "c_env c" raw] run have r: "r = admits c h raw" by (simp add: c_validate_def)
  have "rested h h1" using restwalk.rel_Validate run unfolding c_validate_def by (rule state_io_relD)
  with still_rested [OF assms] run r that show ?thesis by blast
qed

lemma validate_quiet:
  assumes "agrees (c_dirs c) p s h" and "admits c h raw = Inr p"
  obtains h1 where "run_state (c_validate c raw) h = (Inr p, h1)" "agrees (c_dirs c) p s h1" "absFs (h_fs h1) = absFs (h_fs h)"
    "alone p h h1"
proof -
  from still_validate [OF agrees_scope(6) [OF assms(1)], of raw] obtain h1 where h1:
    "run_state (c_validate c raw) h = (Inr p, h1)" "still (c_dirs c) (h_sess h) h1" "later (h_fs h) (h_fs h1)"
    using assms(2) by metis
  with agrees_later [OF assms(1) h1(2,3)] that alone_later show ?thesis by (simp add: later_simps still_def)
qed

lemma admits_self:
  assumes "agrees (c_dirs c) p s h"
  shows "admits c h p = Inr p"
proof -
  note a = agrees_scope [OF assms]
  have "absPath (pathComps p) = p" using a(1) by (simp add: canonPath_def)
  moreover have "h_sched h = []" using a(6) by (simp add: still_def)
  ultimately show ?thesis
    using Validate_real [of h "c_guard c" "pathComps p" "c_env c"] Validate_tree [of h "c_guard c" "c_env c" p] a
    by (auto simp: c_dirs_def AllowedDirs_def)
qed

lemma agrees_held: "agrees ds p s (h\<lparr>h_held := l\<rparr>) = agrees ds p s h" "agrees ds p s (h\<lparr>h_stuck := b, h_held := l\<rparr>) = agrees ds p s h"
  by (auto simp: agrees_def still_def sole_def)

text \<open>Taking and releasing the two locks of a handler lets time pass.\<close>

lemma locks_still:
  assumes "still (c_dirs c) s h"
  obtains h4 where "still (c_dirs c) s h4" "later (h_fs h) (h_fs h4)"
    "\<forall>r h5. run_state body h4 = (r, h5) \<longrightarrow> run_state (withLocks c k stage p body) h =
      (r, h5\<lparr>h_held := remove1 (PLocks, p) (remove1 (SessLocks (c_token c), p) (h_held h5))\<rparr>)"
proof -
  have q: "h_sched h = []" "h_ctx h = None" using assms by (simp_all add: still_def)
  let ?h1 = "applyTick quietTick h"
  let ?h2 = "?h1\<lparr>h_stuck := h_stuck ?h1 \<or> (PLocks, p) \<in> set (h_held ?h1), h_held := (PLocks, p) # h_held ?h1\<rparr>"
  let ?h3 = "applyTick quietTick ?h2"
  let ?h4 = "?h3\<lparr>h_stuck := h_stuck ?h3 \<or> (SessLocks (c_token c), p) \<in> set (h_held ?h3),
      h_held := (SessLocks (c_token c), p) # h_held ?h3\<rparr>"
  have held: "still (c_dirs c) s (g\<lparr>h_stuck := b, h_held := l\<rparr>) = still (c_dirs c) s g" for g b l
    by (simp add: still_def sole_def)
  have "still (c_dirs c) s ?h4" unfolding held by (intro still_tick held [THEN iffD2] assms)
  moreover have "later (h_fs h) (h_fs ?h4)" by (auto simp: applyTick_quiet later_def intro!: exI [of _ "2 + fs_clock (h_fs h)"])
  moreover have "run_state (withLocks c k stage p body) h =
      (r, h5\<lparr>h_held := remove1 (PLocks, p) (remove1 (SessLocks (c_token c), p) (h_held h5))\<rparr>)"
    if b: "run_state body ?h4 = (r, h5)" for r h5
  proof -
    have sched: "h_sched ?h2 = []" using q by (simp add: applyTick_quiet)
    have tk: "run_state nextTick g = (quietTick, applyTick quietTick g)" if "h_sched g = []" for g
      using that by (simp add: nextTick_def)
    have ctx: "h_ctx ?h1 = None" using q by (simp add: applyTick_quiet)
    then have "run_state (LockContext k PLocks p) h = (Inr (), ?h2)"
      using tk [OF q(1)] by (simp add: LockContext_def ctxErrAt_def acquire_def)
    moreover have "run_state (LockFile (c_token c) p) ?h2 = ((), ?h4)"
      using tk [OF sched] by (simp add: LockFile_def acquire_def)
    ultimately show ?thesis using b by (simp add: withLocks_def release_def)
  qed
  ultimately show ?thesis using that by blast
qed

section \<open>The bodies of the handlers\<close>

lemma tripleE:
  assumes "tripleOn (still ds s) P m (succeeds Q)" and "still ds s h" and "P (h_fs h)"
  obtains v h' where "run_state m h = (Inr v, h')" "still ds s h'" "Q v (h_fs h')"
proof -
  obtain r h' where run: "run_state m h = (r, h')" by fastforce
  from tripleD [OF assms(1) run assms(2,3)] run that show ?thesis by (auto simp: succeeds_def)
qed

text \<open>A current snapshot of the file, and the status it has for a token.\<close>

lemma snap_quiet:
  assumes "agrees (c_dirs c) p (old, st) h"
  obtains i h1 where "inPlace (c_dirs c) p i (h_fs h)" "run_state (readSnap c p) h = (Inr (snapOf (h_fs h) i), h1)"
    "still (c_dirs c) (h_sess h) h1" "later (h_fs h) (h_fs h1)" "sn_content (snapOf (h_fs h) i) = old"
    "Compare p (sn_size (snapOf (h_fs h) i)) (sn_mtime (snapOf (h_fs h) i)) (h_sess h1 (c_token c)) = st (c_token c)"
proof -
  from assms obtain i where i: "still (c_dirs c) (h_sess h) h" "inPlace (c_dirs c) p i (h_fs h)" "i_data (fs_inodes (h_fs h) i) = old"
    "\<forall>t. Compare p (int (length old)) (i_mtime (fs_inodes (h_fs h) i)) (h_sess h t) = st t"
    by (rule agreesE)
  from tripleE [OF quiet_readSnap [OF i(2)] i(1) later_refl] obtain h1 where
    "run_state (readSnap c p) h = (Inr (snapOf (h_fs h) i), h1)" "still (c_dirs c) (h_sess h) h1" "later (h_fs h) (h_fs h1)"
    by metis
  with i that show ?thesis by (auto simp: snapOf_def still_def)
qed

lemma readLocked_quiet:
  assumes "agrees (c_dirs c) p (old, st) h"
  shows "\<exists>h'. run_state (readLocked c p offset limit) h = (shownAs old offset limit, h') \<and>
    agrees (c_dirs c) p (old, if isl (shownAs old offset limit) then st else st(c_token c := StatusMatch)) h' \<and>
    absFs (h_fs h') = absFs (h_fs h) \<and> alone p h h'"
proof -
  from assms obtain i h1 where i: "inPlace (c_dirs c) p i (h_fs h)" "run_state (readSnap c p) h = (Inr (snapOf (h_fs h) i), h1)"
    "still (c_dirs c) (h_sess h) h1" "later (h_fs h) (h_fs h1)" "sn_content (snapOf (h_fs h) i) = old"
    by (rule snap_quiet)
  have ag: "agrees (c_dirs c) p (old, st) h1" using agrees_later [OF assms i(3,4)] .
  have al: "alone p h h1" using i(3,4) by (intro alone_later) (simp_all add: still_def)
  show ?thesis
  proof (cases "Render old offset limit")
    case (Inl e)
    then have "run_state (readLocked c p offset limit) h = (shownAs old offset limit, h1)"
      using i(2,5) by (simp add: readLocked_def run_bindE shownAs_def)
    with ag al i(4) Inl show ?thesis by (auto simp: shownAs_def later_simps)
  next
    case (Inr res)
    have "inPlace (c_dirs c) p i (h_fs h1)" using inPlace_later [OF i(1,4)] .
    from agrees_marked [OF ag this refl] have
      "agrees (c_dirs c) p (old, st(c_token c := StatusMatch))
        (h1\<lparr>h_sess := sessSet c p (int (length old)) (i_mtime (fs_inodes (h_fs h1) i)) (h_sess h1)\<rparr>)" .
    moreover have "snapOf (h_fs h) i = \<lparr>sn_content = old, sn_size = int (length old), sn_mtime = i_mtime (fs_inodes (h_fs h1) i)\<rparr>"
      using i(4,5) by (simp add: snapOf_def later_simps)
    ultimately show ?thesis
      using alone_trans [OF al alone_mark] i(2,4) Inr by (simp add: readLocked_def run_bindE shownAs_def sessMarkRead_def sessSet_def later_simps)
  qed
qed

text \<open>Replacing the content and marking the new one as known, what \<open>write\<close> and \<open>edit\<close> end with.\<close>

lemma publish_quiet:
  assumes "agrees (c_dirs c) p (old, st) h"
  obtains h1 h2 k where "run_state (atomicWrite c p new mode) h = (Inr (), h1)" "run_state (markKnown c p n) h1 = (k, h2)"
    "agrees (c_dirs c) p (new, wrote (c_token c) st) h2" "absFs (h_fs h2) = (absFs (h_fs h))(pathComps p \<mapsto> VFile new)"
    "alone p h h2"
proof -
  from assms obtain i where i: "still (c_dirs c) (h_sess h) h" "inPlace (c_dirs c) p i (h_fs h)"
    by (rule agreesE)
  from tripleE [OF quiet_atomicWrite [OF i(2)] i(1) later_refl] obtain h1 where h1: "run_state (atomicWrite c p new mode) h = (Inr (), h1)"
    "still (c_dirs c) (h_sess h) h1" "replaced (c_dirs c) p (h_fs h) new (h_fs h1)"
    by (metis (full_types) unit.exhaust)
  from h1(3) obtain j where j: "inPlace (c_dirs c) p j (h_fs h1)" "fs_clock (h_fs h) < i_mtime (fs_inodes (h_fs h1) j)"
    "i_mtime (fs_inodes (h_fs h1) j) \<le> fs_clock (h_fs h1)" "absFs (h_fs h1) = (absFs (h_fs h))(pathComps p \<mapsto> VFile new)"
    by (auto simp: replaced_def)
  from h1(3) have t: "touched (pathComps p) (h_fs h) (h_fs h1)" by (simp add: replaced_def)
  have "i_data (fs_inodes (h_fs h1) j) = new"
  proof -
    have "absFs (h_fs h1) (pathComps p) = Some (VFile new)" using j(4) by simp
    then show ?thesis using inPlaceD(5) [OF j(1)] by (auto simp: absFs_VFile)
  qed
  note data = this
  obtain h2 where h2: "run_state (runFS (WithRoot (c_dirs c) p rStat)) h1 = (Inr (infoOf (h_fs h1) (NFile j)), h2)"
    "still (c_dirs c) (h_sess h) h2" "later (h_fs h1) (h_fs h2)"
    using tripleE [OF quiet_under(1) [where op = rStat, OF j(1) quiet_rStat [OF j(1)]] h1(2) later_refl] by metis
  let ?s = "sessSet c p (int (length new)) (i_mtime (fs_inodes (h_fs h2) j)) (h_sess h)"
  let ?h3 = "h2\<lparr>h_sess := ?s\<rparr>"
  obtain k where mark: "run_state (markKnown c p n) h1 = (k, ?h3)"
    using data h2 by (auto simp: markKnown_def sessMarkRead_def infoOf_file sessSet_def later_simps still_def)
  have st3: "still (c_dirs c) ?s ?h3" using h2(2) by (simp add: still_def sole_def)
  have j3: "inPlace (c_dirs c) p j (h_fs ?h3)" using inPlace_later [OF j(1) h2(3)] by simp
  have r: "replaced (c_dirs c) p (h_fs h) new (h_fs ?h3)"
    using j(2-4) j3 later_clock [OF h2(3)] touched_trans [OF t touched_later [OF h2(3)]]
    by (auto simp: replaced_def later_simps [OF h2(3)] intro!: exI [of _ j])
  from r have "agrees (c_dirs c) p (new, wrote (c_token c) st) ?h3"
    using j3 st3 by (intro agrees_replaced [OF assms, where c = c and j = j]) simp_all
  moreover have "alone p h ?h3" using r by (simp add: alone_def replaced_def sessSet_def MarkRead_def)
  ultimately show ?thesis using h1(1) mark j(4) that by (simp add: later_simps [OF h2(3)])
qed

lemma agrees_abs:
  assumes "agrees ds p (old, st) h"
  shows "(absFs (h_fs h))(pathComps p \<mapsto> VFile old) = absFs (h_fs h)"
proof -
  from assms obtain i where "inPlace ds p i (h_fs h)" "i_data (fs_inodes (h_fs h) i) = old" by (rule agreesE)
  then have "absFs (h_fs h) (pathComps p) = Some (VFile old)" using inPlaceD(5) by (auto simp: absFs_VFile)
  then show ?thesis by (rule fun_upd_idem)
qed

text \<open>What a body comes to, against the editor's answer.\<close>

definition follows :: "Conn \<Rightarrow> bytes \<Rightarrow> 'o ioe \<Rightarrow> host \<Rightarrow> (goerr, 'o) result \<times> bytes \<times> (bytes \<Rightarrow> Status) \<Rightarrow> bool" where
  "follows c p m h = (\<lambda>(r, new, st'). \<exists>h'. run_state m h = (r, h') \<and> agrees (c_dirs c) p (new, st') h' \<and>
     absFs (h_fs h') = (absFs (h_fs h))(pathComps p \<mapsto> VFile new) \<and> alone p h h')"

lemma editFlow_quiet:
  assumes "agrees (c_dirs c) p (old, st) h"
  shows "follows c p (editFlow c p f) h (gated p (c_token c) (f old) (old, st))"
proof -
  from assms obtain i h1 where i: "inPlace (c_dirs c) p i (h_fs h)" "run_state (readSnap c p) h = (Inr (snapOf (h_fs h) i), h1)"
    "still (c_dirs c) (h_sess h) h1" "later (h_fs h) (h_fs h1)" "sn_content (snapOf (h_fs h) i) = old"
    "Compare p (sn_size (snapOf (h_fs h) i)) (sn_mtime (snapOf (h_fs h) i)) (h_sess h1 (c_token c)) = st (c_token c)"
    by (rule snap_quiet)
  have ag: "agrees (c_dirs c) p (old, st) h1" "absFs (h_fs h1) = absFs (h_fs h)"
    using agrees_later [OF assms i(3,4)] i(4) by (simp_all add: later_simps)
  have al: "alone p h h1" using i(3,4) by (intro alone_later) (simp_all add: still_def)
  note start = editFlow_def run_bindE sessCompare_def i(2,5,6)
  show ?thesis
  proof (cases "st (c_token c) = StatusMatch \<and> \<not> isl (f old)")
    case False
    then show ?thesis
      using ag al agrees_abs [OF ag(1)]
      by (cases "st (c_token c)"; cases "f old") (auto simp: follows_def start gated_def)
  next
    case True
    then obtain new x where f: "f old = Inr (new, x)" "st (c_token c) = StatusMatch" by (cases "f old") auto
    have "inPlace (c_dirs c) p i (h_fs h1)" using inPlace_later [OF i(1,4)] .
    from tripleE [OF quiet_statFile [OF this] i(3) later_refl] obtain h2 where h2:
      "run_state (statFile c p) h1 = (Inr (sn_size (snapOf (h_fs h1) i), sn_mtime (snapOf (h_fs h1) i), i_mode (fs_inodes (h_fs h1) i)), h2)"
      "still (c_dirs c) (h_sess h) h2" "later (h_fs h1) (h_fs h2)"
      by metis
    have same: "snapOf (h_fs h1) i = snapOf (h_fs h) i" by (simp add: snapOf_def later_simps [OF i(4)])
    have "agrees (c_dirs c) p (old, st) h2"
      using h2 i(3) by (intro agrees_later [OF ag(1)]) (simp_all add: still_def)
    moreover have al2: "alone p h1 h2" using h2(2,3) i(3) by (intro alone_later) (simp_all add: still_def)
    ultimately obtain h3 h4 k where pub: "run_state (atomicWrite c p new (i_mode (fs_inodes (h_fs h1) i))) h2 = (Inr (), h3)"
      "run_state (markKnown c p (int (length new))) h3 = (k, h4)"
      "agrees (c_dirs c) p (new, wrote (c_token c) st) h4" "absFs (h_fs h4) = (absFs (h_fs h2))(pathComps p \<mapsto> VFile new)"
      "alone p h2 h4"
      by (blast elim: publish_quiet)
    have "run_state (editFlow c p f) h = (Inr x, h4)"
      using h2(1) pub(1,2) by (simp add: start f run_mapErr same)
    with pub(3,4) f ag(2) alone_trans [OF alone_trans [OF al al2] pub(5)] show ?thesis
      by (simp add: follows_def gated_def later_simps [OF h2(3)])
  qed
qed

lemma quiet_statTarget:
  assumes "inPlace (c_dirs c) p i fs0"
  shows "tripleOn (still (c_dirs c) s) (later fs0) (retryPlain (WithRoot (c_dirs c) p (statTarget p)))
    (succeeds (\<lambda>r fs. r = Some (infoOf fs0 (NFile i)) \<and> later fs0 fs))"
proof (rule quiet_under(2) [OF assms])
  show "tripleOn (still (c_dirs c) s) (later fs0) (statTarget p (rootOf (c_dirs c) p) (relOf (c_dirs c) p))
      (succeeds (\<lambda>r fs. r = Some (infoOf fs0 (NFile i)) \<and> later fs0 fs))"
    unfolding statTarget_def
    by (rule quiet_seq(2) [OF quiet_rStat [OF assms]], rule triple_pure, hypsubst)
      (simp add: infoOf_file IsDir_def, rule quiet_ok, simp)
qed

lemma writeLocked_quiet:
  assumes "agrees (c_dirs c) p (old, st) h"
  shows "follows c p (writeLocked c p content) h (gated p (c_token c)
    (Inr (content, \<lparr>wa_BytesWritten = int (length content), wa_Warning = RenderWarn ''content'' (Check content)\<rparr>)) (old, st))"
proof -
  from assms obtain i where i: "still (c_dirs c) (h_sess h) h" "inPlace (c_dirs c) p i (h_fs h)" "i_data (fs_inodes (h_fs h) i) = old"
    "\<forall>t. Compare p (int (length old)) (i_mtime (fs_inodes (h_fs h) i)) (h_sess h t) = st t"
    by (rule agreesE)
  from tripleE [OF quiet_statTarget [OF i(2)] i(1) later_refl] obtain h1 where h1:
    "run_state (retryPlain (WithRoot (c_dirs c) p (statTarget p))) h = (Inr (Some (infoOf (h_fs h) (NFile i))), h1)"
    "still (c_dirs c) (h_sess h) h1" "later (h_fs h) (h_fs h1)"
    by metis
  have ag: "agrees (c_dirs c) p (old, st) h1" "absFs (h_fs h1) = absFs (h_fs h)"
    using agrees_later [OF assms h1(2,3)] h1(3) by (simp_all add: later_simps)
  have al: "alone p h h1" using h1(2,3) by (intro alone_later) (simp_all add: still_def)
  have cmp: "Compare p (fi_size (infoOf (h_fs h) (NFile i))) (fi_mtime (infoOf (h_fs h) (NFile i))) (h_sess h1 (c_token c)) = st (c_token c)"
    using i(3,4) h1(2) by (simp add: infoOf_file still_def)
  show ?thesis
  proof (cases "st (c_token c) = StatusMatch")
    case False
    then show ?thesis
      using ag al agrees_abs [OF ag(1)] h1(1) cmp
      by (cases "st (c_token c)") (auto simp: follows_def writeLocked_def writeGate_def gated_def run_bindE run_mapErr sessCompare_def)
  next
    case True
    have "inPlace (c_dirs c) p i (h_fs h1)" using inPlace_later [OF i(2) h1(3)] .
    from tripleE [OF quiet_statFile [OF this] h1(2) later_refl] obtain h2 where h2:
      "run_state (statFile c p) h1 = (Inr (sn_size (snapOf (h_fs h1) i), sn_mtime (snapOf (h_fs h1) i), i_mode (fs_inodes (h_fs h1) i)), h2)"
      "still (c_dirs c) (h_sess h) h2" "later (h_fs h1) (h_fs h2)"
      by metis
    have same: "sn_size (snapOf (h_fs h1) i) = fi_size (infoOf (h_fs h) (NFile i))" "sn_mtime (snapOf (h_fs h1) i) = fi_mtime (infoOf (h_fs h) (NFile i))"
      by (simp_all add: snapOf_def infoOf_file later_simps [OF h1(3)])
    have "agrees (c_dirs c) p (old, st) h2"
      using h2 h1(2) by (intro agrees_later [OF ag(1)]) (simp_all add: still_def)
    moreover have al2: "alone p h1 h2" using h2(2,3) h1(2) by (intro alone_later) (simp_all add: still_def)
    ultimately obtain h3 h4 k where pub: "run_state (atomicWrite c p content (fi_mode (infoOf (h_fs h) (NFile i)))) h2 = (Inr (), h3)"
      "run_state (markKnown c p (int (length content))) h3 = (k, h4)"
      "agrees (c_dirs c) p (content, wrote (c_token c) st) h4" "absFs (h_fs h4) = (absFs (h_fs h2))(pathComps p \<mapsto> VFile content)"
      "alone p h2 h4"
      by (blast elim: publish_quiet)
    have "run_state (writeGate c p) h = (Inr (False, fi_mode (infoOf (h_fs h) (NFile i))), h2)"
      using h1(1) h2(1) cmp True by (simp add: writeGate_def run_bindE run_mapErr sessCompare_def same)
    with pub(1,2) have "run_state (writeLocked c p content) h =
        (Inr \<lparr>wa_BytesWritten = int (length content), wa_Warning = RenderWarn ''content'' (Check content)\<rparr>, h4)"
      by (simp add: writeLocked_def run_bindE)
    with pub(3,4) True ag(2) alone_trans [OF alone_trans [OF al al2] pub(5)] show ?thesis
      by (simp add: follows_def gated_def later_simps [OF h2(3)])
  qed
qed

section \<open>The handlers\<close>

lemma gated_map:
  "gated p t (map_sum (\<lambda>x. x) (\<lambda>(new, x). (new, F x)) r) s = (map_sum (\<lambda>x. x) F (fst (gated p t r s)), snd (gated p t r s))"
  by (cases s; cases "snd s t"; cases r) (auto simp: gated_def split: Status.split)

lemma follows_map:
  assumes "follows c p m h a"
  shows "follows c p (bindE m (\<lambda>x. ok (F x))) h (map_sum (\<lambda>x. x) F (fst a), snd a)"
  using assms by (cases a; cases "fst a") (auto simp: follows_def run_bindE)

lemma follows_same: "agrees (c_dirs c) p s h \<Longrightarrow> run_state m h = (r, h) \<Longrightarrow> follows c p m h (r, s)"
  by (cases s) (auto simp: follows_def agrees_abs alone_later)

lemma follows_from:
  assumes "follows c p m h1 a" and "absFs (h_fs h1) = absFs (h_fs h)" and "alone p h h1"
    and "\<And>r h'. run_state m h1 = (r, h') \<Longrightarrow> \<exists>l. run_state m0 h = (r, h'\<lparr>h_held := l\<rparr>)"
  shows "follows c p m0 h a"
proof -
  obtain r new st' where a: "a = (r, new, st')" by (cases a) auto
  from assms(1) obtain h' where h': "run_state m h1 = (r, h')" "agrees (c_dirs c) p (new, st') h'"
    "absFs (h_fs h') = (absFs (h_fs h1))(pathComps p \<mapsto> VFile new)" "alone p h1 h'"
    by (auto simp: follows_def a)
  from assms(4) [OF h'(1)] obtain l where "run_state m0 h = (r, h'\<lparr>h_held := l\<rparr>)" by blast
  with h'(2,3) assms(2) alone_trans [OF assms(3) h'(4)] show ?thesis
    by (simp add: follows_def a agrees_held alone_held)
qed

lemma follows_locks:
  assumes "agrees (c_dirs c) p s h"
    and "\<And>h2. agrees (c_dirs c) p s h2 \<Longrightarrow> follows c p body h2 a"
  shows "follows c p (withLocks c k stage p body) h a"
proof -
  from locks_still [OF agrees_scope(6) [OF assms(1)], of body k stage p] obtain h4 where
    h4: "still (c_dirs c) (h_sess h) h4" "later (h_fs h) (h_fs h4)"
    "\<forall>r h5. run_state body h4 = (r, h5) \<longrightarrow> run_state (withLocks c k stage p body) h =
      (r, h5\<lparr>h_held := remove1 (PLocks, p) (remove1 (SessLocks (c_token c), p) (h_held h5))\<rparr>)"
    by blast
  show ?thesis
  proof (rule follows_from [OF assms(2)])
    show "agrees (c_dirs c) p s h4" using h4 by (intro agrees_later [OF assms(1)])
    show "alone p h h4" using h4 by (intro alone_later) (simp_all add: still_def)
  qed (use h4 in \<open>auto simp: later_simps\<close>)
qed

lemma follows_validated:
  assumes "agrees (c_dirs c) p s h" and "admits c h raw = Inr p"
    and "\<And>h2. agrees (c_dirs c) p s h2 \<Longrightarrow> follows c p (body p) h2 a"
  shows "follows c p (bindE (c_validate c raw) body) h a"
proof -
  from validate_quiet [OF assms(1,2)] obtain h1 where h1: "run_state (c_validate c raw) h = (Inr p, h1)"
    "agrees (c_dirs c) p s h1" "absFs (h_fs h1) = absFs (h_fs h)" "alone p h h1" .
  show ?thesis
  proof (rule follows_from [OF assms(3) [OF h1(2)] h1(3,4)])
    fix r h' assume "run_state (body p) h1 = (r, h')"
    with h1(1) have "run_state (bindE (c_validate c raw) body) h = (r, h'\<lparr>h_held := h_held h'\<rparr>)" by (simp add: run_bindE)
    then show "\<exists>l. run_state (bindE (c_validate c raw) body) h = (r, h'\<lparr>h_held := l\<rparr>)" by blast
  qed
qed

text \<open>A request about the file that reads, writes or edits.\<close>

fun aboutFile :: "bytes \<Rightarrow> toolCall \<Rightarrow> bool" where
  "aboutFile p (CallMkdir path) = False"
| "aboutFile p call = (callPath call = p)"

lemma Read_quiet:
  assumes "agrees (c_dirs c) p (old, st) h" and "admits c h (ri_FilePath inp) = Inr p"
  shows "follows c p (outAs OutRead (Read c inp)) h (editor p (c_token c) (CallRead inp) (old, st))"
proof -
  define offset where "offset = (if ri_Offset inp = 0 then 1 else ri_Offset inp)"
  define limit where "limit = (if ri_Limit inp = 0 then DefaultLines else ri_Limit inp)"
  have r: "Read c inp = (case ValidateArgs offset limit of Some e \<Rightarrow> err e
      | None \<Rightarrow> bindE (c_validate c (ri_FilePath inp)) (\<lambda>q. withLocks c 0 ''read'' q (readLocked c q offset limit)))"
    unfolding Read_def Let_def offset_def [symmetric] limit_def [symmetric] ..
  have e: "editor p (c_token c) (CallRead inp) (old, st) =
      (let r = (case ValidateArgs offset limit of Some e \<Rightarrow> Inl e | None \<Rightarrow> map_sum (\<lambda>x. x) OutRead (shownAs old offset limit))
       in (r, old, if isl r then st else st(c_token c := StatusMatch)))"
    unfolding editor.simps pageOf_def Let_def offset_def [symmetric] limit_def [symmetric] ..
  show ?thesis
  proof (cases "ValidateArgs offset limit")
    case (Some x)
    then show ?thesis unfolding r e outAs_def by (auto intro!: follows_same assms(1) simp: run_bindE)
  next
    case None
    let ?a = "(shownAs old offset limit, old, if isl (shownAs old offset limit) then st else st(c_token c := StatusMatch))"
    have "follows c p (bindE (c_validate c (ri_FilePath inp)) (\<lambda>q. withLocks c 0 ''read'' q (readLocked c q offset limit))) h ?a"
    proof (intro follows_validated [OF assms] follows_locks)
      fix h2 assume ag: "agrees (c_dirs c) p (old, st) h2"
      show "follows c p (readLocked c p offset limit) h2 ?a"
        using readLocked_quiet [OF ag, of offset limit] by (auto simp: follows_def agrees_abs [OF ag])
    qed
    from follows_map [OF this, of OutRead] show ?thesis
      unfolding r e outAs_def by (cases "shownAs old offset limit") (simp_all add: None Let_def)
  qed
qed

lemma call_quiet:
  assumes "agrees (c_dirs c) p (old, st) h" and "admits c h (callPath call) = Inr p" and "\<forall>path. call \<noteq> CallMkdir path"
  shows "follows c p (callTool c call) h (editor p (c_token c) call (old, st))"
proof (cases call)
  case (CallRead inp)
  with assms Read_quiet show ?thesis by simp
next
  case (CallWrite path content)
  then have v: "admits c h path = Inr p" using assms(2) by simp
  let ?ack = "\<lparr>wa_BytesWritten = int (length content), wa_Warning = RenderWarn ''content'' (Check content)\<rparr>"
  have "follows c p (Write c path content) h (gated p (c_token c) (Inr (content, ?ack)) (old, st))"
    unfolding Write_def by (intro follows_validated [OF assms(1) v] follows_locks writeLocked_quiet)
  from follows_map [OF this, of OutWrite] gated_map [of p "c_token c" OutWrite "Inr (content, ?ack)" "(old, st)"]
  show ?thesis by (simp add: CallWrite outAs_def)
next
  case (CallEdit path e)
  then have v: "admits c h path = Inr p" using assms(2) by simp
  let ?F = "\<lambda>n. \<lparr>ea_Matches = n, ea_Warning = RenderWarn ''new_string'' (Check (ei_NewString e))\<rparr>"
  have "follows c p (EditTool c path e) h (map_sum (\<lambda>x. x) ?F (fst (gated p (c_token c) (applyEdit p e old) (old, st))),
      snd (gated p (c_token c) (applyEdit p e old) (old, st)))"
    unfolding EditTool_def by (intro follows_validated [OF assms(1) v] follows_locks follows_map editFlow_quiet)
  from follows_map [OF this, of OutEdit] gated_map [of p "c_token c" "\<lambda>n. OutEdit (?F n)" "applyEdit p e old" "(old, st)"]
  show ?thesis by (simp add: CallEdit outAs_def sum.map_comp comp_def)
next
  case (CallMultiEdit path es)
  then have v: "admits c h path = Inr p" using assms(2) by simp
  let ?out = "\<lparr>ea_Matches = length es, ea_Warning = join (warnLoop 0 es) ''; ''\<rparr>" and ?g = "gated p (c_token c) (applyEdits es old) (old, st)"
  show ?thesis
  proof (cases "es = []")
    case True
    have "follows c p (MultiEdit c path es) h (Inl (PlainErr ''edits must contain at least one edit''), old, st)"
      unfolding MultiEdit_def by (intro follows_validated [OF assms(1) v]) (auto intro: follows_same simp: True)
    from follows_map [OF this, of OutEdit] show ?thesis using assms(2) by (simp add: CallMultiEdit outAs_def True)
  next
    case False
    have "follows c p (MultiEdit c path es) h (map_sum (\<lambda>x. x) (\<lambda>_. ?out) (fst ?g), snd ?g)"
      unfolding MultiEdit_def length_0_conv if_not_P [OF False]
      by (intro follows_validated [OF assms(1) v] follows_locks follows_map editFlow_quiet)
    from follows_map [OF this, of OutEdit] gated_map [of p "c_token c" "\<lambda>_. OutEdit ?out" "applyEdits es old" "(old, st)"]
    show ?thesis using False by (simp add: CallMultiEdit outAs_def sum.map_comp comp_def)
  qed
qed (use assms(3) in simp)

lemma editor_shape: "editorRun p ((t, call) # calls) s =
    (fst (editor p t call s) # fst (editorRun p calls (snd (editor p t call s))), snd (editorRun p calls (snd (editor p t call s))))"
  by (simp add: split_beta)

text \<open>Sessions: when no other process interferes, any sequence of \<open>read\<close>, \<open>write\<close>, \<open>edit\<close> and \<open>multi_edit\<close>
  requests by any tokens about one existing file is answered exactly as the pure editor answers it, and
  leaves the file system as it was but for the file, which has the editor's final content. In particular
  the first change after a token's last look refuses that token's changes until it has read again.\<close>

theorem sessions_refine_editor:
  assumes "agrees ds p (old, st) h" and "list_all (\<lambda>(c, call). c_dirs c = ds \<and> aboutFile p call) calls"
    and "editorRun p (map (\<lambda>(c, call). (c_token c, call)) calls) (old, st) = (rs, new, st')"
  shows "\<exists>h'. run_state (history K (map (\<lambda>(c, call). (c, FileRequest call)) calls)) h =
      (map (map_sum (\<lambda>e. e) FileResponse) rs, h') \<and>
    agrees ds p (new, st') h' \<and> absFs (h_fs h') = (absFs (h_fs h))(pathComps p \<mapsto> VFile new)"
  using assms
proof (induction calls arbitrary: old st h rs)
  case Nil
  then show ?case by (auto simp: agrees_abs)
next
  case (Cons x calls)
  obtain c call where x: "x = (c, call)" by fastforce
  obtain r old1 st1 where e: "editor p (c_token c) call (old, st) = (r, old1, st1)" by (metis prod_cases3)
  have c: "c_dirs c = ds" "aboutFile p call" using Cons.prems(2) by (simp_all add: x)
  have "admits c h (callPath call) = Inr p" "\<forall>path. call \<noteq> CallMkdir path"
    using admits_self [of c p "(old, st)" h] Cons.prems(1) c by (cases call; simp)+
  with call_quiet [of c p old st h call] Cons.prems(1) c(1) e obtain h1 where h1: "run_state (callTool c call) h = (r, h1)"
    "agrees ds p (old1, st1) h1" "absFs (h_fs h1) = (absFs (h_fs h))(pathComps p \<mapsto> VFile old1)"
    by (auto simp: follows_def)
  obtain rs1 where rs: "rs = r # rs1" "editorRun p (map (\<lambda>(c, call). (c_token c, call)) calls) (old1, st1) = (rs1, new, st')"
    using Cons.prems(3) e by (auto simp: x split: prod.splits)
  have "list_all (\<lambda>(c, call). c_dirs c = ds \<and> aboutFile p call) calls" using Cons.prems(2) by simp
  from Cons.IH [OF h1(2) this rs(2)] obtain h2 where h2:
    "run_state (history K (map (\<lambda>(c, call). (c, FileRequest call)) calls)) h1 = (map (map_sum (\<lambda>e. e) FileResponse) rs1, h2)"
    "agrees ds p (new, st') h2" "absFs (h_fs h2) = (absFs (h_fs h1))(pathComps p \<mapsto> VFile new)"
    by (elim exE conjE)
  have "run_state (dispatch K c (FileRequest call)) h = (map_sum (\<lambda>e. e) FileResponse r, h1)"
    using h1(1) by (cases r) (simp_all add: run_bindE)
  with h2(1) have "run_state (history K (map (\<lambda>(c, call). (c, FileRequest call)) (x # calls))) h =
      (map (map_sum (\<lambda>e. e) FileResponse) rs, h2)"
    by (simp add: x rs(1))
  moreover have "absFs (h_fs h2) = (absFs (h_fs h))(pathComps p \<mapsto> VFile new)"
    using h2(3) h1(3) by (simp only: fun_upd_upd)
  ultimately show ?case using h2(2) by (intro exI [of _ h2] conjI)
qed

text \<open>Two clients of the demonstration machine: the second one's look is out of date after the first one's edit.\<close>

definition demoSession :: "(Conn \<times> toolCall) list" where
  "demoSession =
     [(demoConn ''t'', CallEdit ''/d/f'' demoEdit),
      (demoConn ''t'', CallRead \<lparr>ri_FilePath = ''/d/f'', ri_Offset = 0, ri_Limit = 0\<rparr>),
      (demoConn ''u'', CallRead \<lparr>ri_FilePath = ''/d/f'', ri_Offset = 0, ri_Limit = 0\<rparr>),
      (demoConn ''t'', CallEdit ''/d/f'' demoEdit),
      (demoConn ''u'', CallWrite ''/d/f'' ''z'')]"

lemma demo_still: "still [''/d''] (h_sess demoHost) demoHost" "wfFs (h_fs demoHost)"
proof -
  have "canonPath ''/d''" "pathComps ''/d'' = [''d'']" by code_simp+
  with demoRoot(1) have "sole [''/d''] demoHost" by (simp add: sole_def) (simp add: demoHost_def emptyHost_def)
  then show "still [''/d''] (h_sess demoHost) demoHost" by (simp add: still_def) (simp add: demoHost_def emptyHost_def)
  show "wfFs (h_fs demoHost)"
    unfolding wfFs_def by (auto simp: demoTree split: if_splits) (simp add: demoHost_def emptyFs_def)
qed

lemma demo_agrees: "agrees [''/d''] ''/d/f'' (''abc'', \<lambda>_. StatusUnknown) demoHost"
proof -
  have p: "pathComps ''/d/f'' = [''d'', ''f'']" by code_simp
  have "placed [''/d''] ''/d/f''" by code_simp
  moreover have "quietTemp ''/d/f'' = [''d'', ''.file-edit-mcp-0000000000000000'']" by code_simp
  moreover have "dirsAbove (h_fs demoHost) [''d'', ''f'']"
    using demoRoot(1) dirsAbove_snoc [of "h_fs demoHost" "[''d'']" "''f''"] by (simp add: okComp_def slash_def dot_def dotdot_def)
  moreover have "\<not> tempIn [''d''] [''d'', ''f'']" by code_simp
  ultimately have "inPlace [''/d''] ''/d/f'' 2 (h_fs demoHost)"
    using demo_still(2) by (simp add: inPlace_def tidy_def p demoTree)
  with demo_still(1) show ?thesis
    by (intro agreesI [of "[''/d'']" demoHost "''/d/f''" 2])
      (auto simp: demoHost_def emptyHost_def emptyFs_def Compare_def Lookup_def newSession_def)
qed

lemma sessions_refine_editor_witness:
  "\<exists>rs h'. run_state (history demoKit (map (\<lambda>(c, call). (c, FileRequest call)) demoSession)) demoHost = (rs, h') \<and>
     map isl rs = [True, False, False, False, True] \<and> absFs (h_fs h') (pathComps ''/d/f'') = Some (VFile ''axyc'')"
proof -
  let ?calls = "map (\<lambda>(c, call). (c_token c, call)) demoSession" and ?s = "(''abc'', \<lambda>_. StatusUnknown)"
  obtain rs new st' where run: "editorRun ''/d/f'' ?calls ?s = (rs, new, st')" by (metis prod_cases3)
  have "map isl (fst (editorRun ''/d/f'' ?calls ?s)) = [True, False, False, False, True]"
    "fst (snd (editorRun ''/d/f'' ?calls ?s)) = ''axyc''" by code_simp+
  then have res: "map isl rs = [True, False, False, False, True]" "new = ''axyc''" by (simp_all add: run)
  have "list_all (\<lambda>(c, call). c_dirs c = [''/d''] \<and> aboutFile ''/d/f'' call) demoSession"
    by (simp add: demoSession_def demoConn_def c_dirs_def AllowedDirs_def demoGuard_def)
  from sessions_refine_editor [OF demo_agrees this run, of demoKit] res show ?thesis
    by (auto simp: comp_def isl_map_sum)
qed

end
