(* ===== verification/TreeServer.thy ===== *)
theory TreeServer
  imports QuietSession
begin

text \<open>
  The five tools on files and directories against an abstract server that keeps a tree of names and, for
  every path and token, what the token knows of the file there. On a machine at rest any sequence of
  requests about any paths is answered as the abstract server answers it. The locale \<open>forward_sim\<close> is the
  interface between the two: one request corresponds, hence every sequence does.
\<close>

section \<open>The abstract server\<close>

type_synonym looks = "bytes \<Rightarrow> bytes \<Rightarrow> Status"

text \<open>A request about a path that is no file: \<open>e\<close> is a directory or nothing.\<close>

fun unfiled :: "bytes \<Rightarrow> bytes \<Rightarrow> entry option \<Rightarrow> toolCall \<Rightarrow> tree \<times> looks \<Rightarrow> (goerr, toolOutput) result \<times> tree \<times> looks" where
  "unfiled p t e (CallRead inp) s = (Inl (noFile p e), s)"
| "unfiled p t e (CallWrite path content) (A, st) =
     (if e = None
      then (Inr (OutWrite \<lparr>wa_BytesWritten = int (length content), wa_Warning = RenderWarn ''content'' (Check content)\<rparr>),
            A(pathComps p \<mapsto> VFile content), st(p := wrote t (st p)))
      else (Inl (EIsDir p), A, st))"
| "unfiled p t e (CallEdit path x) s = (Inl (noFile p e), s)"
| "unfiled p t e (CallMultiEdit path es) s =
     (Inl (if es = [] then PlainErr ''edits must contain at least one edit'' else noFile p e), s)"
| "unfiled p t e (CallMkdir path) (A, st) =
     (Inr (OutMkdir \<lparr>mo_DirPath = p, mo_Status = (if e = None then ''created'' else ''exists'')\<rparr>), A(pathComps p \<mapsto> VDir), st)"

definition atPath :: "bytes \<Rightarrow> bytes \<Rightarrow> toolCall \<Rightarrow> tree \<times> looks \<Rightarrow> (goerr, toolOutput) result \<times> tree \<times> looks" where
  "atPath p t call = (\<lambda>(A, st).
     case A (pathComps p) of
       Some (VFile old) \<Rightarrow>
         (case editor p t call (old, st p) of (r, new, st') \<Rightarrow> (r, A(pathComps p \<mapsto> VFile new), st(p := st')))
     | e \<Rightarrow> unfiled p t e call (A, st))"

text \<open>The only check that comes before the path is looked at.\<close>

fun badArgs :: "toolCall \<Rightarrow> goerr option" where
  "badArgs (CallRead inp) =
     ValidateArgs (if ri_Offset inp = 0 then 1 else ri_Offset inp) (if ri_Limit inp = 0 then DefaultLines else ri_Limit inp)"
| "badArgs call = None"

definition treeCall :: "Conn \<times> toolCall \<Rightarrow> tree \<times> looks \<Rightarrow> (goerr, toolOutput) result \<times> tree \<times> looks" where
  "treeCall = (\<lambda>(c, call) s.
     case badArgs call of
       Some e \<Rightarrow> (Inl e, s)
     | None \<Rightarrow>
         (case admitted (c_env c) (c_guard c) (fst s) (callPath call) of
            Inl e \<Rightarrow> (Inl e, s)
          | Inr p \<Rightarrow> atPath p (c_token c) call s))"

section \<open>The machine against the abstract server\<close>

text \<open>What a token knows of a path: without a file there, a marker is out of date.\<close>

definition statusAt :: "fsys \<Rightarrow> bytes \<Rightarrow> markers \<Rightarrow> Status" where
  "statusAt fs p s =
     (case nodeAt fs (pathComps p) of
        Some (NFile i) \<Rightarrow> Compare p (int (length (i_data (fs_inodes fs i)))) (i_mtime (fs_inodes fs i)) s
      | _ \<Rightarrow> (if Lookup p s = None then StatusUnknown else StatusStale))"

definition known :: "bytes \<Rightarrow> (bytes \<Rightarrow> Status) \<Rightarrow> host \<Rightarrow> bool" where
  "known p stp h \<longleftrightarrow> canonPath p \<and> CHR 0x00 \<notin> set p \<and> \<not> tempIn (butlast (pathComps p)) (pathComps p) \<and>
     nodeAt (h_fs h) (quietTemp p) = None \<and> (\<forall>l. nodeAt (h_fs h) (pathComps p) \<noteq> Some (NLink l)) \<and>
     (\<forall>i. nodeAt (h_fs h) (pathComps p) = Some (NFile i) \<longrightarrow> i_mtime (fs_inodes (h_fs h) i) \<le> fs_clock (h_fs h)) \<and>
     (\<forall>t m. Lookup p (h_sess h t) = Some m \<longrightarrow> ModTime m \<le> fs_clock (h_fs h)) \<and>
     (\<forall>t. statusAt (h_fs h) p (h_sess h t) = stp t)"

definition settled :: "bytes list \<Rightarrow> bytes set \<Rightarrow> tree \<times> looks \<Rightarrow> host \<Rightarrow> bool" where
  "settled ds P = (\<lambda>(A, st) h. still ds (h_sess h) h \<and> wfFs (h_fs h) \<and> absFs (h_fs h) = A \<and> (\<forall>p \<in> P. known p (st p) h))"

text \<open>A request that the comparison covers: it resolves to one of the paths in question, if to any.\<close>

definition admittedIn :: "bytes list \<Rightarrow> bytes set \<Rightarrow> Conn \<times> toolCall \<Rightarrow> tree \<times> looks \<Rightarrow> bool" where
  "admittedIn ds P = (\<lambda>(c, call) s. c_dirs c = ds \<and>
     pred_sum (\<lambda>_. True) (\<lambda>p. p \<in> P) (admitted (c_env c) (c_guard c) (fst s) (callPath call)))"

lemma settledD:
  assumes "settled ds P (A, st) h"
  shows "still ds (h_sess h) h" "wfFs (h_fs h)" "absFs (h_fs h) = A" "p \<in> P \<Longrightarrow> known p (st p) h"
  using assms by (auto simp: settled_def)

lemma Compare_Lookup: "Compare p n m s = (case Lookup p s of None \<Rightarrow> StatusUnknown
    | Some x \<Rightarrow> if Size x = n \<and> ModTime x = m then StatusMatch else StatusStale)"
  by (simp add: Compare_def Lookup_def)

lemma known_alone:
  assumes "known q stq h" and "alone p h h'" and "wfFs (h_fs h)" and "known p stp h" and "q \<noteq> p"
  shows "known q stq h'"
proof -
  have cs: "pathComps q \<noteq> pathComps p" using assms(1,4,5) by (auto simp: known_def canonPath_def)
  have "tempIn (butlast (quietTemp q)) (quietTemp q)" by (simp add: quietTemp_def tempPath_def tempIn_def)
  with assms(4) have tmp: "quietTemp q \<noteq> pathComps p" by (auto simp: known_def)
  from assms(2) have t: "touched (pathComps p) (h_fs h) (h_fs h')" and s: "h_sess h' t q = h_sess h t q" for t
    using assms(5) by (auto simp: alone_def)
  note kept = touched_kept [OF t assms(3)]
  have look: "Lookup q (h_sess h' t) = Lookup q (h_sess h t)" for t by (simp add: Lookup_def s)
  have "statusAt (h_fs h') q (h_sess h' t) = statusAt (h_fs h) q (h_sess h t)" for t
    using kept [OF cs] by (simp add: statusAt_def look Compare_Lookup split: option.split node.split)
  moreover have "fs_clock (h_fs h) \<le> fs_clock (h_fs h')" using t by (simp add: touched_def)
  ultimately show ?thesis
    using assms(1) kept [OF cs] kept(1) [OF tmp] unfolding known_def by (force simp: look)
qed

lemma settled_step:
  assumes "settled ds P (A, st) h" and "p \<in> P" and "alone p h h'" and "still ds (h_sess h') h'" and "wfFs (h_fs h')"
    and "known p stp h'"
  shows "settled ds P (absFs (h_fs h'), st(p := stp)) h'"
proof -
  note s = settledD [OF assms(1)]
  have "known q ((st(p := stp)) q) h'" if "q \<in> P" for q
    using known_alone [OF s(4) [OF that] assms(3) s(2) s(4) [OF assms(2)]] assms(6) by auto
  with assms(4,5) show ?thesis by (simp add: settled_def)
qed

lemma settled_later:
  assumes "settled ds P (A, st) h" and "still ds (h_sess h) h'" and "later (h_fs h) (h_fs h')"
  shows "settled ds P (A, st) h'"
proof -
  note s = settledD [OF assms(1)] and same = later_simps [OF assms(3)]
  have sess: "h_sess h' = h_sess h" using assms(2) by (simp add: still_def)
  have "statusAt (h_fs h') p m = statusAt (h_fs h) p m" for p m
    by (simp add: statusAt_def same split: option.split node.split)
  then have "known p (st p) h'" if "p \<in> P" for p
    using s(4) [OF that] later_clock [OF assms(3)] unfolding known_def sess same by force
  with s(2,3) assms(2) show ?thesis by (simp add: settled_def sess same)
qed

lemma settled_held: "settled ds P s (h\<lparr>h_held := l\<rparr>) = settled ds P s h"
  by (cases s) (simp add: settled_def still_def sole_def known_def)

text \<open>What an admitted path is.\<close>

lemma admitted_known:
  assumes "settled (c_dirs c) P (A, st) h" and "admitted (c_env c) (c_guard c) A raw = Inr p" and "p \<in> P"
  shows "reach (c_dirs c) p (h_fs h)"
    "A (pathComps p) = Some (VFile old) \<Longrightarrow> agrees (c_dirs c) p (old, st p) h"
    "A (pathComps p) = None \<Longrightarrow> vacant (c_dirs c) p (h_fs h)"
proof -
  let ?ds = "c_dirs c" and ?cs = "pathComps p"
  note s = settledD [OF assms(1)]
  note k = s(4) [OF assms(3)]
  have can: "list_all canonPath ?ds" and roots: "d \<in> set ?ds \<Longrightarrow> realDir (h_fs h) (pathComps d)" for d
    using s(1) by (auto simp: still_def sole_def list_all_iff)
  from admitted_place [of "c_env c" "c_guard c" "h_fs h" raw p] assms(2) s(3) have
    p: "canonPath p" "dirsAbove (h_fs h) ?cs" "inside ?ds ?cs"
    by (auto simp: c_dirs_def AllowedDirs_def)
  have own: "owner ?ds p \<noteq> []"
    using p(1,3) can by (auto simp: owner_eq_Nil_iff [OF can] inside_def list_ex_iff list_all_iff pool.inside_iff)
  from s(2) can p(1,2) own k show "reach ?ds p (h_fs h)" by (simp add: reach_def known_def)
  have tidy: "tidy ?cs (h_fs h)" using s(2) p(2) k by (simp add: tidy_def known_def)
  have placed: "placed ?ds p" if "A ?cs \<noteq> Some VDir"
  proof -
    have "p \<notin> set ?ds" using roots [of p] that s(3) by (auto simp: realDir_abs)
    with can p(1) own show ?thesis by (simp add: placed_def)
  qed
  show "vacant ?ds p (h_fs h)" if "A ?cs = None"
    using that placed tidy k s(3) by (auto simp: vacant_def known_def absFs_None)
  show "agrees ?ds p (old, st p) h" if old: "A ?cs = Some (VFile old)"
  proof -
    from old s(3) obtain i where i: "nodeAt (h_fs h) ?cs = Some (NFile i)" "i_data (fs_inodes (h_fs h) i) = old"
      by (auto simp: absFs_VFile)
    with placed tidy k old have "inPlace ?ds p i (h_fs h)" by (simp add: inPlace_def known_def)
    moreover have "Compare p (int (length old)) (i_mtime (fs_inodes (h_fs h) i)) (h_sess h t) = st p t" for t
    proof -
      have "st p t = statusAt (h_fs h) p (h_sess h t)" using k by (simp add: known_def)
      with i show ?thesis by (simp add: statusAt_def)
    qed
    ultimately show ?thesis using s(1) i k by (intro agreesI [of ?ds h p i]) (auto simp: known_def)
  qed
qed

lemma agrees_known:
  assumes "agrees ds p (old, st) h"
  shows "known p st h"
proof -
  from assms obtain i where i: "CHR 0x00 \<notin> set p" "inPlace ds p i (h_fs h)" "i_data (fs_inodes (h_fs h) i) = old"
    "i_mtime (fs_inodes (h_fs h) i) \<le> fs_clock (h_fs h)"
    "\<forall>t. Compare p (int (length old)) (i_mtime (fs_inodes (h_fs h) i)) (h_sess h t) = st t"
    "\<forall>t m. Lookup p (h_sess h t) = Some m \<longrightarrow> ModTime m \<le> fs_clock (h_fs h)"
    by (rule agreesE)
  from i(2) have "canonPath p" "tidy (pathComps p) (h_fs h)" by (auto simp: inPlace_def placed_def)
  with i inPlaceD(5,6) [OF i(2)] show ?thesis by (simp add: known_def statusAt_def tidy_def)
qed

section \<open>Answers\<close>

text \<open>A computation answers as the abstract server does and leaves the machine settled.\<close>

definition answers :: "Conn \<Rightarrow> bytes set \<Rightarrow> 'o ioe \<Rightarrow> host \<Rightarrow> (goerr, 'o) result \<times> tree \<times> looks \<Rightarrow> bool" where
  "answers c P m h = (\<lambda>(r, s'). \<exists>h'. run_state m h = (r, h') \<and> settled (c_dirs c) P s' h')"

lemma answers_map:
  assumes "answers c P m h a"
  shows "answers c P (bindE m (\<lambda>x. ok (F x))) h (map_sum (\<lambda>e. e) F (fst a), snd a)"
  using assms by (cases a; cases "fst a") (auto simp: answers_def run_bindE)

lemma answers_fail: "answers c P m h (Inl e, s) \<Longrightarrow> answers c P (bindE m f) h (Inl e, s)"
  by (auto simp: answers_def run_bindE)

lemma answers_follows:
  assumes "settled (c_dirs c) P (A, st) h" and "p \<in> P" and "follows c p m h (r, new, st')"
  shows "answers c P m h (r, A(pathComps p \<mapsto> VFile new), st(p := st'))"
proof -
  from assms(3) obtain h' where h': "run_state m h = (r, h')" "agrees (c_dirs c) p (new, st') h'"
    "absFs (h_fs h') = (absFs (h_fs h))(pathComps p \<mapsto> VFile new)" "alone p h h'"
    by (auto simp: follows_def)
  from h'(2) have "still (c_dirs c) (h_sess h') h'" "wfFs (h_fs h')" by (auto elim!: agreesE dest: inPlaceD)
  from settled_step [OF assms(1,2) h'(4) this agrees_known [OF h'(2)]] h'(1,3) settledD(3) [OF assms(1)] show ?thesis
    by (simp add: answers_def)
qed

lemma answers_locks:
  assumes "settled (c_dirs c) P (A, st) h"
    and "\<And>h2. settled (c_dirs c) P (A, st) h2 \<Longrightarrow> answers c P body h2 a"
  shows "answers c P (withLocks c k stage p body) h a"
proof -
  from locks_still [OF settledD(1) [OF assms(1)], of body k stage p] obtain h4 where
    h4: "still (c_dirs c) (h_sess h) h4" "later (h_fs h) (h_fs h4)"
    "\<forall>r h5. run_state body h4 = (r, h5) \<longrightarrow> run_state (withLocks c k stage p body) h =
      (r, h5\<lparr>h_held := remove1 (PLocks, p) (remove1 (SessLocks (c_token c), p) (h_held h5))\<rparr>)"
    by blast
  from assms(2) [OF settled_later [OF assms(1) h4(1,2)]] h4(3) show ?thesis
    by (auto simp: answers_def settled_held)
qed

lemma answers_validated:
  assumes "settled (c_dirs c) P (A, st) h"
    and "\<And>p h2. admitted (c_env c) (c_guard c) A raw = Inr p \<Longrightarrow> settled (c_dirs c) P (A, st) h2 \<Longrightarrow> answers c P (body p) h2 (f p)"
  shows "answers c P (bindE (c_validate c raw) body) h
    (case admitted (c_env c) (c_guard c) A raw of Inl e \<Rightarrow> (Inl e, A, st) | Inr p \<Rightarrow> f p)"
proof -
  from still_validate [OF settledD(1) [OF assms(1)], of raw] obtain h1 where
    h1: "run_state (c_validate c raw) h = (admitted (c_env c) (c_guard c) A raw, h1)" "still (c_dirs c) (h_sess h) h1" "later (h_fs h) (h_fs h1)"
    using settledD(3) [OF assms(1)] by metis
  have s1: "settled (c_dirs c) P (A, st) h1" by (rule settled_later [OF assms(1) h1(2,3)])
  show ?thesis
  proof (cases "admitted (c_env c) (c_guard c) A raw")
    case (Inl e)
    with h1(1) s1 show ?thesis by (simp add: answers_def run_bindE)
  next
    case (Inr p)
    with h1(1) assms(2) [OF Inr s1] show ?thesis by (auto simp: answers_def run_bindE)
  qed
qed

section \<open>Paths that are no files\<close>

lemma triple_runs:
  assumes "tripleOn (still ds s) P m Q" and "still ds s h" and "P (h_fs h)"
  obtains r h' where "run_state m h = (r, h')" "still ds s h'" "Q r (h_fs h')"
  using tripleD [OF assms(1) _ assms(2,3)] by (metis surj_pair)

lemma snap_unfiled:
  assumes "settled (c_dirs c) P (A, st) h" and "reach (c_dirs c) p (h_fs h)" and "\<forall>d. A (pathComps p) \<noteq> Some (VFile d)"
  obtains h1 where "run_state (readSnap c p) h = (Inl (noFile p (A (pathComps p))), h1)" "settled (c_dirs c) P (A, st) h1"
proof -
  note s = settledD [OF assms(1)]
  have "\<forall>d. absFs (h_fs h) (pathComps p) \<noteq> Some (VFile d)" using assms(3) s(3) by simp
  from triple_runs [OF quiet_noSnap [OF assms(2) this] s(1) later_refl] obtain r h1 where
    "run_state (readSnap c p) h = (r, h1)" "still (c_dirs c) (h_sess h) h1"
    "r = Inl (noFile p (absFs (h_fs h) (pathComps p)))" "later (h_fs h) (h_fs h1)"
    by blast
  with settled_later [OF assms(1)] s(3) that show ?thesis by auto
qed

lemma reading_unfiled:
  assumes "settled (c_dirs c) P (A, st) h" and "reach (c_dirs c) p (h_fs h)" and "\<forall>d. A (pathComps p) \<noteq> Some (VFile d)"
  shows "answers c P (readLocked c p offset limit) h (Inl (noFile p (A (pathComps p))), A, st)"
    "answers c P (editFlow c p f) h (Inl (noFile p (A (pathComps p))), A, st)"
  by (rule snap_unfiled [OF assms]; simp add: answers_def readLocked_def editFlow_def run_bindE)+

lemma writing_unfiled:
  assumes "settled (c_dirs c) P (A, st) h" and "reach (c_dirs c) p (h_fs h)" and "A (pathComps p) = Some VDir"
  shows "answers c P (writeLocked c p content) h (Inl (EIsDir p), A, st)"
proof -
  note s = settledD [OF assms(1)]
  have d: "\<forall>d. absFs (h_fs h) (pathComps p) \<noteq> Some (VFile d)" using assms(3) s(3) by simp
  from triple_runs [OF quiet_noTarget [OF assms(2) d] s(1) later_refl] assms(3) s(3) obtain h1 where
    "run_state (mapErr (mapFSErr p) (retryPlain (WithRoot (c_dirs c) p (statTarget p)))) h = (Inl (EIsDir p), h1)"
    "still (c_dirs c) (h_sess h) h1" "later (h_fs h) (h_fs h1)"
    by auto
  with settled_later [OF assms(1)] show ?thesis by (simp add: answers_def writeLocked_def writeGate_def run_bindE)
qed

text \<open>A name that is claimed knows an empty file, which every marker is older than; so the write that follows
  is a replacement.\<close>

lemma claimed_agrees:
  assumes "known p stp h" and "nodeAt (h_fs h) (pathComps p) = None" and "replaced ds p (h_fs h) [] (h_fs h')"
    and "still ds (h_sess h) h'"
  shows "agrees ds p ([], stp) h'"
proof -
  from assms(3) obtain j where j: "absFs (h_fs h') = (absFs (h_fs h))(pathComps p \<mapsto> VFile [])" "inPlace ds p j (h_fs h')"
    "fs_clock (h_fs h) < i_mtime (fs_inodes (h_fs h') j)" "i_mtime (fs_inodes (h_fs h') j) \<le> fs_clock (h_fs h')"
    by (auto simp: replaced_def)
  have "absFs (h_fs h') (pathComps p) = Some (VFile [])" using j(1) by simp
  then have data: "i_data (fs_inodes (h_fs h') j) = []" using inPlaceD(5) [OF j(2)] by (auto simp: absFs_VFile)
  have sess: "h_sess h' = h_sess h" using assms(4) by (simp add: still_def)
  have stp: "stp t = statusAt (h_fs h) p (h_sess h t)" for t using assms(1) by (simp add: known_def)
  have old: "Lookup p (h_sess h t) = Some m \<Longrightarrow> ModTime m \<le> fs_clock (h_fs h)" for t m using assms(1) by (simp add: known_def)
  show ?thesis
  proof (rule agreesI [of ds h' p j])
    show "Compare p (int (length [])) (i_mtime (fs_inodes (h_fs h') j)) (h_sess h' t) = stp t" for t
      using old [of t] j(3) by (force simp: stp statusAt_def assms(2) Compare_Lookup sess split: option.split)
    show "ModTime m \<le> fs_clock (h_fs h')" if "Lookup p (h_sess h' t) = Some m" for t m
      using old [of t m] that j(3,4) by (simp add: sess)
  qed (use assms(1,4) j data in \<open>simp_all add: sess known_def\<close>)
qed

lemma writing_new:
  assumes "settled (c_dirs c) P (A, st) h" and "p \<in> P" and "vacant (c_dirs c) p (h_fs h)" and "reach (c_dirs c) p (h_fs h)"
  shows "answers c P (writeLocked c p content) h
    (Inr \<lparr>wa_BytesWritten = int (length content), wa_Warning = RenderWarn ''content'' (Check content)\<rparr>,
     A(pathComps p \<mapsto> VFile content), st(p := wrote (c_token c) (st p)))"
proof -
  let ?ds = "c_dirs c" and ?cs = "pathComps p"
  note s = settledD [OF assms(1)]
  note v = vacantD [OF assms(3)]
  have none: "absFs (h_fs h) ?cs = None" using v(5) by (simp add: absFs_None)
  then have d: "\<forall>d. absFs (h_fs h) ?cs \<noteq> Some (VFile d)" by simp
  from triple_runs [OF quiet_noTarget [OF assms(4) d] s(1) later_refl] none obtain h1 where h1:
    "run_state (mapErr (mapFSErr p) (retryPlain (WithRoot ?ds p (statTarget p)))) h = (Inr None, h1)"
    "still ?ds (h_sess h) h1" "later (h_fs h) (h_fs h1)"
    by auto
  have s1: "settled ?ds P (A, st) h1" by (rule settled_later [OF assms(1) h1(2,3)])
  have v1: "vacant ?ds p (h_fs h1)" by (rule vacant_later [OF assms(3) h1(3)])
  from tripleE [OF quiet_claim [OF v1, where mode = 420] h1(2) later_refl] obtain h2 where h2:
    "run_state (mapErr (mapFSErr p) (retryPlain (WithRoot ?ds p (claimOnce p 420)))) h1 = (Inr (), h2)"
    "still ?ds (h_sess h) h2" "replaced ?ds p (h_fs h1) [] (h_fs h2)"
    by (metis (full_types) unit.exhaust)
  have sess: "h_sess h1 = h_sess h" using h1(2) by (simp add: still_def)
  have ag: "agrees ?ds p ([], st p) h2"
    using claimed_agrees [OF settledD(4) [OF s1 assms(2)] vacantD(5) [OF v1] h2(3)] h2(2) by (simp add: sess)
  then obtain h3 h4 k where pub: "run_state (atomicWrite c p content 420) h2 = (Inr (), h3)"
    "run_state (markKnown c p (int (length content))) h3 = (k, h4)"
    "agrees ?ds p (content, wrote (c_token c) (st p)) h4" "absFs (h_fs h4) = (absFs (h_fs h2))(?cs \<mapsto> VFile content)"
    "alone p h2 h4"
    by (blast elim: publish_quiet)
  have run: "run_state (writeLocked c p content) h =
      (Inr \<lparr>wa_BytesWritten = int (length content), wa_Warning = RenderWarn ''content'' (Check content)\<rparr>, h4)"
    using h1(1) h2(1) pub(1,2) by (simp add: writeLocked_def writeGate_def run_bindE)
  have "alone p h1 h2" using h2(2,3) by (simp add: alone_def replaced_def still_def sess)
  from alone_trans [OF this pub(5)] have al: "alone p h1 h4" .
  have w: "still ?ds (h_sess h4) h4" "wfFs (h_fs h4)" using pub(3) by (auto elim!: agreesE dest: inPlaceD)
  have "absFs (h_fs h4) = A(?cs \<mapsto> VFile content)"
    using pub(4) h2(3) settledD(3) [OF s1] by (simp add: replaced_def)
  with settled_step [OF s1 assms(2) al w agrees_known [OF pub(3)]] run show ?thesis by (simp add: answers_def)
qed

section \<open>mkdir\<close>

lemma mkdir_once:
  assumes "settled (c_dirs c) P (A, st) h" and "p \<in> P" and "reach (c_dirs c) p (h_fs h)"
    and "A (pathComps p) = None \<Longrightarrow> vacant (c_dirs c) p (h_fs h)"
  shows "answers c P (mapErr (mapFSErr p) (runFSContext 1 ''mkdir'' (WithRoot (c_dirs c) p (mkdirOnce p)))) h
    (case A (pathComps p) of
       None \<Rightarrow> (Inr ''created'', A(pathComps p \<mapsto> VDir), st)
     | Some e \<Rightarrow> (if e = VDir then Inr ''exists'' else Inl (ENotDir p), A, st))"
proof -
  let ?ds = "c_dirs c" and ?cs = "pathComps p"
  let ?m = "runFSContext 1 ''mkdir'' (WithRoot ?ds p (mkdirOnce p))"
  note s = settledD [OF assms(1)]
  note k = s(4) [OF assms(2)]
  show ?thesis
  proof (cases "A ?cs")
    case None
    have "tripleOn (still ?ds (h_sess h)) (later (h_fs h)) ?m (\<lambda>r fs. r = Inr ''created'' \<and> made p (h_fs h) fs)"
      by (rule quiet_withRoot(3) [where op = "mkdirOnce p", OF assms(3) quiet_mkdirNew [OF assms(3) assms(4) [OF None]]]) simp
    from triple_runs [OF this s(1) later_refl] obtain h1 where h1: "run_state ?m h = (Inr ''created'', h1)" "still ?ds (h_sess h) h1" "made p (h_fs h) (h_fs h1)"
      by blast
    have sess: "h_sess h1 = h_sess h" using h1(2) by (simp add: still_def)
    have al: "alone p h h1" using h1(3) by (simp add: alone_def made_def sess)
    have at: "nodeAt (h_fs h) ?cs = None" using None s(3) by (auto simp: absFs_None)
    have dir: "absFs (h_fs h1) ?cs = Some VDir" using h1(3) by (simp add: made_def)
    then obtain i where i: "nodeAt (h_fs h1) ?cs = Some (NDir i)" by (auto simp: absFs_VDir)
    have "statusAt (h_fs h1) p m = statusAt (h_fs h) p m" for m by (simp add: statusAt_def at i)
    moreover have "nodeAt (h_fs h1) (quietTemp p) = None"
      using h1(3) vacantD(6,8) [OF assms(4) [OF None]] by (simp add: made_def touched_def)
    moreover have "fs_clock (h_fs h) \<le> fs_clock (h_fs h1)" using h1(3) by (simp add: made_def touched_def)
    ultimately have kn: "known p (st p) h1" using k i unfolding known_def sess by force
    have "still ?ds (h_sess h1) h1" "wfFs (h_fs h1)" using h1(2,3) by (simp_all add: made_def sess)
    from settled_step [OF assms(1,2) al this kn] h1(1,3) s(3) None show ?thesis
      by (simp add: answers_def run_mapErr made_def)
  next
    case (Some e)
    with s(3) have "absFs (h_fs h) ?cs \<noteq> None" by simp
    note old = quiet_mkdirOld [OF assms(3) this]
    have "tripleOn (still ?ds (h_sess h)) (later (h_fs h)) ?m
        (\<lambda>r fs. r = (if absFs (h_fs h) ?cs = Some VDir then Inr ''exists'' else Inl (ENotDir p)) \<and> later (h_fs h) fs)"
      by (rule quiet_withRoot(3) [where op = "mkdirOnce p", OF assms(3) old]) (auto simp: ENotDir_def split: if_splits)
    from triple_runs [OF this s(1) later_refl] obtain h1 where h1: "run_state ?m h = (if A ?cs = Some VDir then Inr ''exists'' else Inl (ENotDir p), h1)"
      "still ?ds (h_sess h) h1" "later (h_fs h) (h_fs h1)"
      using s(3) by auto
    with settled_later [OF assms(1) h1(2,3)] Some show ?thesis by (simp add: answers_def run_mapErr ENotDir_def)
  qed
qed

section \<open>One request\<close>

lemma answers_outAs:
  assumes "answers c P m h (r, s)"
  shows "answers c P (outAs F m) h (map_sum (\<lambda>e. e) F r, s)"
  using answers_map [OF assms, of F] by (simp add: outAs_def)

lemma answers_rejected:
  assumes "settled (c_dirs c) P (A, st) h" and "admitted (c_env c) (c_guard c) A raw = Inl e"
  shows "answers c P (bindE (c_validate c raw) body) h (Inl e, A, st)"
  using answers_validated [OF assms(1), of raw body undefined] assms(2) by simp

lemma answers_admitted:
  assumes "settled (c_dirs c) P (A, st) h" and "admitted (c_env c) (c_guard c) A raw = Inr p"
    and "\<And>h2. settled (c_dirs c) P (A, st) h2 \<Longrightarrow> answers c P (body p) h2 a"
  shows "answers c P (bindE (c_validate c raw) body) h a"
proof -
  have "answers c P (bindE (c_validate c raw) body) h
      (case admitted (c_env c) (c_guard c) A raw of Inl e \<Rightarrow> (Inl e, A, st) | Inr p \<Rightarrow> a)"
    by (rule answers_validated [OF assms(1)]) (use assms(2,3) in auto)
  with assms(2) show ?thesis by simp
qed

lemma Read_args: "badArgs (CallRead inp) = None \<Longrightarrow>
    Read c inp = bindE (c_validate c (ri_FilePath inp)) (\<lambda>p. withLocks c 0 ''read'' p
      (readLocked c p (if ri_Offset inp = 0 then 1 else ri_Offset inp) (if ri_Limit inp = 0 then DefaultLines else ri_Limit inp)))"
  unfolding Read_def Let_def badArgs.simps by (simp only: option.case)

lemma refused_answers:
  assumes "settled (c_dirs c) P (A, st) h" and "admitted (c_env c) (c_guard c) A (callPath call) = Inl e" and "badArgs call = None"
  shows "answers c P (callTool c call) h (Inl e, A, st)"
proof -
  note r = answers_rejected [OF assms(1)]
  show ?thesis
  proof (cases call)
    case (CallRead inp)
    with assms(2) answers_outAs [OF r, of "ri_FilePath inp" e OutRead] show ?thesis
      using Read_args [of inp c] assms(3) by (simp del: badArgs.simps)
  next
    case (CallWrite path content)
    with assms(2) answers_outAs [OF r, of path e OutWrite] show ?thesis by (simp add: Write_def)
  next
    case (CallEdit path x)
    with assms(2) answers_outAs [OF r, of path e OutEdit] show ?thesis by (simp add: EditTool_def)
  next
    case (CallMultiEdit path es)
    with assms(2) answers_outAs [OF r, of path e OutEdit] show ?thesis by (simp add: MultiEdit_def)
  next
    case (CallMkdir path)
    with assms(2) answers_outAs [OF r, of path e OutMkdir] show ?thesis by (simp add: Mkdir_def)
  qed
qed

lemma mkdir_answers:
  assumes "settled (c_dirs c) P (A, st) h" and "admitted (c_env c) (c_guard c) A path = Inr p" and "p \<in> P"
  shows "answers c P (callTool c (CallMkdir path)) h (atPath p (c_token c) (CallMkdir path) (A, st))"
proof -
  define a where "a = (case A (pathComps p) of
       None \<Rightarrow> (Inr ''created'', A(pathComps p \<mapsto> VDir), st)
     | Some e \<Rightarrow> (if e = VDir then Inr ''exists'' else Inl (ENotDir p), A, st))"
  let ?out = "\<lambda>x. \<lparr>mo_DirPath = p, mo_Status = x\<rparr>"
  have "answers c P (Mkdir c path) h (map_sum (\<lambda>e. e) ?out (fst a), snd a)"
    unfolding Mkdir_def
  proof (rule answers_admitted [OF assms(1,2)])
    fix h2 assume s2: "settled (c_dirs c) P (A, st) h2"
    let ?body = "withLocks c 1 ''mkdir'' p (bindE (mapErr (mapFSErr p)
        (runFSContext 1 ''mkdir'' (WithRoot (c_dirs c) p (mkdirOnce p)))) (\<lambda>status. ok (?out status)))"
    have "answers c P ?body h2 (map_sum (\<lambda>e. e) ?out (fst a), snd a)"
    proof (rule answers_locks [OF s2], rule answers_map)
      fix h3 assume s3: "settled (c_dirs c) P (A, st) h3"
      note k = admitted_known [OF s3 assms(2,3)]
      show "answers c P (mapErr (mapFSErr p) (runFSContext 1 ''mkdir'' (WithRoot (c_dirs c) p (mkdirOnce p)))) h3 a"
        unfolding a_def by (rule mkdir_once [OF s3 assms(3) k(1,3)])
    qed
    moreover have "run_state (withTimeout 1) h2 = ((), h2)"
      using settledD(1) [OF s2] by (simp add: withTimeout_def still_def)
    ultimately show "answers c P (withTimeout 1 \<bind> (\<lambda>_. ?body)) h2 (map_sum (\<lambda>e. e) ?out (fst a), snd a)"
      by (simp add: answers_def)
  qed
  from answers_outAs [OF this, of OutMkdir] have
    t: "answers c P (callTool c (CallMkdir path)) h (map_sum (\<lambda>e. e) OutMkdir (map_sum (\<lambda>e. e) ?out (fst a)), snd a)"
    by simp
  have nolink: "A (pathComps p) \<noteq> Some (VLink l)" for l
    using admitted_known(1) [OF assms] settledD(3) [OF assms(1)] by (auto simp: reach_def absFs_VLink)
  have same: "A(pathComps p \<mapsto> e) = A" if "A (pathComps p) = Some e" for e using that by auto
  show ?thesis
  proof (cases "A (pathComps p)")
    case None
    with t show ?thesis by (simp add: a_def atPath_def)
  next
    case (Some e)
    with nolink have "\<nexists>l. e = VLink l" by auto
    with Some t same [OF Some] show ?thesis by (cases e) (simp_all add: a_def atPath_def)
  qed
qed

lemma unfiled_answers:
  assumes "settled (c_dirs c) P (A, st) h" and "admitted (c_env c) (c_guard c) A (callPath call) = Inr p" and "p \<in> P"
    and "badArgs call = None" and "\<forall>d. A (pathComps p) \<noteq> Some (VFile d)" and "\<forall>path. call \<noteq> CallMkdir path"
  shows "answers c P (callTool c call) h (unfiled p (c_token c) (A (pathComps p)) call (A, st))"
proof -
  let ?e = "A (pathComps p)"
  note adm = answers_admitted [OF assms(1)]
  have known: "admitted (c_env c) (c_guard c) A raw = Inr p \<Longrightarrow> settled (c_dirs c) P (A, st) h2 \<Longrightarrow> reach (c_dirs c) p (h_fs h2)" for raw h2
    using admitted_known(1) assms(3) by blast
  have vacant: "settled (c_dirs c) P (A, st) h2 \<Longrightarrow> ?e = None \<Longrightarrow> vacant (c_dirs c) p (h_fs h2)" for h2
    using admitted_known(3) assms(2,3) by blast
  show ?thesis
  proof (cases call)
    case (CallRead inp)
    with assms(2) have a: "admitted (c_env c) (c_guard c) A (ri_FilePath inp) = Inr p" by simp
    have "answers c P (Read c inp) h (Inl (noFile p ?e), A, st)"
      unfolding Read_args [OF assms(4) [unfolded CallRead]]
      by (rule adm [OF a], rule answers_locks, assumption, rule reading_unfiled(1)) (use assms(5) known [OF a] in auto)
    from answers_outAs [OF this, of OutRead] show ?thesis by (simp add: CallRead)
  next
    case (CallWrite path content)
    let ?ack = "\<lparr>wa_BytesWritten = int (length content), wa_Warning = RenderWarn ''content'' (Check content)\<rparr>"
    let ?a = "if ?e = None then (Inr ?ack, A(pathComps p \<mapsto> VFile content), st(p := wrote (c_token c) (st p))) else (Inl (EIsDir p), A, st)"
    from CallWrite assms(2) have a: "admitted (c_env c) (c_guard c) A path = Inr p" by simp
    have "answers c P (Write c path content) h (fst ?a, snd ?a)"
      unfolding Write_def
    proof (rule adm [OF a], rule answers_locks, assumption)
      fix h2 h3 assume s3: "settled (c_dirs c) P (A, st) h3"
      have dir: "?e = None \<or> ?e = Some VDir"
        using known [OF a s3] assms(5) settledD(3) [OF s3]
        by (cases ?e; cases "the ?e") (auto simp: reach_def absFs_VLink)
      show "answers c P (writeLocked c p content) h3 (fst ?a, snd ?a)"
      proof (cases "?e = None")
        case True
        with writing_new [OF s3 assms(3) vacant [OF s3 True] known [OF a s3], of content] show ?thesis by simp
      next
        case False
        with dir writing_unfiled [OF s3 known [OF a s3], of content] show ?thesis by simp
      qed
    qed
    from answers_outAs [OF this, of OutWrite] show ?thesis by (auto simp: CallWrite)
  next
    case (CallEdit path x)
    with assms(2) have a: "admitted (c_env c) (c_guard c) A path = Inr p" by simp
    have "answers c P (EditTool c path x) h (Inl (noFile p ?e), A, st)"
      unfolding EditTool_def
      by (rule adm [OF a], rule answers_locks, assumption, rule answers_fail, rule reading_unfiled(2))
        (use assms(5) known [OF a] in auto)
    from answers_outAs [OF this, of OutEdit] show ?thesis by (simp add: CallEdit)
  next
    case (CallMultiEdit path es)
    with assms(2) have a: "admitted (c_env c) (c_guard c) A path = Inr p" by simp
    show ?thesis
    proof (cases "es = []")
      case True
      have "answers c P (MultiEdit c path es) h (Inl (PlainErr ''edits must contain at least one edit''), A, st)"
        unfolding MultiEdit_def by (rule adm [OF a]) (simp add: True answers_def)
      from answers_outAs [OF this, of OutEdit] show ?thesis by (simp add: CallMultiEdit True)
    next
      case False
      have "answers c P (MultiEdit c path es) h (Inl (noFile p ?e), A, st)"
        unfolding MultiEdit_def length_0_conv if_not_P [OF False]
        by (rule adm [OF a], rule answers_locks, assumption, rule answers_fail, rule reading_unfiled(2))
          (use assms(5) known [OF a] in auto)
      from answers_outAs [OF this, of OutEdit] show ?thesis by (simp add: CallMultiEdit False)
    qed
  qed (use assms(6) in simp)
qed

lemma call_answers:
  assumes "settled ds P s h" and "admittedIn ds P (c, call) s"
  shows "answers c P (callTool c call) h (treeCall (c, call) s)"
proof -
  obtain A st where s: "s = (A, st)" by fastforce
  have ds: "c_dirs c = ds" using assms(2) by (simp add: admittedIn_def)
  note set = assms(1) [unfolded s ds [symmetric]]
  show ?thesis
  proof (cases "badArgs call")
    case (Some e)
    then obtain inp where inp: "call = CallRead inp" by (cases call) auto
    with Some have "Read c inp = err e" unfolding Read_def Let_def by simp
    with set Some inp show ?thesis by (auto simp: s answers_def treeCall_def run_outAs)
  next
    case None
    show ?thesis
    proof (cases "admitted (c_env c) (c_guard c) A (callPath call)")
      case (Inl e)
      with refused_answers [OF set Inl None] None show ?thesis by (simp add: s treeCall_def)
    next
      case (Inr p)
      with assms(2) have p: "p \<in> P" by (simp add: admittedIn_def s)
      have t: "treeCall (c, call) s = atPath p (c_token c) call (A, st)" using None Inr by (simp add: s treeCall_def)
      show ?thesis
      proof (cases "\<exists>path. call = CallMkdir path")
        case True
        then obtain path where m: "call = CallMkdir path" ..
        with Inr have "admitted (c_env c) (c_guard c) A path = Inr p" by simp
        from mkdir_answers [OF set this p] show ?thesis unfolding t unfolding m .
      next
        case False
        show ?thesis
        proof (cases "\<exists>d. A (pathComps p) = Some (VFile d)")
          case True
          then obtain old where old: "A (pathComps p) = Some (VFile old)" ..
          obtain r new st' where e: "editor p (c_token c) call (old, st p) = (r, new, st')" by (metis prod_cases3)
          have "admits c h (callPath call) = Inr p" using Inr settledD(3) [OF set] by simp
          from call_quiet [OF admitted_known(2) [OF set Inr p old] this] False e
          have "follows c p (callTool c call) h (r, new, st')" by auto
          from answers_follows [OF set p this] show ?thesis by (simp add: t atPath_def old e)
        next
          case nofile: False
          have "A (pathComps p) \<noteq> Some (VLink l)" for l
            using admitted_known(1) [OF set Inr p] settledD(3) [OF set] by (auto simp: reach_def absFs_VLink)
          with nofile have "atPath p (c_token c) call (A, st) = unfiled p (c_token c) (A (pathComps p)) call (A, st)"
            by (auto simp: atPath_def split: option.split entry.split)
          with unfiled_answers [OF set Inr p None] nofile False show ?thesis by (simp add: t)
        qed
      qed
    qed
  qed
qed

section \<open>Sequences of requests\<close>

fun runs :: "('r \<Rightarrow> 's \<Rightarrow> 'o \<times> 's) \<Rightarrow> 'r list \<Rightarrow> 's \<Rightarrow> 'o list \<times> 's" where
  "runs step [] s = ([], s)"
| "runs step (r # rs) s = (let (out, s1) = step r s; (outs, s2) = runs step rs s1 in (out # outs, s2))"

fun legalRun :: "('r \<Rightarrow> 's \<Rightarrow> 'o \<times> 's) \<Rightarrow> ('r \<Rightarrow> 's \<Rightarrow> bool) \<Rightarrow> 'r list \<Rightarrow> 's \<Rightarrow> bool" where
  "legalRun step legal [] s = True"
| "legalRun step legal (r # rs) s = (legal r s \<and> legalRun step legal rs (snd (step r s)))"

locale forward_sim =
  fixes concrete :: "'r \<Rightarrow> 'c \<Rightarrow> 'o \<times> 'c" and abstract :: "'r \<Rightarrow> 'a \<Rightarrow> 'o \<times> 'a"
    and sim :: "'a \<Rightarrow> 'c \<Rightarrow> bool" and legal :: "'r \<Rightarrow> 'a \<Rightarrow> bool"
  assumes sim_step: "sim a c \<Longrightarrow> legal r a \<Longrightarrow>
    fst (concrete r c) = fst (abstract r a) \<and> sim (snd (abstract r a)) (snd (concrete r c))"
begin

lemma sim_runs:
  "sim a c \<Longrightarrow> legalRun abstract legal rs a \<Longrightarrow>
    fst (runs concrete rs c) = fst (runs abstract rs a) \<and> sim (snd (runs abstract rs a)) (snd (runs concrete rs c))"
proof (induction rs arbitrary: a c)
  case (Cons r rs)
  from sim_step [of a c r] Cons.prems have step: "fst (concrete r c) = fst (abstract r a)"
    "sim (snd (abstract r a)) (snd (concrete r c))"
    by simp_all
  from Cons.IH [OF step(2)] Cons.prems step(1) show ?case by (simp add: split_beta)
qed simp

lemma sim_outputs: "sim a c \<Longrightarrow> legalRun abstract legal rs a \<Longrightarrow> fst (runs concrete rs c) = fst (runs abstract rs a)"
  using sim_runs by blast

end

definition hostCall :: "Conn \<times> toolCall \<Rightarrow> host \<Rightarrow> (goerr, toolOutput) result \<times> host" where
  "hostCall = (\<lambda>(c, call) h. run_state (callTool c call) h)"

interpretation tree: forward_sim hostCall treeCall "settled ds P" "admittedIn ds P" for ds P
proof unfold_locales
  fix s h r assume s: "settled ds P s h" and l: "admittedIn ds P r s"
  obtain c call where r: "r = (c, call)" by fastforce
  have "c_dirs c = ds" using l by (simp add: r admittedIn_def)
  with call_answers [OF s l [unfolded r]]
  show "fst (hostCall r h) = fst (treeCall r s) \<and> settled ds P (snd (treeCall r s)) (snd (hostCall r h))"
    by (auto simp: hostCall_def r answers_def)
qed

lemma history_runs:
  "run_state (history K (map (\<lambda>(c, call). (c, FileRequest call)) calls)) h =
    (map (map_sum (\<lambda>e. e) FileResponse) (fst (runs hostCall calls h)), snd (runs hostCall calls h))"
proof (induction calls arbitrary: h)
  case (Cons x calls)
  obtain c call where x: "x = (c, call)" by fastforce
  obtain r h1 where r: "run_state (callTool c call) h = (r, h1)" by fastforce
  then have "run_state (dispatch K c (FileRequest call)) h = (map_sum (\<lambda>e. e) FileResponse r, h1)"
    by (cases r) (simp_all add: run_bindE)
  with Cons.IH [of h1] r show ?case by (simp add: x hostCall_def split_beta)
qed simp

section \<open>Properties\<close>

text \<open>C1. The file tools: when no other process interferes, any sequence of \<open>read\<close>, \<open>write\<close>, \<open>edit\<close>,
  \<open>multi_edit\<close> and \<open>mkdir\<close> requests by any tokens about any paths, missing, files or directories, given in any
  form and through any links, is answered exactly as the abstract server answers it on the tree of names, and
  the file system ends as that tree. The paths the requests resolve to must be among \<open>P\<close>, which the machine
  knows to be no links and no names of temporary files.\<close>

theorem server_refines_tree:
  assumes "settled ds P s h" and "legalRun treeCall (admittedIn ds P) calls s" and "runs treeCall calls s = (rs, s')"
  shows "\<exists>h'. run_state (history K (map (\<lambda>(c, call). (c, FileRequest call)) calls)) h =
      (map (map_sum (\<lambda>e. e) FileResponse) rs, h') \<and> settled ds P s' h' \<and> absFs (h_fs h') = fst s'"
proof -
  from tree.sim_runs [OF assms(1,2)] assms(3) have r: "fst (runs hostCall calls h) = rs"
    "settled ds P s' (snd (runs hostCall calls h))"
    by simp_all
  moreover from r(2) have "absFs (h_fs (snd (runs hostCall calls h))) = fst s'" by (cases s') (simp add: settledD)
  ultimately show ?thesis unfolding history_runs by blast
qed

text \<open>A directory and a file in it, made through a link and by its real name, on the demonstration machine.\<close>

definition demoTreeCalls :: "(Conn \<times> toolCall) list" where
  "demoTreeCalls =
     [(demoConn ''t'', CallMkdir ''/l/n''),
      (demoConn ''u'', CallWrite ''/d/n/g'' ''hi''),
      (demoConn ''t'', CallRead \<lparr>ri_FilePath = ''/l/n/g'', ri_Offset = 0, ri_Limit = 0\<rparr>),
      (demoConn ''t'', CallWrite ''/l/../d/n/g'' ''yo''),
      (demoConn ''u'', CallWrite ''/d/n/g'' ''z''),
      (demoConn ''u'', CallRead \<lparr>ri_FilePath = ''/d/n'', ri_Offset = 0, ri_Limit = 0\<rparr>),
      (demoConn ''u'', CallWrite ''/e/x'' ''z'')]"

lemma demo_settled: "settled [''/d''] (set [''/d/n'', ''/d/n/g'']) (absFs (h_fs demoHost), \<lambda>_ _. StatusUnknown) demoHost"
proof -
  have p: "pathComps ''/d/n'' = [''d'', ''n'']" "pathComps ''/d/n/g'' = [''d'', ''n'', ''g'']"
    "canonPath ''/d/n''" "canonPath ''/d/n/g''" by code_simp+
  have q: "quietTemp ''/d/n'' = [''d'', ''.file-edit-mcp-0000000000000000'']"
    "quietTemp ''/d/n/g'' = [''d'', ''n'', ''.file-edit-mcp-0000000000000000'']"
    "\<not> tempIn [''d''] [''d'', ''n'']" "\<not> tempIn [''d'', ''n''] [''d'', ''n'', ''g'']" by code_simp+
  have none: "Lookup x (h_sess demoHost t) = None" for x t
    by (simp add: demoHost_def emptyHost_def Lookup_def newSession_def)
  have "known ''/d/n'' (\<lambda>_. StatusUnknown) demoHost" "known ''/d/n/g'' (\<lambda>_. StatusUnknown) demoHost"
    by (simp_all add: known_def p q demoTree none statusAt_def)
  with demo_still show ?thesis by (simp add: settled_def)
qed

lemma server_refines_tree_witness:
  "\<exists>rs h'. run_state (history demoKit (map (\<lambda>(c, call). (c, FileRequest call)) demoTreeCalls)) demoHost = (rs, h') \<and>
     map isl rs = [False, False, False, False, True, True, True] \<and>
     absFs (h_fs h') (pathComps ''/d/n/g'') = Some (VFile ''yo'')"
proof -
  let ?s = "(absFs (h_fs demoHost), \<lambda>_ _. StatusUnknown)"
  obtain rs s' where run: "runs treeCall demoTreeCalls ?s = (rs, s')" by (metis surj_pair)
  have "map isl (fst (runs treeCall demoTreeCalls ?s)) = [False, False, False, False, True, True, True]"
    "fst (snd (runs treeCall demoTreeCalls ?s)) (pathComps ''/d/n/g'') = Some (VFile ''yo'')" by code_simp+
  then have res: "map isl rs = [False, False, False, False, True, True, True]"
    "fst s' (pathComps ''/d/n/g'') = Some (VFile ''yo'')" by (simp_all add: run)
  have "legalRun treeCall (admittedIn [''/d''] (set [''/d/n'', ''/d/n/g''])) demoTreeCalls ?s" by code_simp
  from server_refines_tree [OF demo_settled this run, of demoKit] res show ?thesis
    by (auto simp: comp_def isl_map_sum)
qed

end
