(* ===== verification/PublishExact.thy ===== *)
theory PublishExact
  imports QuietTools Upload
begin

text \<open>
  Publishing a downloaded image on a machine at rest: what \<open>publishItem\<close> decides is a function of what is at
  the target, and only the case of a missing target changes the file system.
\<close>

section \<open>The decision\<close>

definition publishVerdict :: "Conn \<Rightarrow> uploader \<Rightarrow> bytes \<Rightarrow> downloaded \<Rightarrow> entry option \<Rightarrow> (goerr, bytes \<times> bytes) result" where
  "publishVerdict c U p dl e =
     (case e of
        None \<Rightarrow> Inr (''created'', [])
      | Some VDir \<Rightarrow> Inl (EIsDir p)
      | Some (VLink l) \<Rightarrow> Inl (EExistsConflict p)
      | Some (VFile x) \<Rightarrow>
          if int (length x) \<le> MaxImageBytes (c_limits c) \<and> int (length x) = dl_size dl \<and> up_sha U x = dl_sha dl
          then Inr (''skipped'', []) else Inl (EExistsConflict p))"

text \<open>The download is in its temporary file, whole.\<close>

definition downloadedAt :: "bytes list \<Rightarrow> bytes \<Rightarrow> bytes \<Rightarrow> downloaded \<Rightarrow> bytes \<Rightarrow> fsys \<Rightarrow> bool" where
  "downloadedAt ds p b dl d fs \<longleftrightarrow> placed ds p \<and> tidy (pathComps p) fs \<and> dl_tmpRel dl = tempRel ds p b \<and>
     dl_size dl = int (length d) \<and> absFs fs (tempPath (pathComps p) b) = Some (VFile d)"

lemma downloadedAtD:
  assumes "downloadedAt ds p b dl d fs"
  shows "placed ds p" "owner ds p \<noteq> []" "wfFs fs" "dirsAbove fs (pathComps p)" "dl_tmpRel dl = tempRel ds p b"
    "dl_size dl = int (length d)" "absFs fs (tempPath (pathComps p) b) = Some (VFile d)"
    "tempPath (pathComps p) b \<noteq> pathComps p" "pathComps p \<noteq> []" "tempPath (pathComps p) b \<noteq> []"
proof -
  from assms have p: "placed ds p" by (simp add: downloadedAt_def)
  then show "pathComps p \<noteq> []" by (auto elim: placedE)
qed (use assms tidy_temp [of "pathComps p" fs b] in \<open>auto simp: downloadedAt_def placed_def tidy_def tempPath_def\<close>)

lemma downloadedAt_later: "downloadedAt ds p b dl d fs0 \<Longrightarrow> later fs0 fs \<Longrightarrow> downloadedAt ds p b dl d fs"
  by (auto simp: downloadedAt_def tidy_def later_simps)

section \<open>Its calls\<close>

lemma quiet_just:
  assumes "\<And>fs. later fs0 fs \<Longrightarrow> op fs = (Inr v, fs, [])"
  shows "tripleOn (still ds s) (later fs0) (syscall op) (succeeds (\<lambda>r fs. r = v \<and> later fs0 fs))"
  by (rule quiet_call) (use assms in simp)

lemma quiet_then:
  assumes "tripleOn S P m (succeeds (\<lambda>r fs. r = v \<and> P' fs))" and "tripleOn S P' (f v) R"
  shows "tripleOn S P (bindE m f) R"
  by (rule quiet_seq(1) [OF assms(1)], rule triple_pure, hypsubst, rule assms(2))

lemma quiet_lstatTarget:
  assumes "downloadedAt ds p b dl d fs0"
  shows "tripleOn (still ds s) (later fs0) (rLstat (rootOf ds p) (relOf ds p)) (\<lambda>r fs. statAs fs0 (pathComps p) r \<and> later fs0 fs)"
  unfolding rLstat_def
proof (rule quiet_either)
  fix fs assume l: "later fs0 fs"
  let ?fs = "fs\<lparr>fs_clock := fs_clock fs + 1\<rparr>"
  have l1: "later fs0 ?fs" using l by simp
  note q = downloadedAtD [OF downloadedAt_later [OF assms l1]]
  note same = later_simps [OF l] later_simps(9) [OF l1]
  show "\<exists>r fs' fx. atRoot (rootOf ds p) False (relOf ds p) opStat ?fs = (r, fs', fx) \<and>
      (\<forall>h. statAs fs0 (pathComps p) (map_sum (walkErrToGo h) (\<lambda>x. x) r) \<and> later fs0 fs') \<and>
      (\<forall>q. absFs fs q = Some VDir \<longrightarrow> absFs fs' q = Some VDir)"
    using placed_rootPath(1) [OF q(1,4)] l
    by (cases "nodeAt fs0 (pathComps p)")
      (simp_all add: atRoot_def opStat_def failOp_def okOp_def same statAs_def walkErrToGo_def sysErr_def)
qed

lemma quiet_lstatTemp:
  assumes "downloadedAt ds p b dl d fs0"
  obtains i where "nodeAt fs0 (tempPath (pathComps p) b) = Some (NFile i)" "i_data (fs_inodes fs0 i) = d"
    "tripleOn (still ds s) (later fs0) (rLstat (rootOf ds p) (dl_tmpRel dl))
      (succeeds (\<lambda>r fs. r = infoOf fs0 (NFile i) \<and> later fs0 fs))"
proof -
  obtain i where i: "nodeAt fs0 (tempPath (pathComps p) b) = Some (NFile i)" "i_data (fs_inodes fs0 i) = d"
    using downloadedAtD(7) [OF assms] by (auto simp: absFs_VFile)
  have "tripleOn (still ds s) (later fs0) (rLstat (rootOf ds p) (dl_tmpRel dl))
      (succeeds (\<lambda>r fs. r = infoOf fs0 (NFile i) \<and> later fs0 fs))"
    unfolding rLstat_def
  proof (rule quiet_just)
    fix fs assume l: "later fs0 fs"
    note q = downloadedAtD [OF downloadedAt_later [OF assms l]]
    show "atRoot (rootOf ds p) False (dl_tmpRel dl) opStat fs = (Inr (infoOf fs0 (NFile i)), fs, [])"
      using placed_rootPath(2) [OF q(1,4)] i(1) by (simp add: q(5) atRoot_def opStat_def okOp_def later_simps [OF l])
  qed
  with i that show ?thesis by blast
qed

lemma quiet_open:
  assumes "downloadedAt ds p b dl d fs0" and "nodeAt fs0 (pathComps p) = Some (NFile i)"
  shows "tripleOn (still ds s) (later fs0) (rOpen (rootOf ds p) (relOf ds p))
    (succeeds (\<lambda>r fs. r = \<lparr>hd_ino = i, hd_path = pathComps p, hd_pos = 0\<rparr> \<and> later fs0 fs))"
  unfolding rOpen_def
proof (rule quiet_just)
  fix fs assume l: "later fs0 fs"
  note q = downloadedAtD [OF downloadedAt_later [OF assms(1) l]]
  from q(1) obtain e where e: "e = owner ds p" "canonPath e" "withinPrefix e p" "canonPath p" by (rule placedE)
  have "rootPath fs (rootOf ds p) True (relOf ds p) = Inr (pathComps p)"
    unfolding e(1) [symmetric] by (rule rootPath_real) (use e q(4) assms(2) in \<open>simp_all add: later_simps [OF l]\<close>)
  then show "atRoot (rootOf ds p) True (relOf ds p) opOpen fs = (Inr \<lparr>hd_ino = i, hd_path = pathComps p, hd_pos = 0\<rparr>, fs, [])"
    using assms(2) by (simp add: atRoot_def opOpen_def okOp_def later_simps [OF l])
qed

lemma triple_deferClose:
  assumes "tripleOn (still ds s) P m (\<lambda>r fs. B r \<and> later fs0 fs)"
  shows "tripleOn (still ds s) P (deferClose f m) (\<lambda>r fs. B r \<and> later fs0 fs)"
  unfolding deferClose_def
proof (rule triple_bind [OF assms], rule triple_pure)
  fix r assume "B r"
  then show "tripleOn (still ds s) (later fs0) (ignore (fClose f) \<bind> (\<lambda>_. ret r)) (\<lambda>r fs. B r \<and> later fs0 fs)"
    by (intro triple_bind [OF quiet_ignore [OF quiet_sync(2)]] triple_ret) simp
qed

lemma quiet_compare:
  assumes "downloadedAt (c_dirs c) p b dl d fs0" and "nodeAt fs0 (pathComps p) = Some (NFile i)"
  defines "x \<equiv> i_data (fs_inodes fs0 i)"
  shows "tripleOn (still (c_dirs c) s) (later fs0)
    (compareExisting c U p (infoOf fs0 (NFile i)) dl (rootOf (c_dirs c) p) (relOf (c_dirs c) p))
    (\<lambda>r fs. r = (if int (length x) > MaxImageBytes (c_limits c) then Inl (EExistsConflict p)
                 else Inr (int (length x) = dl_size dl \<and> up_sha U x = dl_sha dl)) \<and> later fs0 fs)"
proof -
  let ?f = "\<lparr>hd_ino = i, hd_path = pathComps p, hd_pos = 0\<rparr>" and ?m = "MaxImageBytes (c_limits c)"
  have rest: "tripleOn (still (c_dirs c) s) (later fs0) (fReadRest ?f) (succeeds (\<lambda>r fs. r = x \<and> later fs0 fs))"
    unfolding fReadRest_def by (rule quiet_just) (simp add: opReadRest_def okOp_def x_def later_simps)
  have lst: "tripleOn (still (c_dirs c) s) (later fs0) (rLstat (rootOf (c_dirs c) p) (relOf (c_dirs c) p))
      (succeeds (\<lambda>r fs. r = infoOf fs0 (NFile i) \<and> later fs0 fs))"
    by (rule triple_conseq [OF quiet_lstatTarget [OF assms(1)]]) (use assms(2) in \<open>auto simp: statAs_def succeeds_def\<close>)
  have cap: "int (length (take (nat (?m + 1)) x)) > ?m \<longleftrightarrow> int (length x) > ?m" by auto
  have all: "\<not> int (length x) > ?m \<Longrightarrow> take (nat (?m + 1)) x = x" by simp
  have size: "fi_size (infoOf fs0 (NFile i)) = int (length x)" by (simp add: infoOf_file x_def)
  show ?thesis
    unfolding compareExisting_def Let_def
  proof (rule quiet_then [OF quiet_open [OF assms(1,2)]], rule triple_deferClose, rule quiet_then [OF rest])
    show "tripleOn (still (c_dirs c) s) (later fs0)
        (if ?m < int (length (take (nat (?m + 1)) x)) then err (EExistsConflict p)
         else bindE (rLstat (rootOf (c_dirs c) p) (relOf (c_dirs c) p)) (\<lambda>after.
           if fi_size after \<noteq> fi_size (infoOf fs0 (NFile i)) \<or> fi_mtime after \<noteq> fi_mtime (infoOf fs0 (NFile i))
           then err (ETargetChanged p)
           else if int (length (take (nat (?m + 1)) x)) \<noteq> fi_size (infoOf fs0 (NFile i)) then err (ETargetChanged p)
           else if int (length (take (nat (?m + 1)) x)) \<noteq> dl_size dl \<or> up_sha U (take (nat (?m + 1)) x) \<noteq> dl_sha dl
           then ok False else ok True))
        (\<lambda>r fs. r = (if int (length x) > ?m then Inl (EExistsConflict p)
           else Inr (int (length x) = dl_size dl \<and> up_sha U x = dl_sha dl)) \<and> later fs0 fs)"
    proof (cases "int (length x) > ?m")
      case True
      then show ?thesis unfolding cap by (simp add: triple_ret)
    next
      case False
      show ?thesis
        unfolding cap if_not_P [OF False] all [OF False]
        by (rule quiet_then [OF lst]) (auto simp: size intro!: triple_ret)
    qed
  qed
qed

section \<open>The decision is carried out\<close>

definition publishedAs :: "bytes \<Rightarrow> bytes \<Rightarrow> bytes \<Rightarrow> fsys \<Rightarrow> fsys \<Rightarrow> bool" where
  "publishedAs p b d fs0 fs \<longleftrightarrow> absFs fs =
     (if absFs fs0 (pathComps p) = None
      then (absFs fs0)(pathComps p \<mapsto> VFile d, tempPath (pathComps p) b := None) else absFs fs0)"

definition linked :: "bytes \<Rightarrow> bytes \<Rightarrow> bytes \<Rightarrow> fsys \<Rightarrow> fsys \<Rightarrow> bool" where
  "linked p b d fs0 fs \<longleftrightarrow> absFs fs = (absFs fs0)(pathComps p \<mapsto> VFile d) \<and>
     (\<exists>i. nodeAt fs (tempPath (pathComps p) b) = Some (NFile i)) \<and> (\<forall>q. absFs fs0 q = Some VDir \<longrightarrow> absFs fs q = Some VDir)"

lemma quiet_link:
  assumes "downloadedAt ds p b dl d fs0" and "absFs fs0 (pathComps p) = None"
  shows "tripleOn (still ds s) (later fs0) (rLink (rootOf ds p) (dl_tmpRel dl) (relOf ds p)) (succeeds (\<lambda>_. linked p b d fs0))"
  unfolding rLink_def
proof (rule quiet_call)
  fix fs assume l: "later fs0 fs"
  let ?fs = "fs\<lparr>fs_clock := fs_clock fs + 1\<rparr>" and ?cs = "pathComps p" and ?t = "tempPath (pathComps p) b"
  have l1: "later fs0 ?fs" using l by simp
  note q = downloadedAtD [OF downloadedAt_later [OF assms(1) l1]]
  note r = placed_rootPath(1,2) [OF q(1,4)]
  from q(7) obtain i where i: "nodeAt ?fs ?t = Some (NFile i)" "i_data (fs_inodes ?fs i) = d" by (auto simp: absFs_VFile)
  have none: "nodeAt ?fs ?cs = None" using assms(2) by (simp add: absFs_None later_simps [OF l])
  define fs' where "fs' = setNode ?cs (NFile i) ?fs"
  have o: "opLink ?t ?cs ?fs = (Inr (), fs', [FxLink ?t ?cs d])"
    using i none by (simp add: opLink_def fileBytes_def fs'_def)
  have a: "absFs fs' = (absFs fs0)(?cs \<mapsto> VFile d)"
    using i(2) unfolding fs'_def absFs_setNode [OF q(9)] by (simp add: entryOf_def later_simps [OF l])
  have keep: "absFs fs0 q = Some VDir \<longrightarrow> absFs fs' q = Some VDir" for q using assms(2) by (auto simp: a)
  have "linked p b d fs0 fs'" using a keep i(1) q(8,9) by (simp add: linked_def fs'_def)
  with keep show "\<exists>u fs' fx. atRoot2 (rootOf ds p) (dl_tmpRel dl) (relOf ds p) opLink ?fs = (Inr u, fs', fx) \<and>
      linked p b d fs0 fs' \<and> (\<forall>q. absFs fs q = Some VDir \<longrightarrow> absFs fs' q = Some VDir)"
    using r o by (simp add: q(5) atRoot2_def atRoot_def later_simps [OF l])
qed

lemma quiet_unlink:
  assumes "downloadedAt ds p b dl d fs0" and "absFs fs0 (pathComps p) = None"
  shows "tripleOn (still ds s) (linked p b d fs0) (rRemove (rootOf ds p) (dl_tmpRel dl)) (succeeds (\<lambda>_. publishedAs p b d fs0))"
  unfolding rRemove_def
proof (rule quiet_call)
  fix fs assume l: "linked p b d fs0 fs"
  let ?fs = "fs\<lparr>fs_clock := fs_clock fs + 1\<rparr>" and ?cs = "pathComps p" and ?t = "tempPath (pathComps p) b"
  note q = downloadedAtD [OF assms(1)]
  have dirs: "dirsAbove ?fs ?cs" using q(4) l by (simp add: dirsAbove_abs linked_def)
  from l obtain i where i: "nodeAt ?fs ?t = Some (NFile i)" by (auto simp: linked_def)
  have o: "opRemove ?t ?fs = (Inr (), delNode ?t ?fs, [FxRemove ?t])" using i q(10) by (simp add: opRemove_def)
  have a: "absFs (delNode ?t ?fs) = (absFs fs)(?t := None)" unfolding absFs_delNode [OF q(10)] by simp
  have "publishedAs p b d fs0 (delNode ?t ?fs)" using assms(2) l by (simp add: publishedAs_def linked_def a)
  moreover have "absFs fs q = Some VDir \<longrightarrow> absFs (delNode ?t ?fs) q = Some VDir" for q
    using i by (auto simp: a absFs_def entryOf_def)
  ultimately show "\<exists>u fs' fx. atRoot (rootOf ds p) False (dl_tmpRel dl) opRemove ?fs = (Inr u, fs', fx) \<and>
      publishedAs p b d fs0 fs' \<and> (\<forall>q. absFs fs q = Some VDir \<longrightarrow> absFs fs' q = Some VDir)"
    using placed_rootPath(2) [OF q(1) dirs, of b] o by (simp add: q(5) atRoot_def)
qed

lemma quiet_publishNew:
  assumes "downloadedAt ds p b dl d fs0" and "absFs fs0 (pathComps p) = None"
  shows "tripleOn (still ds s) (later fs0) (publishNoReplace dl (rootOf ds p) (relOf ds p))
    (succeeds (\<lambda>r fs. r = (''created'', []) \<and> publishedAs p b d fs0 fs))"
proof -
  from quiet_lstatTemp [OF assms(1)] obtain i where i: "i_data (fs_inodes fs0 i) = d"
    "tripleOn (still ds s) (later fs0) (rLstat (rootOf ds p) (dl_tmpRel dl)) (succeeds (\<lambda>r fs. r = infoOf fs0 (NFile i) \<and> later fs0 fs))"
    by blast
  have info: "IsRegular (infoOf fs0 (NFile i))" "fi_size (infoOf fs0 (NFile i)) = dl_size dl"
    using i(1) downloadedAtD(6) [OF assms(1)] by (simp_all add: infoOf_file IsRegular_def)
  have rm: "tripleOn (still ds s) (linked p b d fs0)
      (rRemove (rootOf ds p) (dl_tmpRel dl) \<bind> (\<lambda>m. ok (''created'', case m of Inl _ \<Rightarrow> CodeTempCleanup | Inr _ \<Rightarrow> [])))
      (succeeds (\<lambda>r fs. r = (''created'', []) \<and> publishedAs p b d fs0 fs))"
    by (rule triple_bind [OF quiet_unlink [OF assms]]) (auto simp: succeeds_def tripleOn_def)
  show ?thesis
    unfolding publishNoReplace_def
    by (rule quiet_seq(2) [OF i(2)], rule triple_pure, hypsubst) (simp add: info, rule quiet_seq(2) [OF quiet_link [OF assms]], rule rm)
qed

lemma quiet_compareTarget:
  assumes "downloadedAt (c_dirs c) p b dl d fs0" and "nodeAt fs0 (pathComps p) = Some n"
  shows "tripleOn (still (c_dirs c) s) (later fs0)
    (compareTarget c U p (infoOf fs0 n) dl (rootOf (c_dirs c) p) (relOf (c_dirs c) p))
    (\<lambda>r fs. r = publishVerdict c U p dl (absFs fs0 (pathComps p)) \<and> later fs0 fs)"
proof (cases n)
  case (NDir i)
  then have "absFs fs0 (pathComps p) = Some VDir" using assms(2) by (simp add: absFs_VDir)
  then show ?thesis by (simp add: compareTarget_def NDir fi_kind_infoOf publishVerdict_def triple_ret)
next
  case (NLink l)
  then have "absFs fs0 (pathComps p) = Some (VLink l)" using assms(2) by (simp add: absFs_VLink)
  then show ?thesis by (simp add: compareTarget_def NLink fi_kind_infoOf IsRegular_def infoOf_def IsDir_def publishVerdict_def triple_ret)
next
  case (NFile i)
  let ?x = "i_data (fs_inodes fs0 i)"
  have e: "absFs fs0 (pathComps p) = Some (VFile ?x)" using assms(2) NFile by (simp add: absFs_VFile)
  have info: "\<not> IsDir (infoOf fs0 (NFile i))" "IsRegular (infoOf fs0 (NFile i))" by (simp_all add: infoOf_file IsDir_def IsRegular_def)
  note cmp = quiet_compare [OF assms(1) assms(2) [unfolded NFile]]
  show ?thesis
    unfolding compareTarget_def NFile e if_not_P [OF info(1)]
    by (simp only: info(2) simp_thms if_False, unfold bindE_def, rule triple_bind [OF cmp], rule triple_pure)
      (auto simp: publishVerdict_def intro!: triple_ret)
qed

lemma quiet_publishOnce:
  assumes "downloadedAt (c_dirs c) p b dl d fs0"
  shows "tripleOn (still (c_dirs c) s) (later fs0) (publishOnce c U p dl (rootOf (c_dirs c) p) (relOf (c_dirs c) p))
    (\<lambda>r fs. r = publishVerdict c U p dl (absFs fs0 (pathComps p)) \<and> publishedAs p b d fs0 fs)"
  unfolding publishOnce_def
proof (rule triple_bind [OF quiet_lstatTarget [OF assms]], rule triple_pure)
  let ?Q = "\<lambda>r fs. r = publishVerdict c U p dl (absFs fs0 (pathComps p)) \<and> publishedAs p b d fs0 fs"
  let ?root = "rootOf (c_dirs c) p" and ?rel = "relOf (c_dirs c) p"
  let ?new = "\<lambda>e. if isNotExist e then publishNoReplace dl ?root ?rel \<bind> (\<lambda>p'.
      case p' of Inl perr \<Rightarrow> if isRaced perr then bindE (rLstat ?root ?rel) (\<lambda>info2. compareTarget c U p info2 dl ?root ?rel)
          else err perr
        | Inr out \<Rightarrow> ok out) else err e"
  fix r assume st: "statAs fs0 (pathComps p) r"
  show "tripleOn (still (c_dirs c) s) (later fs0) (case r of Inl e \<Rightarrow> ?new e | Inr info \<Rightarrow> compareTarget c U p info dl ?root ?rel) ?Q"
  proof (cases "nodeAt fs0 (pathComps p)")
    case None
    then have none: "absFs fs0 (pathComps p) = None" by (simp add: absFs_None)
    from st None obtain m where r: "r = Inl (SysErr ENOENT m)" by (auto simp: statAs_def)
    have "tripleOn (still (c_dirs c) s) (later fs0)
        (publishNoReplace dl ?root ?rel \<bind> case_sum g (\<lambda>out. ok out)) ?Q" for g
      by (rule triple_bind [OF quiet_publishNew [OF assms none]])
        (auto simp: succeeds_def tripleOn_def publishVerdict_def none)
    with r show ?thesis by (simp add: isNotExist_def isErrno_def)
  next
    case (Some n)
    with st have r: "r = Inr (infoOf fs0 n)" by (simp add: statAs_def)
    have "absFs fs0 (pathComps p) \<noteq> None" using Some by (simp add: absFs_None)
    then have same: "later fs0 fs \<Longrightarrow> publishedAs p b d fs0 fs" for fs by (auto simp: publishedAs_def later_simps)
    from triple_conseq [OF quiet_compareTarget [OF assms Some]] same show ?thesis by (simp add: r)
  qed
qed

text \<open>C11. Publishing: on a machine at rest a downloaded image that is whole in its temporary file is published
  exactly when its target is missing; the file system then has the image at the target and no temporary file. A
  target with the same size and digest is skipped, a directory, a link or other content is refused, and in
  all these cases nothing changes.\<close>

theorem publish_exact:
  assumes "still (c_dirs c) s h" and "downloadedAt (c_dirs c) p b dl d (h_fs h)"
  shows "\<exists>h'. run_state (publishItem c U k p dl) h = (publishVerdict c U p dl (absFs (h_fs h) (pathComps p)), h') \<and>
    publishedAs p b d (h_fs h) (h_fs h')"
proof -
  let ?Q = "\<lambda>r fs. r = publishVerdict c U p dl (absFs (h_fs h) (pathComps p)) \<and> publishedAs p b d (h_fs h) fs"
  have w: "tripleOn (still (c_dirs c) s) (later (h_fs h)) (WithRoot (c_dirs c) p (publishOnce c U p dl)) ?Q"
    by (rule quiet_WithRoot [where op = "publishOnce c U p dl", OF quiet_publishOnce [OF assms(2)] downloadedAtD(2) [OF assms(2)]]) (rule later_trans)
  have "tripleOn (still (c_dirs c) s) (later (h_fs h)) (publishItem c U k p dl) ?Q"
    unfolding publishItem_def
    by (rule quiet_retryFinal(3) [OF w])
      (auto simp: publishVerdict_def EIsDir_def EExistsConflict_def split: option.splits entry.splits if_splits)
  from tripleD [OF this _ assms(1) later_refl] show ?thesis by (metis surj_pair)
qed

text \<open>Two downloads on the demonstration machine: one for a new name, one for a name that has other content.\<close>

definition demoFetched :: host where
  "demoFetched = demoHost\<lparr>h_fs := (h_fs demoHost)\<lparr>
     fs_names := ([''d'', ''.file-edit-mcp-0000000000000000''], NFile 3) # fs_names (h_fs demoHost),
     fs_inodes := (fs_inodes (h_fs demoHost))(3 := \<lparr>i_data = ''GIF89a;'', i_mode = 420, i_mtime = 6\<rparr>), fs_next := 4\<rparr>\<rparr>"

definition demoDownload :: downloaded where
  "demoDownload = \<lparr>dl_tmpRel = ''.file-edit-mcp-0000000000000000'', dl_size = 7, dl_sha = ''GIF89a;'',
     dl_det = \<lparr>MIME = ''image/gif'', Ext = ''.gif''\<rparr>\<rparr>"

lemma demoFetchedTree: "nodeAt (h_fs demoFetched) q = (if q = [''d'', ''.file-edit-mcp-0000000000000000''] then Some (NFile 3)
    else nodeAt (h_fs demoHost) q)"
  by (auto simp: demoFetched_def nodeAt_def)

lemma demo_fetched:
  assumes "p = ''/d/i.gif'' \<or> p = ''/d/f''"
  shows "downloadedAt [''/d''] p (replicate 8 (CHR 0x00)) demoDownload ''GIF89a;'' (h_fs demoFetched)"
proof -
  have p: "pathComps ''/d/i.gif'' = [''d'', ''i.gif'']" "pathComps ''/d/f'' = [''d'', ''f'']" by code_simp+
  have pl: "placed [''/d''] ''/d/i.gif''" "placed [''/d''] ''/d/f''" by code_simp+
  have t: "tempPath [''d'', ''i.gif''] (replicate 8 (CHR 0x00)) = [''d'', ''.file-edit-mcp-0000000000000000'']"
    "tempPath [''d'', ''f''] (replicate 8 (CHR 0x00)) = [''d'', ''.file-edit-mcp-0000000000000000'']"
    "tempRel [''/d''] ''/d/i.gif'' (replicate 8 (CHR 0x00)) = ''.file-edit-mcp-0000000000000000''"
    "tempRel [''/d''] ''/d/f'' (replicate 8 (CHR 0x00)) = ''.file-edit-mcp-0000000000000000''"
    "\<not> tempIn [''d''] [''d'', ''i.gif'']" "\<not> tempIn [''d''] [''d'', ''f'']" by code_simp+
  have ok: "okComp ''d''" "okComp ''i.gif''" "okComp ''f''" by (auto simp: okComp_def slash_def dot_def dotdot_def)
  have dir: "realDir (h_fs demoFetched) [''d'']" using ok by (simp add: realDir_def dirsAbove_def demoFetchedTree demoTree)
  then have above: "dirsAbove (h_fs demoFetched) [''d'', ''i.gif'']" "dirsAbove (h_fs demoFetched) [''d'', ''f'']"
    using ok dirsAbove_snoc [of "h_fs demoFetched" "[''d'']"] by auto
  have wf: "wfFs (h_fs demoFetched)"
    unfolding wfFs_def by (auto simp: demoFetchedTree demoTree split: if_splits) (simp_all add: demoFetched_def demoHost_def emptyFs_def)
  have data: "absFs (h_fs demoFetched) [''d'', ''.file-edit-mcp-0000000000000000''] = Some (VFile ''GIF89a;'')"
    by (simp add: absFs_VFile demoFetchedTree) (simp add: demoFetched_def)
  from assms show ?thesis
    by (rule disjE) (simp_all add: downloadedAt_def tidy_def p pl t above wf data demoDownload_def)
qed

lemma publish_exact_witness:
  "\<exists>h1 h2. run_state (publishItem (demoConn ''t'') demoUploader 0 ''/d/i.gif'' demoDownload) demoFetched = (Inr (''created'', []), h1) \<and>
     absFs (h_fs h1) [''d'', ''i.gif''] = Some (VFile ''GIF89a;'') \<and>
     run_state (publishItem (demoConn ''t'') demoUploader 0 ''/d/f'' demoDownload) demoFetched = (Inl (EExistsConflict ''/d/f''), h2) \<and>
     absFs (h_fs h2) [''d'', ''f''] = Some (VFile ''abc'')"
proof -
  let ?c = "demoConn ''t''"
  have c: "c_dirs ?c = [''/d'']" by code_simp
  have can: "canonPath ''/d''" "pathComps ''/d'' = [''d'']" by code_simp+
  have "okComp ''d''" by (auto simp: okComp_def slash_def dot_def dotdot_def)
  then have "realDir (h_fs demoFetched) [''d'']" by (simp add: realDir_def dirsAbove_def demoFetchedTree demoTree)
  then have still: "still (c_dirs ?c) (h_sess demoFetched) demoFetched"
    unfolding c using can by (simp add: still_def sole_def) (simp add: demoFetched_def demoHost_def emptyHost_def)
  have p: "pathComps ''/d/i.gif'' = [''d'', ''i.gif'']" "pathComps ''/d/f'' = [''d'', ''f'']" by code_simp+
  have e: "absFs (h_fs demoFetched) [''d'', ''i.gif''] = None" "absFs (h_fs demoFetched) [''d'', ''f''] = Some (VFile ''abc'')"
    by (simp add: absFs_None demoFetchedTree demoTree)
      (simp add: absFs_VFile demoFetchedTree demoTree, simp add: demoFetched_def demoHost_def)
  from publish_exact [OF still demo_fetched [unfolded c [symmetric]], of "''/d/i.gif''" demoUploader 0] obtain h1 where
    h1: "run_state (publishItem ?c demoUploader 0 ''/d/i.gif'' demoDownload) demoFetched = (Inr (''created'', []), h1)"
    "publishedAs ''/d/i.gif'' (replicate 8 (CHR 0x00)) ''GIF89a;'' (h_fs demoFetched) (h_fs h1)"
    by (auto simp: p e publishVerdict_def)
  have "tempPath [''d'', ''i.gif''] (replicate 8 (CHR 0x00)) = [''d'', ''.file-edit-mcp-0000000000000000'']" by code_simp
  with h1(2) have "absFs (h_fs h1) [''d'', ''i.gif''] = Some (VFile ''GIF89a;'')" by (simp add: publishedAs_def p e)
  moreover from publish_exact [OF still demo_fetched [unfolded c [symmetric]], of "''/d/f''" demoUploader 0] obtain h2 where
    "run_state (publishItem ?c demoUploader 0 ''/d/f'' demoDownload) demoFetched = (Inl (EExistsConflict ''/d/f''), h2)"
    "absFs (h_fs h2) [''d'', ''f''] = Some (VFile ''abc'')"
    by (auto simp: p e publishVerdict_def publishedAs_def demoDownload_def)
  ultimately show ?thesis using h1(1) by blast
qed

end
